(* ===== verification/Sha256.thy ===== *)
theory Sha256
  imports Cosi_Prelude
begin

text \<open>
  The class \<^verbatim>\<open>SHA256\<close> of \<^verbatim>\<open>lib/signature/sha256.cc\<close>: the unrolled compression function, the
  streaming interface (\<open>add\<close>, \<open>getHash\<close>) with its 64-byte buffer, and the hexadecimal digest. A
  reference definition of SHA-256 follows (rolled loop, message padded as a whole), and the
  lemmas show that the optimised streaming class computes it: the unrolled rounds are the rolled
  ones, the object's state represents the bytes added so far, and the digest does not depend on how
  the input was cut into pieces nor on the uninitialised buffer.
\<close>

section \<open>The class of the source\<close>

record sha256 =
  m_numBytes :: u64
  m_bufferSize :: nat
  m_buffer :: "u8 list"
  m_hash :: "u32 list"

type_synonym sha_vars = "u32 \<times> u32 \<times> u32 \<times> u32 \<times> u32 \<times> u32 \<times> u32 \<times> u32"

abbreviation (input) BlockSize :: nat where "BlockSize \<equiv> 64"
abbreviation (input) HashValues :: nat where "HashValues \<equiv> 8"

definition reset :: "sha256 \<Rightarrow> sha256" where
  "reset s = s\<lparr>m_numBytes := 0, m_bufferSize := 0,
     m_hash := [0x6a09e667, 0xbb67ae85, 0x3c6ef372, 0xa54ff53a,
                0x510e527f, 0x9b05688c, 0x1f83d9ab, 0x5be0cd19]\<rparr>"

definition rotate :: "u32 \<Rightarrow> nat \<Rightarrow> u32" where
  "rotate a c = drop_bit c a OR push_bit (32 - c) a"

definition swap :: "u32 \<Rightarrow> u32" where
  "swap x = drop_bit 24 x OR (drop_bit 8 x AND 0x0000FF00) OR (push_bit 8 x AND 0x00FF0000)
     OR push_bit 24 x"

definition f1 :: "u32 \<Rightarrow> u32 \<Rightarrow> u32 \<Rightarrow> u32" where
  "f1 e f g = (let term1 = rotate e 6 XOR rotate e 11 XOR rotate e 25;
                   term2 = (e AND f) XOR (NOT e AND g)
               in term1 + term2)"

definition f2 :: "u32 \<Rightarrow> u32 \<Rightarrow> u32 \<Rightarrow> u32" where
  "f2 a b c = (let term1 = rotate a 2 XOR rotate a 13 XOR rotate a 22;
                   term2 = ((a OR b) AND c) OR (a AND b)
               in term1 + term2)"

text \<open>
  The four statements every step of \<^verbatim>\<open>processBlock\<close> consists of:
  \<^verbatim>\<open>x = h + f1(e, f, g) + K + words[i]; y = f2(a, b, c); d += x; h = x + y;\<close>
  (the new \<open>d\<close> and the new \<open>h\<close>). The unrolled code renames the variables from step to step
  instead of moving their contents.
\<close>

definition mix :: "u32 \<Rightarrow> u32 \<Rightarrow> u32 \<Rightarrow> u32 \<Rightarrow> u32 \<Rightarrow> u32 \<Rightarrow> u32 \<Rightarrow> u32 \<Rightarrow> u32 \<Rightarrow> u32 \<Rightarrow> u32 \<times> u32" where
  "mix k w a b c d e f g h = (let x = h + f1 e f g + k + w; y = f2 a b c in (d + x, x + y))"

definition first_round :: "u32 list \<Rightarrow> sha_vars \<Rightarrow> sha_vars" where
  "first_round words v = (let (a, b, c, d, e, f, g, h) = v;
     (d, h) = mix 0x428a2f98 (words ! 0) a b c d e f g h;
     (c, g) = mix 0x71374491 (words ! 1) h a b c d e f g;
     (b, f) = mix 0xb5c0fbcf (words ! 2) g h a b c d e f;
     (a, e) = mix 0xe9b5dba5 (words ! 3) f g h a b c d e;
     (h, d) = mix 0x3956c25b (words ! 4) e f g h a b c d;
     (g, c) = mix 0x59f111f1 (words ! 5) d e f g h a b c;
     (f, b) = mix 0x923f82a4 (words ! 6) c d e f g h a b;
     (e, a) = mix 0xab1c5ed5 (words ! 7) b c d e f g h a
     in (a, b, c, d, e, f, g, h))"

definition second_round :: "u32 list \<Rightarrow> sha_vars \<Rightarrow> sha_vars" where
  "second_round words v = (let (a, b, c, d, e, f, g, h) = v;
     (d, h) = mix 0xd807aa98 (words ! 8) a b c d e f g h;
     (c, g) = mix 0x12835b01 (words ! 9) h a b c d e f g;
     (b, f) = mix 0x243185be (words ! 10) g h a b c d e f;
     (a, e) = mix 0x550c7dc3 (words ! 11) f g h a b c d e;
     (h, d) = mix 0x72be5d74 (words ! 12) e f g h a b c d;
     (g, c) = mix 0x80deb1fe (words ! 13) d e f g h a b c;
     (f, b) = mix 0x9bdc06a7 (words ! 14) c d e f g h a b;
     (e, a) = mix 0xc19bf174 (words ! 15) b c d e f g h a
     in (a, b, c, d, e, f, g, h))"

definition third_round :: "u32 list \<Rightarrow> sha_vars \<Rightarrow> sha_vars" where
  "third_round words v = (let (a, b, c, d, e, f, g, h) = v;
     (d, h) = mix 0xe49b69c1 (words ! 16) a b c d e f g h;
     (c, g) = mix 0xefbe4786 (words ! 17) h a b c d e f g;
     (b, f) = mix 0x0fc19dc6 (words ! 18) g h a b c d e f;
     (a, e) = mix 0x240ca1cc (words ! 19) f g h a b c d e;
     (h, d) = mix 0x2de92c6f (words ! 20) e f g h a b c d;
     (g, c) = mix 0x4a7484aa (words ! 21) d e f g h a b c;
     (f, b) = mix 0x5cb0a9dc (words ! 22) c d e f g h a b;
     (e, a) = mix 0x76f988da (words ! 23) b c d e f g h a
     in (a, b, c, d, e, f, g, h))"

definition fourth_round :: "u32 list \<Rightarrow> sha_vars \<Rightarrow> sha_vars" where
  "fourth_round words v = (let (a, b, c, d, e, f, g, h) = v;
     (d, h) = mix 0x983e5152 (words ! 24) a b c d e f g h;
     (c, g) = mix 0xa831c66d (words ! 25) h a b c d e f g;
     (b, f) = mix 0xb00327c8 (words ! 26) g h a b c d e f;
     (a, e) = mix 0xbf597fc7 (words ! 27) f g h a b c d e;
     (h, d) = mix 0xc6e00bf3 (words ! 28) e f g h a b c d;
     (g, c) = mix 0xd5a79147 (words ! 29) d e f g h a b c;
     (f, b) = mix 0x06ca6351 (words ! 30) c d e f g h a b;
     (e, a) = mix 0x14292967 (words ! 31) b c d e f g h a
     in (a, b, c, d, e, f, g, h))"

definition fifth_round :: "u32 list \<Rightarrow> sha_vars \<Rightarrow> sha_vars" where
  "fifth_round words v = (let (a, b, c, d, e, f, g, h) = v;
     (d, h) = mix 0x27b70a85 (words ! 32) a b c d e f g h;
     (c, g) = mix 0x2e1b2138 (words ! 33) h a b c d e f g;
     (b, f) = mix 0x4d2c6dfc (words ! 34) g h a b c d e f;
     (a, e) = mix 0x53380d13 (words ! 35) f g h a b c d e;
     (h, d) = mix 0x650a7354 (words ! 36) e f g h a b c d;
     (g, c) = mix 0x766a0abb (words ! 37) d e f g h a b c;
     (f, b) = mix 0x81c2c92e (words ! 38) c d e f g h a b;
     (e, a) = mix 0x92722c85 (words ! 39) b c d e f g h a
     in (a, b, c, d, e, f, g, h))"

definition sixth_round :: "u32 list \<Rightarrow> sha_vars \<Rightarrow> sha_vars" where
  "sixth_round words v = (let (a, b, c, d, e, f, g, h) = v;
     (d, h) = mix 0xa2bfe8a1 (words ! 40) a b c d e f g h;
     (c, g) = mix 0xa81a664b (words ! 41) h a b c d e f g;
     (b, f) = mix 0xc24b8b70 (words ! 42) g h a b c d e f;
     (a, e) = mix 0xc76c51a3 (words ! 43) f g h a b c d e;
     (h, d) = mix 0xd192e819 (words ! 44) e f g h a b c d;
     (g, c) = mix 0xd6990624 (words ! 45) d e f g h a b c;
     (f, b) = mix 0xf40e3585 (words ! 46) c d e f g h a b;
     (e, a) = mix 0x106aa070 (words ! 47) b c d e f g h a
     in (a, b, c, d, e, f, g, h))"

definition seventh_round :: "u32 list \<Rightarrow> sha_vars \<Rightarrow> sha_vars" where
  "seventh_round words v = (let (a, b, c, d, e, f, g, h) = v;
     (d, h) = mix 0x19a4c116 (words ! 48) a b c d e f g h;
     (c, g) = mix 0x1e376c08 (words ! 49) h a b c d e f g;
     (b, f) = mix 0x2748774c (words ! 50) g h a b c d e f;
     (a, e) = mix 0x34b0bcb5 (words ! 51) f g h a b c d e;
     (h, d) = mix 0x391c0cb3 (words ! 52) e f g h a b c d;
     (g, c) = mix 0x4ed8aa4a (words ! 53) d e f g h a b c;
     (f, b) = mix 0x5b9cca4f (words ! 54) c d e f g h a b;
     (e, a) = mix 0x682e6ff3 (words ! 55) b c d e f g h a
     in (a, b, c, d, e, f, g, h))"

definition eighth_round :: "u32 list \<Rightarrow> sha_vars \<Rightarrow> sha_vars" where
  "eighth_round words v = (let (a, b, c, d, e, f, g, h) = v;
     (d, h) = mix 0x748f82ee (words ! 56) a b c d e f g h;
     (c, g) = mix 0x78a5636f (words ! 57) h a b c d e f g;
     (b, f) = mix 0x84c87814 (words ! 58) g h a b c d e f;
     (a, e) = mix 0x8cc70208 (words ! 59) f g h a b c d e;
     (h, d) = mix 0x90befffa (words ! 60) e f g h a b c d;
     (g, c) = mix 0xa4506ceb (words ! 61) d e f g h a b c;
     (f, b) = mix 0xbef9a3f7 (words ! 62) c d e f g h a b;
     (e, a) = mix 0xc67178f2 (words ! 63) b c d e f g h a
     in (a, b, c, d, e, f, g, h))"

text \<open>
  \<^verbatim>\<open>words[i]\<close> for the first sixteen words: the four bytes at \<open>4 * i\<close> read as a little-endian
  integer (the cast to \<^verbatim>\<open>uint32_t*\<close> on the supported targets), then byte-swapped.
\<close>

definition load_le :: "u8 list \<Rightarrow> nat \<Rightarrow> u32" where
  "load_le bs i = (ucast (bs ! i) :: u32) OR push_bit 8 (ucast (bs ! (i + 1)))
     OR push_bit 16 (ucast (bs ! (i + 2))) OR push_bit 24 (ucast (bs ! (i + 3)))"

definition input_words :: "u8 list \<Rightarrow> u32 list" where
  "input_words data = map (\<lambda>i. swap (load_le data (4 * i))) [0..<16]"

text \<open>The loops \<^verbatim>\<open>for (; i < n; i++) words[i] = ...\<close>; the list holds the words filled so far.\<close>

definition next_word :: "u32 list \<Rightarrow> nat \<Rightarrow> u32" where
  "next_word words i = words ! (i - 16)
     + (rotate (words ! (i - 15)) 7 XOR rotate (words ! (i - 15)) 18 XOR drop_bit 3 (words ! (i - 15)))
     + words ! (i - 7)
     + (rotate (words ! (i - 2)) 17 XOR rotate (words ! (i - 2)) 19 XOR drop_bit 10 (words ! (i - 2)))"

fun extend_words :: "nat \<Rightarrow> u32 list \<Rightarrow> u32 list" where
  "extend_words 0 words = words"
| "extend_words (Suc n) words = extend_words n (words @ [next_word words (length words)])"

definition sha_vars_of :: "u32 list \<Rightarrow> sha_vars" where
  "sha_vars_of hs = (hs ! 0, hs ! 1, hs ! 2, hs ! 3, hs ! 4, hs ! 5, hs ! 6, hs ! 7)"

definition update_hash :: "u32 list \<Rightarrow> sha_vars \<Rightarrow> u32 list" where
  "update_hash hs v = (case v of (a, b, c, d, e, f, g, h) \<Rightarrow>
     [hs ! 0 + a, hs ! 1 + b, hs ! 2 + c, hs ! 3 + d, hs ! 4 + e, hs ! 5 + f, hs ! 6 + g, hs ! 7 + h])"

definition processBlock :: "sha256 \<Rightarrow> u8 list \<Rightarrow> sha256" where
  "processBlock s data = (let
     v = sha_vars_of (m_hash s);
     words = input_words data;
     v = first_round words v;
     v = second_round words v;
     words = extend_words 8 words;
     v = third_round words v;
     words = extend_words 8 words;
     v = fourth_round words v;
     words = extend_words 8 words;
     v = fifth_round words v;
     words = extend_words 8 words;
     v = sixth_round words v;
     words = extend_words 8 words;
     v = seventh_round words v;
     words = extend_words 8 words;
     v = eighth_round words v
     in s\<lparr>m_hash := update_hash (m_hash s) v\<rparr>)"

text \<open>The three loops of \<^verbatim>\<open>add\<close>; the bytes from \<^verbatim>\<open>current\<close> on are the list argument.\<close>

fun fill_buffer :: "sha256 \<Rightarrow> u8 list \<Rightarrow> sha256 \<times> u8 list" where
  "fill_buffer s [] = (s, [])"
| "fill_buffer s (x # xs) =
     (if m_bufferSize s < BlockSize
      then fill_buffer (s\<lparr>m_buffer := (m_buffer s)[m_bufferSize s := x],
                          m_bufferSize := m_bufferSize s + 1\<rparr>) xs
      else (s, x # xs))"

function process_full_blocks :: "sha256 \<Rightarrow> u8 list \<Rightarrow> sha256 \<times> u8 list" where
  "process_full_blocks s data =
     (if length data \<ge> BlockSize
      then let s = processBlock s (take BlockSize data);
               s = s\<lparr>m_numBytes := m_numBytes s + of_nat BlockSize\<rparr>
           in process_full_blocks s (drop BlockSize data)
      else (s, data))"
  by pat_completeness auto
termination
  by (relation "measure (\<lambda>(s, data). length data)") auto

fun keep_remaining :: "sha256 \<Rightarrow> u8 list \<Rightarrow> sha256" where
  "keep_remaining s [] = s"
| "keep_remaining s (x # xs) =
     keep_remaining (s\<lparr>m_buffer := (m_buffer s)[m_bufferSize s := x],
                       m_bufferSize := m_bufferSize s + 1\<rparr>) xs"

definition add :: "sha256 \<Rightarrow> u8 list \<Rightarrow> sha256" where
  "add s data = (let
     (s, rest) = (if m_bufferSize s > 0 then fill_buffer s data else (s, data));
     s = (if m_bufferSize s = BlockSize
          then let s = processBlock s (m_buffer s)
               in s\<lparr>m_numBytes := m_numBytes s + of_nat BlockSize, m_bufferSize := 0\<rparr>
          else s)
     in if rest = [] then s
        else let (s, rest) = process_full_blocks s rest in keep_remaining s rest)"

text \<open>
  \<^verbatim>\<open>processBuffer\<close>: \<open>paddedLength\<close> in bytes, the bytes written to \<^verbatim>\<open>m_buffer\<close> and to the local
  array \<^verbatim>\<open>extra\<close> (uninitialised where not written; \<open>extra0\<close> is its indeterminate content), and the
  big-endian bit count.
\<close>

definition paddedLength :: "nat \<Rightarrow> nat" where
  "paddedLength bufferSize = (let bits = bufferSize * 8 + 1; lower11Bits = bits mod 512;
     bits = (if lower11Bits \<le> 448 then bits + (448 - lower11Bits)
             else bits + (512 + 448 - lower11Bits))
     in bits div 8)"

definition length_bytes :: "u64 \<Rightarrow> u8 list" where
  "length_bytes msgBits = map (\<lambda>k. ucast (drop_bit k msgBits AND 0xFF)) [56, 48, 40, 32, 24, 16, 8, 0]"

definition write_at :: "nat \<Rightarrow> 'a list \<Rightarrow> 'a list \<Rightarrow> 'a list" where
  "write_at i ys xs = take i xs @ ys @ drop (i + length ys) xs"

definition processBuffer :: "u8 list \<Rightarrow> sha256 \<Rightarrow> sha256" where
  "processBuffer extra0 s = (let
     n = m_bufferSize s;
     padded = paddedLength n;
     buffer = (if n < BlockSize then (m_buffer s)[n := 128] else m_buffer s);
     extra = (if n < BlockSize then extra0 else extra0[0 := 128]);
     buffer = fold (\<lambda>i b. b[i := 0]) [n + 1..<BlockSize] buffer;
     extra = fold (\<lambda>i b. b[i - BlockSize := 0]) [max (n + 1) BlockSize..<padded] extra;
     msgBits = 8 * (m_numBytes s + of_nat n);
     buffer = (if padded < BlockSize then write_at padded (length_bytes msgBits) buffer else buffer);
     extra = (if padded < BlockSize then extra
              else write_at (padded - BlockSize) (length_bytes msgBits) extra);
     s = processBlock (s\<lparr>m_buffer := buffer\<rparr>) buffer
     in if padded > BlockSize then processBlock s extra else s)"

definition hash_bytes :: "u32 \<Rightarrow> u8 list" where
  "hash_bytes w = map (\<lambda>k. ucast (drop_bit k w AND 0xFF)) [24, 16, 8, 0]"

text \<open>\<^verbatim>\<open>getHash(buffer)\<close>: the raw bytes, and the object with its old hash restored.\<close>

definition getHash_raw :: "u8 list \<Rightarrow> sha256 \<Rightarrow> u8 list \<times> sha256" where
  "getHash_raw extra0 s = (let oldHash = m_hash s; s' = processBuffer extra0 s
     in (concat (map hash_bytes (m_hash s')), s'\<lparr>m_hash := oldHash\<rparr>))"

definition dec2hex :: string where
  "dec2hex = ''0123456789abcdef''"

definition hex_of_byte :: "u8 \<Rightarrow> string" where
  "hex_of_byte b = [dec2hex ! unat (drop_bit 4 b AND 15), dec2hex ! unat (b AND 15)]"

definition getHash :: "u8 list \<Rightarrow> sha256 \<Rightarrow> string \<times> sha256" where
  "getHash extra0 s = (let (raw, s') = getHash_raw extra0 s in (concat (map hex_of_byte raw), s'))"

definition bytes_of_string :: "string \<Rightarrow> u8 list" where
  "bytes_of_string s = map (\<lambda>c. of_nat (of_char c)) s"

text \<open>\<^verbatim>\<open>operator()(data, numBytes)\<close> and \<^verbatim>\<open>operator()(text)\<close> on an object with any earlier content.\<close>

definition sha256_call_bytes :: "u8 list \<Rightarrow> sha256 \<Rightarrow> u8 list \<Rightarrow> string" where
  "sha256_call_bytes extra0 s data = fst (getHash extra0 (add (reset s) data))"

definition sha256_call :: "u8 list \<Rightarrow> sha256 \<Rightarrow> string \<Rightarrow> string" where
  "sha256_call extra0 s text = fst (getHash extra0 (add (reset s) (bytes_of_string text)))"

section \<open>Reference definition of SHA-256\<close>

text \<open>The functions, constants and message schedule of FIPS 180-4, on a message given as a whole.\<close>

definition Ch :: "u32 \<Rightarrow> u32 \<Rightarrow> u32 \<Rightarrow> u32" where
  "Ch x y z = (x AND y) XOR (NOT x AND z)"

definition Maj :: "u32 \<Rightarrow> u32 \<Rightarrow> u32 \<Rightarrow> u32" where
  "Maj x y z = (x AND y) XOR (x AND z) XOR (y AND z)"

definition Sigma0 :: "u32 \<Rightarrow> u32" where
  "Sigma0 x = word_rotr 2 x XOR word_rotr 13 x XOR word_rotr 22 x"

definition Sigma1 :: "u32 \<Rightarrow> u32" where
  "Sigma1 x = word_rotr 6 x XOR word_rotr 11 x XOR word_rotr 25 x"

definition sigma0 :: "u32 \<Rightarrow> u32" where
  "sigma0 x = word_rotr 7 x XOR word_rotr 18 x XOR drop_bit 3 x"

definition sigma1 :: "u32 \<Rightarrow> u32" where
  "sigma1 x = word_rotr 17 x XOR word_rotr 19 x XOR drop_bit 10 x"

definition sha256_K :: "u32 list" where
  "sha256_K = concat [
     [0x428a2f98, 0x71374491, 0xb5c0fbcf, 0xe9b5dba5, 0x3956c25b, 0x59f111f1, 0x923f82a4, 0xab1c5ed5],
     [0xd807aa98, 0x12835b01, 0x243185be, 0x550c7dc3, 0x72be5d74, 0x80deb1fe, 0x9bdc06a7, 0xc19bf174],
     [0xe49b69c1, 0xefbe4786, 0x0fc19dc6, 0x240ca1cc, 0x2de92c6f, 0x4a7484aa, 0x5cb0a9dc, 0x76f988da],
     [0x983e5152, 0xa831c66d, 0xb00327c8, 0xbf597fc7, 0xc6e00bf3, 0xd5a79147, 0x06ca6351, 0x14292967],
     [0x27b70a85, 0x2e1b2138, 0x4d2c6dfc, 0x53380d13, 0x650a7354, 0x766a0abb, 0x81c2c92e, 0x92722c85],
     [0xa2bfe8a1, 0xa81a664b, 0xc24b8b70, 0xc76c51a3, 0xd192e819, 0xd6990624, 0xf40e3585, 0x106aa070],
     [0x19a4c116, 0x1e376c08, 0x2748774c, 0x34b0bcb5, 0x391c0cb3, 0x4ed8aa4a, 0x5b9cca4f, 0x682e6ff3],
     [0x748f82ee, 0x78a5636f, 0x84c87814, 0x8cc70208, 0x90befffa, 0xa4506ceb, 0xbef9a3f7, 0xc67178f2]]"

definition sha256_IV :: "u32 list" where
  "sha256_IV = [0x6a09e667, 0xbb67ae85, 0x3c6ef372, 0xa54ff53a,
                0x510e527f, 0x9b05688c, 0x1f83d9ab, 0x5be0cd19]"

definition big_endian32 :: "u8 list \<Rightarrow> u32" where
  "big_endian32 bs = foldl (\<lambda>w b. push_bit 8 w OR ucast b) 0 bs"

fun schedule :: "u8 list \<Rightarrow> nat \<Rightarrow> u32" where
  "schedule M t = (if t < 16 then big_endian32 (take 4 (drop (4 * t) M))
     else sigma1 (schedule M (t - 2)) + schedule M (t - 7) + sigma0 (schedule M (t - 15))
          + schedule M (t - 16))"

definition sha_step :: "u32 \<Rightarrow> u32 \<Rightarrow> sha_vars \<Rightarrow> sha_vars" where
  "sha_step k w v = (case v of (a, b, c, d, e, f, g, h) \<Rightarrow>
     let T1 = h + Sigma1 e + Ch e f g + k + w; T2 = Sigma0 a + Maj a b c
     in (T1 + T2, a, b, c, d + T1, e, f, g))"

definition sha_rounds :: "(nat \<Rightarrow> u32) \<Rightarrow> nat list \<Rightarrow> sha_vars \<Rightarrow> sha_vars" where
  "sha_rounds W ts v = fold (\<lambda>t. sha_step (sha256_K ! t) (W t)) ts v"

definition compress :: "u32 list \<Rightarrow> u8 list \<Rightarrow> u32 list" where
  "compress hs M = update_hash hs (sha_rounds (schedule M) [0..<64] (sha_vars_of hs))"

fun blocks64 :: "'a list \<Rightarrow> 'a list list" where
  "blocks64 xs = (if length xs < 64 then [] else take 64 xs # blocks64 (drop 64 xs))"

definition pad :: "u8 list \<Rightarrow> u8 list" where
  "pad msg = msg @ [128] @ replicate ((119 - length msg mod 64) mod 64) 0
     @ length_bytes (word_of_nat (8 * length msg))"

definition sha256_ref :: "u8 list \<Rightarrow> u8 list" where
  "sha256_ref msg = concat (map hash_bytes (foldl compress sha256_IV (blocks64 (pad msg))))"

declare schedule.simps [simp del] blocks64.simps [simp del]


section \<open>The unrolled compression function\<close>

lemma rotate_eq: 
  assumes "0 < c" "c < 32"
  shows "rotate a c = word_rotr c a"
proof (rule bit_word_eqI)
  fix n assume n: "n < LENGTH(32)"
  show "bit (rotate a c) n = bit (word_rotr c a) n"
  proof (cases "n + c < 32")
    case True
    then show ?thesis using assms n by (auto simp: rotate_def bit_simps ac_simps)
  next
    case False
    moreover have "\<not> bit a (c + n)"
      using False by (auto dest: bit_imp_le_length)
    moreover have "(n + c) mod 32 = n + c - 32"
      using False assms n by (simp add: le_mod_geq)
    ultimately show ?thesis using assms n by (auto simp: rotate_def bit_simps)
  qed
qed

lemma Maj_alt: "((a OR b) AND c) OR (a AND b) = Maj a b c"
  by (rule bit_word_eqI) (auto simp: Maj_def bit_simps)

lemma mix_sha_step:
  "sha_step k w (a, b, c, d, e, f, g, h) =
     (snd (mix k w a b c d e f g h), a, b, c, fst (mix k w a b c d e f g h), e, f, g)"
  by (simp add: sha_step_def mix_def f1_def f2_def Let_def rotate_eq Maj_alt Sigma0_def Sigma1_def
      Ch_def algebra_simps)

lemma unrolled_eight:
  "(let (d, h) = mix k0 w0 a b c d e f g h;
        (c, g) = mix k1 w1 h a b c d e f g;
        (b, f) = mix k2 w2 g h a b c d e f;
        (a, e) = mix k3 w3 f g h a b c d e;
        (h, d) = mix k4 w4 e f g h a b c d;
        (g, c) = mix k5 w5 d e f g h a b c;
        (f, b) = mix k6 w6 c d e f g h a b;
        (e, a) = mix k7 w7 b c d e f g h a
    in (a, b, c, d, e, f, g, h))
   = sha_step k7 w7 (sha_step k6 w6 (sha_step k5 w5 (sha_step k4 w4
      (sha_step k3 w3 (sha_step k2 w2 (sha_step k1 w1 (sha_step k0 w0 (a, b, c, d, e, f, g, h))))))))"
  by (simp add: mix_sha_step Let_def split: prod.splits)

lemmas round_defs = first_round_def second_round_def third_round_def fourth_round_def
  fifth_round_def sixth_round_def seventh_round_def eighth_round_def

lemma sha_vars_cases [cases type]:
  obtains a b c d e f g h where "(v :: sha_vars) = (a, b, c, d, e, f, g, h)"
  by (cases v) auto

lemma first_round_rolled: "first_round ws v = sha_rounds (\<lambda>t. ws ! t) [0..<8] v"
proof -
  have upt: "[0..<8] = [0, 1, 2, 3, 4, 5, 6, 7]"
    by code_simp
  show ?thesis
    by (cases v rule: sha_vars_cases,
        simp only: first_round_def Let_def [of "(_, _, _, _, _, _, _, _)"] prod.case unrolled_eight upt)
      (simp add: sha_rounds_def sha256_K_def)
qed

lemma second_round_rolled: "second_round ws v = sha_rounds (\<lambda>t. ws ! t) [8..<16] v"
  by (cases v rule: sha_vars_cases,
      simp only: second_round_def Let_def [of "(_, _, _, _, _, _, _, _)"] prod.case unrolled_eight,
      simp add: upt_rec sha_rounds_def sha256_K_def)

lemma third_round_rolled: "third_round ws v = sha_rounds (\<lambda>t. ws ! t) [16..<24] v"
  by (cases v rule: sha_vars_cases,
      simp only: third_round_def Let_def [of "(_, _, _, _, _, _, _, _)"] prod.case unrolled_eight,
      simp add: upt_rec sha_rounds_def sha256_K_def)

lemma fourth_round_rolled: "fourth_round ws v = sha_rounds (\<lambda>t. ws ! t) [24..<32] v"
  by (cases v rule: sha_vars_cases,
      simp only: fourth_round_def Let_def [of "(_, _, _, _, _, _, _, _)"] prod.case unrolled_eight,
      simp add: upt_rec sha_rounds_def sha256_K_def)

lemma fifth_round_rolled: "fifth_round ws v = sha_rounds (\<lambda>t. ws ! t) [32..<40] v"
  by (cases v rule: sha_vars_cases,
      simp only: fifth_round_def Let_def [of "(_, _, _, _, _, _, _, _)"] prod.case unrolled_eight,
      simp add: upt_rec sha_rounds_def sha256_K_def)

lemma sixth_round_rolled: "sixth_round ws v = sha_rounds (\<lambda>t. ws ! t) [40..<48] v"
  by (cases v rule: sha_vars_cases,
      simp only: sixth_round_def Let_def [of "(_, _, _, _, _, _, _, _)"] prod.case unrolled_eight,
      simp add: upt_rec sha_rounds_def sha256_K_def)

lemma seventh_round_rolled: "seventh_round ws v = sha_rounds (\<lambda>t. ws ! t) [48..<56] v"
  by (cases v rule: sha_vars_cases,
      simp only: seventh_round_def Let_def [of "(_, _, _, _, _, _, _, _)"] prod.case unrolled_eight,
      simp add: upt_rec sha_rounds_def sha256_K_def)

lemma eighth_round_rolled: "eighth_round ws v = sha_rounds (\<lambda>t. ws ! t) [56..<64] v"
  by (cases v rule: sha_vars_cases,
      simp only: eighth_round_def Let_def [of "(_, _, _, _, _, _, _, _)"] prod.case unrolled_eight,
      simp add: upt_rec sha_rounds_def sha256_K_def)

lemmas round_rolled = first_round_rolled second_round_rolled third_round_rolled
  fourth_round_rolled fifth_round_rolled sixth_round_rolled seventh_round_rolled eighth_round_rolled

lemma length_extend_words [simp]: "length (extend_words n ws) = length ws + n"
  by (induction n arbitrary: ws) auto

lemma nth_extend_words_less: "i < length ws \<Longrightarrow> extend_words n ws ! i = ws ! i"
  by (induction n arbitrary: ws) (auto simp: nth_append)

lemma extend_words_nth:
  "i < n \<Longrightarrow> extend_words n ws ! (length ws + i) = next_word (extend_words i ws) (length ws + i)"
proof (induction n arbitrary: ws i)
  case (Suc n)
  show ?case
  proof (cases i)
    case 0
    then show ?thesis by (simp add: nth_extend_words_less nth_append)
  next
    case (Suc j)
    with Suc.IH [of j "ws @ [next_word ws (length ws)]"] Suc.prems show ?thesis by simp
  qed
qed simp

lemma sha_rounds_append: "sha_rounds W (xs @ ys) v = sha_rounds W ys (sha_rounds W xs v)"
  by (simp add: sha_rounds_def)

lemma sha_rounds_cong: "(\<And>t. t \<in> set ts \<Longrightarrow> W t = W' t) \<Longrightarrow> sha_rounds W ts v = sha_rounds W' ts v"
  unfolding sha_rounds_def by (rule fold_cong) auto

definition schedule_upto :: "u8 list \<Rightarrow> u32 list \<Rightarrow> bool" where
  "schedule_upto data ws \<longleftrightarrow> 16 \<le> length ws \<and> (\<forall>t < length ws. ws ! t = schedule data t)"

lemma next_word_schedule:
  assumes "schedule_upto data ws"
  shows "next_word ws (length ws) = schedule data (length ws)"
  using assms by (subst schedule.simps) 
    (auto simp: next_word_def schedule_upto_def rotate_eq sigma0_def sigma1_def algebra_simps)

lemma schedule_upto_extend: "schedule_upto data ws \<Longrightarrow> schedule_upto data (extend_words n ws)"
proof (induction n arbitrary: ws)
  case (Suc n)
  have "schedule_upto data (ws @ [next_word ws (length ws)])"
    using Suc.prems next_word_schedule [OF Suc.prems]
    by (auto simp: schedule_upto_def nth_append less_Suc_eq)
  then show ?case using Suc.IH by simp
qed simp

lemma big_endian_load:
  assumes "i + 3 < length data"
  shows "swap (load_le data i) = big_endian32 (take 4 (drop i data))"
proof -
  have t: "take 4 (drop i data) = [data ! i, data ! (i + 1), data ! (i + 2), data ! (i + 3)]"
    using assms by (simp add: take_Suc_conv_app_nth numeral_eq_Suc)
  have masks: "(0xFF00 :: u32) = push_bit 8 (mask 8)" "(0xFF0000 :: u32) = push_bit 16 (mask 8)"
    by (simp_all add: mask_eq_exp_minus_1)
  have high: "8 \<le> n \<Longrightarrow> \<not> bit b n" for b :: u8 and n
    by (auto dest: bit_imp_le_length)
  show ?thesis
    unfolding t
  proof (rule bit_word_eqI)
    fix n assume "n < LENGTH(32)"
    then consider "n < 8" | "8 \<le> n" "n < 16" | "16 \<le> n" "n < 24" | "24 \<le> n" "n < 32"
      by fastforce
    then show "bit (swap (load_le data i)) n =
      bit (big_endian32 [data ! i, data ! (i + 1), data ! (i + 2), data ! (i + 3)]) n"
      by cases (auto simp: big_endian32_def swap_def load_le_def masks bit_simps high)
  qed
qed

lemma schedule_upto_input: "length data = 64 \<Longrightarrow> schedule_upto data (input_words data)"
  by (auto simp: schedule_upto_def input_words_def schedule.simps big_endian_load)

lemma schedule_nth: "schedule_upto data ws \<Longrightarrow> t < length ws \<Longrightarrow> ws ! t = schedule data t"
  by (simp add: schedule_upto_def)

lemma rounds_schedule:
  assumes "schedule_upto data ws" and "n \<le> length ws"
  shows "sha_rounds (\<lambda>t. ws ! t) [m..<n] v = sha_rounds (schedule data) [m..<n] v"
  using assms by (intro sha_rounds_cong) (auto simp: schedule_upto_def)

theorem processBlock_compress:
  assumes "length data = 64"
  shows "processBlock s data = s\<lparr>m_hash := compress (m_hash s) data\<rparr>"
proof -
  have upt: "[0..<64] = [0..<8] @ [8..<16] @ [16..<24] @ [24..<32] @ [32..<40] @ [40..<48]
     @ [48..<56] @ [56..<64]"
    by (simp add: upt_rec)
  have s: "schedule_upto data (input_words data)" and l: "length (input_words data) = 16"
    using assms by (simp_all add: schedule_upto_input) (simp add: input_words_def)
  show ?thesis
    using s l
    by (simp add: processBlock_def Let_def round_rolled rounds_schedule [of data] schedule_upto_extend 
         compress_def upt sha_rounds_append length_extend_words del: upt_rec_numeral extend_words.simps)
qed

section \<open>The streaming interface\<close>

declare process_full_blocks.simps [simp del]

lemma length_length_bytes [simp]: "length (length_bytes w) = 8"
  by (simp add: length_bytes_def)

lemma blocks64_Nil [simp]: "blocks64 [] = []"
  by (simp add: blocks64.simps)

lemma blocks64_short: "length xs < 64 \<Longrightarrow> blocks64 xs = []"
  by (simp add: blocks64.simps)

lemma blocks64_block: "length xs = 64 \<Longrightarrow> blocks64 (xs @ ys) = xs # blocks64 ys"
  by (subst blocks64.simps) simp

lemma blocks64_append:
  "length xs = 64 * n \<Longrightarrow> blocks64 (xs @ ys) = blocks64 xs @ blocks64 ys"
proof (induction n arbitrary: xs)
  case (Suc n)
  have l: "length (take 64 xs) = 64" and "length (drop 64 xs) = 64 * n"
    using Suc.prems by simp_all
  have "blocks64 (take 64 xs @ drop 64 xs @ ys) = take 64 xs # blocks64 (drop 64 xs) @ blocks64 ys"
    using l Suc.IH [of "drop 64 xs"] \<open>length (drop 64 xs) = 64 * n\<close> by (simp only: blocks64_block)
  moreover have "blocks64 (take 64 xs @ drop 64 xs) = take 64 xs # blocks64 (drop 64 xs)"
    using l by (simp only: blocks64_block)
  ultimately show ?case by (metis append_Cons append_assoc append_take_drop_id)
qed simp

text \<open>
  The object represents the bytes added since the last reset: the complete 64-byte blocks are
  compressed into \<open>m_hash\<close> and counted in \<open>m_numBytes\<close>, the rest sits in the buffer.
\<close>

definition sha_rep :: "sha256 \<Rightarrow> u8 list \<Rightarrow> bool" where
  "sha_rep s msg \<longleftrightarrow> (\<exists>full rest n. msg = full @ rest \<and> length full = 64 * n \<and> length rest < 64
     \<and> m_bufferSize s = length rest \<and> length (m_buffer s) = 64
     \<and> take (length rest) (m_buffer s) = rest \<and> m_numBytes s = of_nat (64 * n)
     \<and> m_hash s = foldl compress sha256_IV (blocks64 full))"

lemma sha_repI:
  assumes "msg = full @ rest" and "length full = 64 * n" and "length rest < 64"
    and "m_bufferSize s = length rest" and "length (m_buffer s) = 64"
    and "take (length rest) (m_buffer s) = rest" and "m_numBytes s = of_nat (64 * n)"
    and "m_hash s = foldl compress sha256_IV (blocks64 full)"
  shows "sha_rep s msg"
  using assms unfolding sha_rep_def by blast

lemma sha_rep_reset: "length (m_buffer s) = 64 \<Longrightarrow> sha_rep (reset s) []"
  by (simp add: sha_rep_def reset_def sha256_IV_def)

lemma fill_buffer_eq:
  assumes "m_bufferSize s \<le> 64" and "length (m_buffer s) = 64"
  shows "fill_buffer s data = (let k = m_bufferSize s; n = min (64 - k) (length data) in
     (s\<lparr>m_buffer := take k (m_buffer s) @ take n data @ drop (k + n) (m_buffer s),
        m_bufferSize := k + n\<rparr>, drop n data))"
  using assms
proof (induction data arbitrary: s)
  case (Cons x xs)
  show ?case
  proof (cases "m_bufferSize s < 64")
    case True
    then obtain m where "64 - m_bufferSize s = Suc m" and "64 - Suc (m_bufferSize s) = m"
      by (metis Suc_diff_Suc)
    with True Cons show ?thesis
      by (simp add: Let_def upd_conv_take_nth_drop ac_simps)
  next
    case False
    with Cons.prems show ?thesis by (simp add: Let_def)
  qed
qed (simp add: Let_def)

lemma keep_remaining_eq:
  assumes "m_bufferSize s + length data \<le> 64" and "length (m_buffer s) = 64"
  shows "keep_remaining s data = s\<lparr>m_buffer := take (m_bufferSize s) (m_buffer s) @ data
            @ drop (m_bufferSize s + length data) (m_buffer s),
         m_bufferSize := m_bufferSize s + length data\<rparr>"
  using assms
proof (induction data arbitrary: s)
  case (Cons x xs)
  then show ?case
    by (simp add: upd_conv_take_nth_drop ac_simps)
qed simp

lemma process_full_blocks_eq:
  "process_full_blocks s data = (let m = length data div 64 in
     (s\<lparr>m_hash := foldl compress (m_hash s) (blocks64 data),
        m_numBytes := m_numBytes s + of_nat (64 * m)\<rparr>, drop (64 * m) data))"
proof (induction s data rule: process_full_blocks.induct)
  case (1 s data)
  show ?case
  proof (cases "length data \<ge> 64")
    case True
    have div: "length data div 64 = Suc ((length data - 64) div 64)"
      using True by (simp add: le_div_geq)
    have blk: "blocks64 data = take 64 data # blocks64 (drop 64 data)"
      using True by (subst blocks64.simps) simp
    have "process_full_blocks s data = process_full_blocks
      (s\<lparr>m_hash := compress (m_hash s) (take 64 data), m_numBytes := m_numBytes s + 64\<rparr>) (drop 64 data)"
      using True by (subst process_full_blocks.simps) (simp add: processBlock_compress Let_def)
    also have "\<dots> = (let m = length (drop 64 data) div 64 in
     (s\<lparr>m_hash := foldl compress (compress (m_hash s) (take 64 data)) (blocks64 (drop 64 data)),
        m_numBytes := m_numBytes s + 64 + of_nat (64 * m)\<rparr>,
      drop (64 * m) (drop 64 data)))"
      using 1 [OF True refl refl] True by (simp add: processBlock_compress Let_def)
    finally show ?thesis
      using True by (simp add: Let_def div blk algebra_simps)
  next
    case False
    then show ?thesis
      by (simp add: process_full_blocks.simps [of s data] blocks64_short Let_def)
  qed
qed

lemma foldl_compress_append:
  "length full = 64 * n \<Longrightarrow> foldl compress hs (blocks64 (full @ ys)) =
     foldl compress (foldl compress hs (blocks64 full)) (blocks64 ys)"
  by (simp add: blocks64_append)

text \<open>The loop tail of \<open>add\<close>, started with an empty buffer.\<close>

lemma sha_rep_tail:
  assumes "length full = 64 * n" and "m_bufferSize s = 0" and "length (m_buffer s) = 64"
    and "m_numBytes s = of_nat (64 * n)" and "m_hash s = foldl compress sha256_IV (blocks64 full)"
  shows "sha_rep (let (s, rest) = process_full_blocks s data in keep_remaining s rest) (full @ data)"
proof -
  define m where "m = length data div 64"
  define rest where "rest = drop (64 * m) data"
  have split: "data = take (64 * m) data @ rest" and "length (take (64 * m) data) = 64 * m"
    and "length rest < 64"
    by (simp_all add: rest_def m_def min_absorb2 minus_mult_div_eq_mod)
  have "blocks64 data = blocks64 (take (64 * m) data)"
    using blocks64_append [of "take (64 * m) data" m rest] \<open>length rest < 64\<close> split
      \<open>length (take (64 * m) data) = 64 * m\<close> by (metis append_Nil2 blocks64_short)
  then have "foldl compress sha256_IV (blocks64 (full @ take (64 * m) data))
      = foldl compress (m_hash s) (blocks64 data)"
    using assms by (simp add: blocks64_append)
  moreover have "(let (s, rest) = process_full_blocks s data in keep_remaining s rest) =
      s\<lparr>m_hash := foldl compress (m_hash s) (blocks64 data), m_numBytes := of_nat (64 * n) + of_nat (64 * m),
        m_buffer := rest @ drop (length rest) (m_buffer s), m_bufferSize := length rest\<rparr>"
    using assms \<open>length rest < 64\<close>
    by (simp add: process_full_blocks_eq Let_def keep_remaining_eq m_def [symmetric] rest_def [symmetric])
  ultimately show ?thesis
    using assms split \<open>length rest < 64\<close> \<open>length (take (64 * m) data) = 64 * m\<close>
    by (intro sha_repI [of _ "full @ take (64 * m) data" rest "n + m"]) simp_all
qed

theorem sha_rep_add: "sha_rep s msg \<Longrightarrow> sha_rep (add s data) (msg @ data)"
proof -
  assume "sha_rep s msg"
  then obtain full rest n where r: "msg = full @ rest" "length full = 64 * n" "length rest < 64"
      "m_bufferSize s = length rest" "length (m_buffer s) = 64" "take (length rest) (m_buffer s) = rest"
      "m_numBytes s = of_nat (64 * n)" "m_hash s = foldl compress sha256_IV (blocks64 full)"
    by (auto simp: sha_rep_def)
  show ?thesis
  proof (cases "rest = []")
    case True
    show ?thesis
    proof (cases "data = []")
      case True
      then show ?thesis using \<open>sha_rep s msg\<close> \<open>rest = []\<close> r by (simp add: add_def)
    next
      case False
      then show ?thesis
        using True r sha_rep_tail [of full n s data] by (simp add: add_def)
    qed
  next
    case False
    define k where "k = min (64 - length rest) (length data)"
    let ?buf = "rest @ take k data @ drop (length rest + k) (m_buffer s)"
    let ?s = "s\<lparr>m_buffer := ?buf, m_bufferSize := length rest + k\<rparr>"
    have fill: "fill_buffer s data = (?s, drop k data)"
      using r by (simp add: fill_buffer_eq Let_def k_def)
    have lb: "length ?buf = 64"
      using r by (simp add: k_def)
    show ?thesis
    proof (cases "length rest + k = 64")
      case True
      let ?t = "?s\<lparr>m_hash := compress (m_hash s) (rest @ take k data), m_numBytes := m_numBytes s + 64, m_bufferSize := 0\<rparr>"
      have blk: "length (rest @ take k data) = 64"
        using True by (simp add: k_def)
      have "add s data = (if drop k data = [] then ?t
         else let (s, rest) = process_full_blocks ?t (drop k data) in keep_remaining s rest)"
        using False True r fill blk by (simp add: add_def processBlock_compress Let_def)
      moreover have "sha_rep (let (s, rest) = process_full_blocks ?t (drop k data) in keep_remaining s rest)
         ((full @ rest @ take k data) @ drop k data)"
        using r True blk lb by (intro sha_rep_tail [of _ "Suc n"]) (simp_all add: blocks64_append
          blocks64_block [of "rest @ take k data" "[]", simplified] del: append_assoc)
      moreover have "sha_rep ?t (full @ rest @ take k data)"
        using r True blk lb by (intro sha_repI [of _ "full @ rest @ take k data" "[]" "Suc n"])
          (simp_all add: blocks64_append blocks64_block [of "rest @ take k data" "[]", simplified])
      ultimately show ?thesis
        using r by (cases "drop k data = []") (simp_all only: if_True if_False append_assoc
          append_take_drop_id, simp)
    next
      case F: False
      then have "k = length data" "length rest + k < 64"
        using r by (auto simp: k_def min_def split: if_splits)
      then have "add s data = ?s"
        using False fill F by (simp add: add_def r)
      then show ?thesis
        using r lb \<open>k = length data\<close> \<open>length rest + k < 64\<close> unfolding sha_rep_def
        by (intro exI [of _ full] exI [of _ "rest @ data"] exI [of _ n]) simp
    qed
  qed
qed

section \<open>Padding and the digest\<close>

lemma fold_update_range:
  "a \<le> b \<Longrightarrow> b \<le> length xs \<Longrightarrow>
   fold (\<lambda>i ys. ys[i := z]) [a..<b] xs = take a xs @ replicate (b - a) z @ drop b xs"
proof (induction b)
  case (Suc b)
  show ?case
  proof (cases "a = Suc b")
    case False
    with Suc have "fold (\<lambda>i ys. ys[i := z]) [a..<b] xs = take a xs @ replicate (b - a) z @ drop b xs"
      by simp
    moreover have "drop b xs = xs ! b # drop (Suc b) xs"
      using Suc.prems by (simp add: Cons_nth_drop_Suc)
    moreover have "replicate (Suc b - a) z = replicate (b - a) z @ [z]"
      using False Suc.prems by (simp add: Suc_diff_le replicate_append_same)
    ultimately show ?thesis
      using False Suc.prems by (simp add: list_update_append)
  qed simp
qed simp

lemma fold_update_shifted:
  "fold (\<lambda>i ys. ys[i - k := z]) [k..<k + n] xs = fold (\<lambda>i ys. ys[i := z]) [0..<n] xs"
proof -
  have "[k..<k + n] = map (\<lambda>i. i + k) [0..<n]"
    by (simp add: map_add_upt add.commute)
  then show ?thesis by (simp add: fold_map comp_def)
qed

lemma paddedLength_cases:
  assumes "n < 64"
  shows "paddedLength n = (if n \<le> 55 then 56 else 120)"
  using assms by (auto simp: paddedLength_def Let_def)

text \<open>The buffer after the terminating bit and the zero bytes are written.\<close>

lemma padded_buffer:
  assumes "length rest < 64" and "length buf = 64" and "take (length rest) buf = rest"
  shows "fold (\<lambda>i b. b[i := 0]) [length rest + 1..<64] (buf[length rest := 128])
     = rest @ 128 # replicate (63 - length rest) 0"
  using assms by (subst fold_update_range) (simp_all add: upd_conv_take_nth_drop)

lemma processBuffer_hash:
  assumes rep: "sha_rep s msg" and extra: "length extra0 = 64"
  shows "m_hash (processBuffer extra0 s) = foldl compress sha256_IV (blocks64 (pad msg))"
proof -
  from rep obtain full rest n where r: "msg = full @ rest" "length full = 64 * n" "length rest < 64"
      "m_bufferSize s = length rest" "length (m_buffer s) = 64" "take (length rest) (m_buffer s) = rest"
      "m_numBytes s = of_nat (64 * n)" "m_hash s = foldl compress sha256_IV (blocks64 full)"
    by (auto simp: sha_rep_def)
  define L where "L = length_bytes (word_of_nat (8 * length msg))"
  have bits: "length_bytes (512 * word_of_nat n + 8 * word_of_nat (length rest)) = L"
    using r by (simp add: L_def algebra_simps)
  have len: "length msg mod 64 = length rest"
    using r by simp
  show ?thesis
  proof (cases "length rest \<le> 55")
    case True
    let ?blk = "rest @ 128 # replicate (55 - length rest) 0 @ L"
    have "pad msg = full @ ?blk"
      using True r len mod_add_self1 [of 64 "55 - length rest"] by (simp add: pad_def L_def)
    moreover have "length ?blk = 64"
      using True by (simp add: L_def)
    moreover have "write_at 56 L (rest @ 128 # replicate (63 - length rest) 0) = ?blk"
      using True by (simp add: write_at_def L_def take_Cons')
    ultimately have "m_hash (processBuffer extra0 s) = compress (m_hash s) ?blk"
      using True r padded_buffer [of rest "m_buffer s"]
      by (simp add: processBuffer_def Let_def paddedLength_cases bits processBlock_compress)
    with \<open>pad msg = full @ ?blk\<close> \<open>length ?blk = 64\<close> show ?thesis
      using r by (simp add: blocks64_append blocks64_block [of ?blk "[]", simplified])
  next
    case False
    let ?blk = "rest @ 128 # replicate (63 - length rest) 0" and ?ext = "replicate 56 0 @ L"
    have "pad msg = full @ ?blk @ ?ext"
      using False r len by (simp add: pad_def L_def replicate_add [symmetric])
    moreover have "length ?blk = 64" "length ?ext = 64"
      using False r by (simp_all add: L_def)
    moreover have "write_at 56 L (fold (\<lambda>i b. b[i - 64 := 0]) [64..<120] extra0) = ?ext"
      using extra fold_update_shifted [of 64 0 56 extra0]
      by (simp add: fold_update_range write_at_def L_def)
    ultimately have "m_hash (processBuffer extra0 s) = compress (compress (m_hash s) ?blk) ?ext"
      using False r padded_buffer [of rest "m_buffer s"]
      by (simp add: processBuffer_def Let_def paddedLength_cases bits processBlock_compress max_def)
    moreover have "blocks64 (?blk @ ?ext) = [?blk, ?ext]"
      using blocks64_block [OF \<open>length ?blk = 64\<close>, of ?ext] blocks64_block [OF \<open>length ?ext = 64\<close>, of "[]"]
      by simp
    ultimately show ?thesis
      using r \<open>pad msg = full @ ?blk @ ?ext\<close> by (simp add: blocks64_append)
  qed
qed

lemma take_fold_update:
  "k \<le> a \<Longrightarrow> take k (fold (\<lambda>i ys. ys[i := z]) [a..<b] xs) = take k xs"
  by (induction b arbitrary: xs) auto

lemma m_buffer_processBlock [simp]:
  "m_buffer (processBlock s d) = m_buffer s" "m_bufferSize (processBlock s d) = m_bufferSize s"
  "m_numBytes (processBlock s d) = m_numBytes s"
  by (simp_all add: processBlock_def Let_def)

lemma getHash_state_rep:
  assumes "sha_rep s msg"
  shows "sha_rep (snd (getHash_raw extra0 s)) msg"
proof -
  from assms obtain full rest n where r: "msg = full @ rest" "length full = 64 * n" "length rest < 64"
      "m_bufferSize s = length rest" "length (m_buffer s) = 64" "take (length rest) (m_buffer s) = rest"
      "m_numBytes s = of_nat (64 * n)" "m_hash s = foldl compress sha256_IV (blocks64 full)"
    by (auto simp: sha_rep_def)
  let ?L = "length_bytes (8 * (m_numBytes s + of_nat (length rest)))"
  let ?b = "rest @ 128 # replicate (63 - length rest) 0"
  have buf: "fold (\<lambda>i b. b[i := 0]) [length rest + 1..<64] ((m_buffer s)[length rest := 128]) = ?b"
    using r by (intro padded_buffer) auto
  have "m_buffer (snd (getHash_raw extra0 s)) = (if length rest \<le> 55 then write_at 56 ?L ?b else ?b)"
    using r buf by (simp add: getHash_raw_def processBuffer_def Let_def paddedLength_cases)
  then show ?thesis
    using r by (intro sha_repI [of _ full rest n])
      (auto simp: getHash_raw_def processBuffer_def Let_def paddedLength_cases write_at_def take_Cons')
qed

theorem getHash_raw_ref:
  assumes "sha_rep s msg" and "length extra0 = 64"
  shows "fst (getHash_raw extra0 s) = sha256_ref msg"
  using processBuffer_hash [OF assms] by (simp add: getHash_raw_def sha256_ref_def Let_def)

lemma getHash_ref:
  assumes "sha_rep s msg" and "length extra0 = 64"
  shows "fst (getHash extra0 s) = concat (map hex_of_byte (sha256_ref msg))"
  using getHash_raw_ref [OF assms] by (simp add: getHash_def split_def)

lemma sha256_call_ref:
  assumes "length (m_buffer s) = 64" and "length extra0 = 64"
  shows "sha256_call extra0 s text = concat (map hex_of_byte (sha256_ref (bytes_of_string text)))"
  unfolding sha256_call_def
  using sha_rep_add [OF sha_rep_reset [OF assms(1)], of "bytes_of_string text"] assms(2)
  by (simp add: getHash_ref)

lemma length_compress [simp]: "length (compress hs M) = 8"
  by (simp add: compress_def update_hash_def split: prod.splits)

lemma length_foldl_compress: "length hs = 8 \<Longrightarrow> length (foldl compress hs Ms) = 8"
  by (induction Ms arbitrary: hs) simp_all

lemma length_hash_bytes [simp]: "length (hash_bytes w) = 4"
  by (simp add: hash_bytes_def)

lemma length_sha256_ref: "length (sha256_ref msg) = 32"
proof -
  have "length (concat (map hash_bytes hs)) = 4 * length hs" for hs
    by (induction hs) simp_all
  then show ?thesis
    using length_foldl_compress [of sha256_IV] by (simp add: sha256_ref_def sha256_IV_def)
qed

lemma hex_of_byte_chars: "set (hex_of_byte b) \<subseteq> set dec2hex"
proof -
  have "unat (x AND 15) < length dec2hex" for x :: u8
    using word_and_le1 [of x 15] by (simp add: dec2hex_def word_le_nat_alt)
  then show ?thesis by (simp add: hex_of_byte_def)
qed

lemma length_concat_hex: "length (concat (map hex_of_byte bs)) = 2 * length bs"
  by (induction bs) (simp_all add: hex_of_byte_def)

lemma dec2hex_inj: "i < 16 \<Longrightarrow> j < 16 \<Longrightarrow> dec2hex ! i = dec2hex ! j \<longleftrightarrow> i = j"
  by (rule nth_eq_iff_index_eq) (simp_all add: dec2hex_def)

lemma hex_of_byte_inj: "hex_of_byte a = hex_of_byte b \<longleftrightarrow> a = b"
proof
  have lt: "unat (x AND 15) < 16" for x :: u8
    using word_and_le1 [of x 15] by (simp add: word_le_nat_alt)
  have m: "(15 :: u8) = mask 4"
    by (simp add: mask_eq_exp_minus_1)
  assume "hex_of_byte a = hex_of_byte b"
  then have hi: "drop_bit 4 a AND 15 = drop_bit 4 b AND 15" and lo: "a AND 15 = b AND 15"
    using lt by (simp_all add: hex_of_byte_def dec2hex_inj word_unat_eq_iff)
  show "a = b"
  proof (rule bit_word_eqI)
    fix n assume "n < LENGTH(8)"
    then show "bit a n = bit b n"
      using arg_cong [OF lo, of "\<lambda>w. bit w n"] arg_cong [OF hi, of "\<lambda>w. bit w (n - 4)"]
      by (cases "n < 4") (auto simp: m bit_simps)
  qed
qed simp

section \<open>Properties of the class\<close>

lemma sha_rep_foldl_add: "sha_rep s msg \<Longrightarrow> sha_rep (foldl add s chunks) (msg @ concat chunks)"
proof (induction chunks arbitrary: s msg)
  case (Cons c chunks)
  then show ?case using Cons.IH [OF sha_rep_add [OF Cons.prems, of c]] by simp
qed simp

text \<open>
  C22. The streaming class computes SHA-256: whatever the object held before, whatever the
  uninitialised stack bytes of \<^verbatim>\<open>processBuffer\<close> are and however the message is cut into pieces
  for \<open>add\<close>, the digest after \<open>reset\<close> is the lower-case hexadecimal SHA-256 of the whole message.
\<close>

theorem sha256_streaming_correct:
  assumes "length (m_buffer s) = BlockSize" and "length extra0 = BlockSize"
  shows "fst (getHash extra0 (foldl add (reset s) chunks))
       = concat (map hex_of_byte (sha256_ref (concat chunks)))"
  using sha_rep_foldl_add [OF sha_rep_reset, of s chunks] assms by (simp add: getHash_ref)

theorem sha256_streaming_correct_witness:
  "fst (getHash (replicate 64 7) (foldl add
       (reset \<lparr>m_numBytes = 5, m_bufferSize = 63, m_buffer = replicate 64 9, m_hash = []\<rparr>)
       [[97], [], [98, 99]]))
   = concat (map hex_of_byte (sha256_ref [97, 98, 99]))"
  by (subst sha256_streaming_correct) simp_all

text \<open>
  Asking for the digest does not disturb a computation in progress: after \<open>getHash\<close> the object
  still stands for the same message, so adding the rest of the message and asking again gives the
  digest of the whole message.
\<close>

theorem sha256_getHash_resumable:
  assumes "length (m_buffer s) = BlockSize" and "length extra1 = BlockSize" and "length extra2 = BlockSize"
  shows "let (d1, s1) = getHash extra1 (add (reset s) msg1); (d2, s2) = getHash extra2 (add s1 msg2)
         in d1 = concat (map hex_of_byte (sha256_ref msg1))
          \<and> d2 = concat (map hex_of_byte (sha256_ref (msg1 @ msg2)))"
proof -
  have r1: "sha_rep (add (reset s) msg1) msg1"
    using sha_rep_add [OF sha_rep_reset [of s], of msg1] assms(1) by simp
  have "sha_rep (snd (getHash extra1 (add (reset s) msg1))) msg1"
    using getHash_state_rep [OF r1, of extra1] by (simp add: getHash_def split_def Let_def)
  then have "sha_rep (add (snd (getHash extra1 (add (reset s) msg1))) msg2) (msg1 @ msg2)"
    by (rule sha_rep_add)
  then show ?thesis
    using assms r1 by (simp add: split_def Let_def getHash_ref)
qed

theorem sha256_getHash_resumable_witness:
  "let (d1, s1) = getHash (replicate 64 0) (add (reset \<lparr>m_numBytes = 0, m_bufferSize = 0,
         m_buffer = replicate 64 9, m_hash = []\<rparr>) [97]);
       (d2, s2) = getHash (replicate 64 1) (add s1 [98])
   in d1 = concat (map hex_of_byte (sha256_ref [97]))
    \<and> d2 = concat (map hex_of_byte (sha256_ref [97, 98]))"
  using sha256_getHash_resumable [of "\<lparr>m_numBytes = 0, m_bufferSize = 0,
         m_buffer = replicate 64 9, m_hash = []\<rparr>" "replicate 64 0" "replicate 64 1" "[97]" "[98]"]
  by simp

text \<open>
  The optimised compression function is the one of the standard: on a 64-byte block the
  eight unrolled groups of rounds, with the renamed variables and the in-place message schedule,
  change nothing but \<open>m_hash\<close>, and turn it into the standard's compression of the old value.
\<close>

theorem processBlock_is_sha256_compression:
  assumes "length data = BlockSize"
  shows "processBlock s data = s\<lparr>m_hash := compress (m_hash s) data\<rparr>"
  using assms by (rule processBlock_compress)

theorem processBlock_is_sha256_compression_witness:
  "processBlock \<lparr>m_numBytes = 0, m_bufferSize = 0, m_buffer = [], m_hash = sha256_IV\<rparr> (replicate 64 1)
   = \<lparr>m_numBytes = 0, m_bufferSize = 0, m_buffer = [], m_hash = compress sha256_IV (replicate 64 1)\<rparr>"
  by (subst processBlock_is_sha256_compression) simp_all

end
