(* ===== verification/Json_Value.thy ===== *)
theory Json_Value
  imports Cosi_Prelude
begin

text \<open>
  The value type of the JSON library (\<^verbatim>\<open>include/json/json.hpp\<close>, class \<^verbatim>\<open>basic_json\<close>) as the program
  uses it: the tagged union of values, element access (\<^verbatim>\<open>at\<close>, \<^verbatim>\<open>operator[]\<close>, \<^verbatim>\<open>push_back\<close>,
  \<^verbatim>\<open>size\<close>, range-based iteration) and the conversions to C++ types, each with the exceptions it
  throws. Objects are \<^verbatim>\<open>std::map\<close>s: association lists sorted by key. Floating-point, binary
  and discarded values do not occur in the program and are left out.
\<close>

section \<open>Values\<close>

datatype json =
    JNull
  | JBool bool
  | JInteger u64
  | JUnsigned u64
  | JString string
  | JArray "json list"
  | JObject "(string \<times> json) list"

text \<open>The object store: lookup, and insertion at the key's place in the order of \<^verbatim>\<open>std::less\<close>.\<close>

fun obj_put :: "string \<Rightarrow> json \<Rightarrow> (string \<times> json) list \<Rightarrow> (string \<times> json) list" where
  "obj_put k v [] = [(k, v)]"
| "obj_put k v ((k', v') # kvs) =
     (if k = k' then (k, v) # kvs
      else if k < k' then (k, v) # (k', v') # kvs
      else (k', v') # obj_put k v kvs)"

text \<open>
  \<^verbatim>\<open>j[key]\<close> as the target of an operation: a null value becomes an object, a missing key is
  inserted with a null value, and the operation \<open>f\<close> works on the element.
\<close>

definition json_update :: "json \<Rightarrow> string \<Rightarrow> (json \<Rightarrow> json res) \<Rightarrow> json res" where
  "json_update j k f = (let upd = (\<lambda>kvs. rbind (f (case map_of kvs k of None \<Rightarrow> JNull | Some v \<Rightarrow> v))
                                         (\<lambda>v. Inr (JObject (obj_put k v kvs))))
     in case j of JNull \<Rightarrow> upd [] | JObject kvs \<Rightarrow> upd kvs | _ \<Rightarrow> Inl (Json_type_error 305))"

abbreviation json_set :: "json \<Rightarrow> string \<Rightarrow> json \<Rightarrow> json res" where
  "json_set j k v \<equiv> json_update j k (\<lambda>_. Inr v)"

definition json_push_back :: "json \<Rightarrow> json \<Rightarrow> json res" where
  "json_push_back j v = (case j of JNull \<Rightarrow> Inr (JArray [v]) | JArray vs \<Rightarrow> Inr (JArray (vs @ [v]))
     | _ \<Rightarrow> Inl (Json_type_error 308))"

definition json_at :: "json \<Rightarrow> string \<Rightarrow> json res" where
  "json_at j k = (case j of JObject kvs \<Rightarrow>
       (case map_of kvs k of None \<Rightarrow> Inl (Json_out_of_range 403) | Some v \<Rightarrow> Inr v)
     | _ \<Rightarrow> Inl (Json_type_error 304))"

text \<open>
  \<^verbatim>\<open>j[idx]\<close> on a non-constant value: the element read; an index past the end first fills the array
  with null values.
\<close>

definition json_index :: "json \<Rightarrow> nat \<Rightarrow> json res" where
  "json_index j i = (case j of JNull \<Rightarrow> Inr JNull
     | JArray vs \<Rightarrow> Inr (if i < length vs then vs ! i else JNull)
     | _ \<Rightarrow> Inl (Json_type_error 305))"

definition json_size :: "json \<Rightarrow> nat" where
  "json_size j = (case j of JNull \<Rightarrow> 0 | JArray vs \<Rightarrow> length vs | JObject kvs \<Rightarrow> length kvs | _ \<Rightarrow> 1)"

text \<open>The elements a range-based \<^verbatim>\<open>for\<close> visits.\<close>

definition json_elements :: "json \<Rightarrow> json list" where
  "json_elements j = (case j of JNull \<Rightarrow> [] | JArray vs \<Rightarrow> vs | JObject kvs \<Rightarrow> map snd kvs | _ \<Rightarrow> [j])"

section \<open>Conversions\<close>

definition get_string :: "json \<Rightarrow> string res" where
  "get_string j = (case j of JString s \<Rightarrow> Inr s | _ \<Rightarrow> Inl (Json_type_error 302))"

definition get_bool :: "json \<Rightarrow> bool res" where
  "get_bool j = (case j of JBool b \<Rightarrow> Inr b | _ \<Rightarrow> Inl (Json_type_error 302))"

text \<open>\<^verbatim>\<open>std::uint64_t\<close> is the library's own unsigned type: a boolean is refused.\<close>

definition get_u64 :: "json \<Rightarrow> u64 res" where
  "get_u64 j = (case j of JUnsigned n \<Rightarrow> Inr n | JInteger i \<Rightarrow> Inr i | _ \<Rightarrow> Inl (Json_type_error 302))"

text \<open>The narrower integer types: the value is cast, and booleans are accepted.\<close>

definition get_arith :: "json \<Rightarrow> 'a::len word res" where
  "get_arith j = (case j of JUnsigned n \<Rightarrow> Inr (ucast n) | JInteger i \<Rightarrow> Inr (ucast i)
     | JBool b \<Rightarrow> Inr (of_bool b) | _ \<Rightarrow> Inl (Json_type_error 302))"

section \<open>Well-formed values\<close>

fun json_ok :: "json \<Rightarrow> bool" where
  "json_ok (JArray vs) \<longleftrightarrow> list_all json_ok vs"
| "json_ok (JObject kvs) \<longleftrightarrow> sorted_wrt (<) (map fst kvs) \<and> list_all (\<lambda>(k, v). json_ok v) kvs"
| "json_ok _ \<longleftrightarrow> True"

section \<open>Lemmas\<close>

lemma map_of_obj_put [simp]: "map_of (obj_put k v kvs) = (map_of kvs)(k \<mapsto> v)"
  by (induction kvs) (auto simp: fun_eq_iff)

lemma map_of_obj_put_notin: "k \<notin> fst ` set kvs \<Longrightarrow> map_of kvs k = None"
  by (rule map_of_eq_None_iff [THEN iffD2])

lemma keys_obj_put [simp]: "fst ` set (obj_put k v kvs) = insert k (fst ` set kvs)"
  by (simp flip: dom_map_of_conv_image_fst)

lemma sorted_obj_put [simp]:
  "sorted_wrt (<) (map fst kvs) \<Longrightarrow> sorted_wrt (<) (map fst (obj_put k v kvs))"
proof (induction kvs)
  case (Cons p kvs)
  obtain k' v' where p: "p = (k', v')" by (cases p)
  have keys: "set (map fst (obj_put k v kvs)) = insert k (set (map fst kvs))" by simp
  show ?case
    using Cons p keys by (auto simp del: list.set_map set_map dest: order.strict_trans)
qed simp

lemma list_all_obj_put:
  "list_all P kvs \<Longrightarrow> P (k, v) \<Longrightarrow> list_all P (obj_put k v kvs)"
  by (induction kvs) auto

lemma json_ok_obj_put: "json_ok (JObject kvs) \<Longrightarrow> json_ok v \<Longrightarrow> json_ok (JObject (obj_put k v kvs))"
  by (simp add: list_all_obj_put)

lemma obj_put_last:
  "\<forall>k' \<in> set (map fst kvs). k' < k \<Longrightarrow> obj_put k v kvs = kvs @ [(k, v)]"
  by (induction kvs) (auto simp: order.strict_iff_not)

lemma json_update_JObject [simp]:
  "json_update (JObject kvs) k f = rbind (f (case map_of kvs k of None \<Rightarrow> JNull | Some v \<Rightarrow> v))
     (\<lambda>v. Inr (JObject (obj_put k v kvs)))"
  by (simp add: json_update_def)

lemma json_update_JNull [simp]:
  "json_update JNull k f = rbind (f JNull) (\<lambda>v. Inr (JObject [(k, v)]))"
  by (simp add: json_update_def)

lemma json_at_JObject [simp]:
  "json_at (JObject kvs) k = (case map_of kvs k of None \<Rightarrow> Inl (Json_out_of_range 403) | Some v \<Rightarrow> Inr v)"
  by (simp add: json_at_def)

lemma json_push_back_simps [simp]:
  "json_push_back JNull v = Inr (JArray [v])" "json_push_back (JArray vs) v = Inr (JArray (vs @ [v]))"
  by (simp_all add: json_push_back_def)

lemma get_conv_simps [simp]:
  "get_string (JString s) = Inr s" "get_bool (JBool b) = Inr b" "get_u64 (JUnsigned n) = Inr n"
  "get_u64 (JInteger n) = Inr n" "get_arith (JUnsigned n) = Inr (ucast n)"
  "get_arith (JInteger n) = Inr (ucast n)"
  by (simp_all add: get_string_def get_bool_def get_u64_def get_arith_def)

lemma json_elements_simps [simp]: "json_elements (JArray vs) = vs" "json_elements JNull = []"
  by (simp_all add: json_elements_def)

lemma obj_put_put [simp]: "obj_put k b (obj_put k a kvs) = obj_put k b kvs"
  by (induction kvs) auto

lemma push_more:
  assumes "rmap enc xs = Inr ss"
  shows "rfold (\<lambda>x j. rbind (enc x) (\<lambda>s. json_update j k (\<lambda>e. json_push_back e (f s)))) xs
      (JObject (obj_put k (JArray vs) kvs)) = Inr (JObject (obj_put k (JArray (vs @ map f ss)) kvs))"
  using assms by (induction xs arbitrary: ss vs) auto

lemma push_all:
  assumes "rmap enc xs = Inr ss" and "xs \<noteq> []" and "map_of kvs k = None"
  shows "rfold (\<lambda>x j. rbind (enc x) (\<lambda>s. json_update j k (\<lambda>e. json_push_back e (f s)))) xs (JObject kvs)
    = Inr (JObject (obj_put k (JArray (map f ss)) kvs))"
proof -
  obtain x xs' where "xs = x # xs'" using assms(2) by (cases xs) auto
  then show ?thesis using assms(1,3) push_more [of enc xs' _ k f] by auto
qed

end
