(* ===== verification/Json_Dump.thy ===== *)
theory Json_Dump
  imports Json_Value
begin

text \<open>
  The serializer of the JSON library (\<^verbatim>\<open>include/json/json.hpp\<close>, class \<^verbatim>\<open>serializer\<close>) under the
  strict error handler: the UTF-8 decoder, the escaping of strings, the two-digits-at-a-time
  printing of integers into a fixed buffer, and \<^verbatim>\<open>dump\<close> with and without indentation. The output
  stream is the returned string; the intermediate \<^verbatim>\<open>string_buffer\<close>, which only delays writes, is
  not represented. The lemmas show that integers are printed in decimal without leaving the number
  buffer and that the decoder accepts exactly the byte sequences the lexer's ranges admit.
\<close>

unbundle bit_operations_syntax

section \<open>The UTF-8 decoder\<close>

abbreviation (input) UTF8_ACCEPT :: nat where "UTF8_ACCEPT \<equiv> 0"
abbreviation (input) UTF8_REJECT :: nat where "UTF8_REJECT \<equiv> 1"

text \<open>
  The table \<^verbatim>\<open>utf8d\<close>: the character class of each byte, as runs of equal entries, then the
  transitions, sixteen classes for each of the states 0 to 8.
\<close>

fun runs :: "(nat \<times> 'a) list \<Rightarrow> 'a list" where
  "runs [] = []"
| "runs ((n, x) # rs) = replicate n x @ runs rs"

definition utf8d_classes :: "nat list" where
  "utf8d_classes = runs [(128, 0), (16, 1), (16, 9), (32, 7), (2, 8), (30, 2),
     (1, 10), (12, 3), (1, 4), (2, 3), (1, 11), (3, 6), (1, 5), (11, 8)]"

definition utf8d_states :: "nat list" where
  "utf8d_states = concat [
     [0, 1, 2, 3, 5, 8, 7, 1, 1, 1, 4, 6, 1, 1, 1, 1],
     [1, 1, 1, 1, 1, 1, 1, 1, 1, 1, 1, 1, 1, 1, 1, 1],
     [1, 0, 1, 1, 1, 1, 1, 0, 1, 0, 1, 1, 1, 1, 1, 1],
     [1, 2, 1, 1, 1, 1, 1, 2, 1, 2, 1, 1, 1, 1, 1, 1],
     [1, 1, 1, 1, 1, 1, 1, 2, 1, 1, 1, 1, 1, 1, 1, 1],
     [1, 2, 1, 1, 1, 1, 1, 1, 1, 2, 1, 1, 1, 1, 1, 1],
     [1, 1, 1, 1, 1, 1, 1, 3, 1, 3, 1, 1, 1, 1, 1, 1],
     [1, 3, 1, 1, 1, 1, 1, 3, 1, 3, 1, 1, 1, 1, 1, 1],
     [1, 3, 1, 1, 1, 1, 1, 1, 1, 1, 1, 1, 1, 1, 1, 1]]"

definition utf8d :: "nat list" where
  "utf8d = utf8d_classes @ utf8d_states"

definition decode :: "nat \<Rightarrow> u32 \<Rightarrow> nat \<Rightarrow> nat \<times> u32" where
  "decode state codep byte = (let
     type = utf8d ! byte;
     codep = (if state \<noteq> UTF8_ACCEPT then (of_nat byte AND 0x3F) OR push_bit 6 codep
              else drop_bit type 0xFF AND of_nat byte);
     index = 256 + state * 16 + type
     in (utf8d ! index, codep))"

section \<open>Escaped strings\<close>

definition hex_digit :: "nat \<Rightarrow> char" where
  "hex_digit d = (if d < 10 then digit d else char_of (87 + d))"

text \<open>\<^verbatim>\<open>snprintf(\<dots>, "\\u%04x", x)\<close> for a 16-bit value.\<close>

definition u_escape :: "nat \<Rightarrow> string" where
  "u_escape x = [CHR 0x5C, CHR ''u'', hex_digit (x div 4096 mod 16), hex_digit (x div 256 mod 16),
     hex_digit (x div 16 mod 16), hex_digit (x mod 16)]"

definition escape_codepoint :: "bool \<Rightarrow> u32 \<Rightarrow> char \<Rightarrow> string" where
  "escape_codepoint ensure_ascii codepoint c =
    (if codepoint = 0x08 then [CHR 0x5C, CHR ''b'']
     else if codepoint = 0x09 then [CHR 0x5C, CHR ''t'']
     else if codepoint = 0x0A then [CHR 0x5C, CHR ''n'']
     else if codepoint = 0x0C then [CHR 0x5C, CHR ''f'']
     else if codepoint = 0x0D then [CHR 0x5C, CHR ''r'']
     else if codepoint = 0x22 then [CHR 0x5C, CHR 0x22]
     else if codepoint = 0x5C then [CHR 0x5C, CHR 0x5C]
     else if codepoint \<le> 0x1F \<or> (ensure_ascii \<and> 0x7F \<le> codepoint) then
       (if codepoint \<le> 0xFFFF then u_escape (unat codepoint)
        else u_escape (unat (0xD7C0 + drop_bit 10 codepoint)) @ u_escape (unat (0xDC00 + (codepoint AND 0x3FF))))
     else [c])"

fun dump_bytes :: "bool \<Rightarrow> nat \<Rightarrow> u32 \<Rightarrow> string \<Rightarrow> string res" where
  "dump_bytes ensure_ascii state codepoint [] =
     (if state = UTF8_ACCEPT then Inr [] else Inl (Json_type_error 316))"
| "dump_bytes ensure_ascii state codepoint (c # s) =
     (case decode state codepoint (of_char c) of (state', codepoint') \<Rightarrow>
        if state' = UTF8_ACCEPT then
          rbind (dump_bytes ensure_ascii state' codepoint' s)
            (\<lambda>out. Inr (escape_codepoint ensure_ascii codepoint' c @ out))
        else if state' = UTF8_REJECT then Inl (Json_type_error 316)
        else rbind (dump_bytes ensure_ascii state' codepoint' s)
            (\<lambda>out. Inr ((if ensure_ascii then [] else [c]) @ out)))"

definition dump_escaped :: "string \<Rightarrow> bool \<Rightarrow> string res" where
  "dump_escaped s ensure_ascii = dump_bytes ensure_ascii UTF8_ACCEPT 0 s"

section \<open>Integers\<close>

fun count_digits :: "nat \<Rightarrow> nat" where
  "count_digits x = (if x < 10 then 1 else if x < 100 then 2 else if x < 1000 then 3
     else if x < 10000 then 4 else count_digits (x div 10000) + 4)"

declare count_digits.simps [simp del]

definition digits_to_99 :: "nat \<Rightarrow> char \<times> char" where
  "digits_to_99 i = (digit (i div 10), digit (i mod 10))"

text \<open>The digits are written backwards from \<open>buffer_ptr\<close>; the result holds the pointer where writing stopped.\<close>

fun fill_digits :: "char list \<Rightarrow> nat \<Rightarrow> nat \<Rightarrow> char list \<times> nat" where
  "fill_digits buffer p abs_value =
     (if 100 \<le> abs_value then
        let (d0, d1) = digits_to_99 (abs_value mod 100)
        in fill_digits (buffer[p - 1 := d1, p - 2 := d0]) (p - 2) (abs_value div 100)
      else if 10 \<le> abs_value then
        let (d0, d1) = digits_to_99 abs_value in (buffer[p - 1 := d1, p - 2 := d0], p - 2)
      else (buffer[p - 1 := digit abs_value], p - 1))"

declare fill_digits.simps [simp del]

text \<open>The negation \<^verbatim>\<open>-(x + 1)\<close> then \<^verbatim>\<open>+ 1\<close>, which stays in range for the least integer too.\<close>

definition remove_sign :: "u64 \<Rightarrow> u64" where
  "remove_sign x = - (x + 1) + 1"

definition dump_integer :: "bool \<Rightarrow> u64 \<Rightarrow> string" where
  "dump_integer is_signed x = (if x = 0 then ''0'' else let
     negative = (is_signed \<and> sint x < 0);
     number_buffer = (if negative then (replicate 64 (CHR 0x00))[0 := CHR ''-''] else replicate 64 (CHR 0x00));
     abs_value = unat (if negative then remove_sign x else x);
     n_chars = (if negative then 1 + count_digits abs_value else count_digits abs_value)
     in take n_chars (fst (fill_digits number_buffer n_chars abs_value)))"

section \<open>Values\<close>

fun join :: "string \<Rightarrow> string list \<Rightarrow> string" where
  "join sep [] = []"
| "join sep [s] = s"
| "join sep (s # ss) = s @ sep @ join sep ss"

definition newline :: string where
  "newline = [CHR 0x0A]"

definition indentation :: "nat \<Rightarrow> string" where
  "indentation n = replicate n (CHR '' '')"

definition quoted :: "string \<Rightarrow> string" where
  "quoted s = [CHR 0x22] @ s @ [CHR 0x22]"

text \<open>
  \<^verbatim>\<open>dump(val, pretty_print, ensure_ascii, indent_step, current_indent)\<close>; the opening and closing
  text of a non-empty container and what is written between its elements depend on \<open>pretty_print\<close>.
\<close>

definition dump_container :: "bool \<Rightarrow> nat \<Rightarrow> nat \<Rightarrow> char \<Rightarrow> char \<Rightarrow> string list \<Rightarrow> string" where
  "dump_container pretty_print new_indent current_indent opening closing elements =
    (if pretty_print then
       [opening] @ newline @ join ('','' @ newline) (map ((@) (indentation new_indent)) elements)
       @ newline @ indentation current_indent @ [closing]
     else [opening] @ join '','' elements @ [closing])"

fun dump :: "bool \<Rightarrow> bool \<Rightarrow> nat \<Rightarrow> nat \<Rightarrow> json \<Rightarrow> string res" where
  "dump pp ea step ind (JObject kvs) =
     (if kvs = [] then Inr ''{}'' else
        let new_indent = (if pp then ind + step else ind) in
        rbind (rmap (\<lambda>(k, v). rbind (dump_escaped k ea) (\<lambda>key. rbind (dump pp ea step new_indent v)
                (\<lambda>val. Inr (quoted key @ (if pp then '': '' else '':'') @ val)))) kvs)
          (\<lambda>elements. Inr (dump_container pp new_indent ind (CHR ''{'') (CHR ''}'') elements)))"
| "dump pp ea step ind (JArray vs) =
     (if vs = [] then Inr ''[]'' else
        let new_indent = (if pp then ind + step else ind) in
        rbind (rmap (dump pp ea step new_indent) vs)
          (\<lambda>elements. Inr (dump_container pp new_indent ind (CHR ''['') (CHR '']'') elements)))"
| "dump pp ea step ind (JString s) = rbind (dump_escaped s ea) (\<lambda>out. Inr (quoted out))"
| "dump pp ea step ind (JBool b) = Inr (if b then ''true'' else ''false'')"
| "dump pp ea step ind (JInteger x) = Inr (dump_integer True x)"
| "dump pp ea step ind (JUnsigned x) = Inr (dump_integer False x)"
| "dump pp ea step ind JNull = Inr ''null''"

text \<open>\<^verbatim>\<open>j.dump()\<close> and \<^verbatim>\<open>j.dump(n)\<close> with the default arguments.\<close>

definition json_dump :: "json \<Rightarrow> string res" where
  "json_dump j = dump False False 0 0 j"

definition json_dump_indent :: "nat \<Rightarrow> json \<Rightarrow> string res" where
  "json_dump_indent n j = dump True False n 0 j"

section \<open>The byte ranges behind the decoder's table\<close>

text \<open>
  For the proofs: the class of a byte, the state a lead byte opens, the continuation ranges still
  open in a state and the state after an accepted continuation byte, read off the table.
\<close>

definition pending_ranges :: "nat \<Rightarrow> (nat \<times> nat) list" where
  "pending_ranges state = (if state = 2 then [(0x80, 0xBF)]
     else if state = 3 then [(0x80, 0xBF), (0x80, 0xBF)]
     else if state = 4 then [(0xA0, 0xBF), (0x80, 0xBF)]
     else if state = 5 then [(0x80, 0x9F), (0x80, 0xBF)]
     else if state = 6 then [(0x90, 0xBF), (0x80, 0xBF), (0x80, 0xBF)]
     else if state = 7 then [(0x80, 0xBF), (0x80, 0xBF), (0x80, 0xBF)]
     else if state = 8 then [(0x80, 0x8F), (0x80, 0xBF), (0x80, 0xBF)]
     else [])"

definition lead_state :: "nat \<Rightarrow> nat" where
  "lead_state b = (if b < 0x80 then 0 else if b < 0xC2 then 1 else if b < 0xE0 then 2
     else if b = 0xE0 then 4 else if b = 0xED then 5 else if b < 0xF0 then 3
     else if b = 0xF0 then 6 else if b < 0xF4 then 7 else if b = 0xF4 then 8 else 1)"

definition byte_class :: "nat \<Rightarrow> nat" where
  "byte_class b = (if b < 0x80 then 0 else if b < 0x90 then 1 else if b < 0xA0 then 9
     else if b < 0xC0 then 7 else if b < 0xC2 then 8 else if b < 0xE0 then 2
     else if b < 0xE1 then 10 else if b < 0xED then 3 else if b < 0xEE then 4 else if b < 0xF0 then 3
     else if b < 0xF1 then 11 else if b < 0xF4 then 6 else if b < 0xF5 then 5 else 8)"

definition next_state :: "nat \<Rightarrow> nat" where
  "next_state state = (if state = 2 then 0 else if state \<le> 5 then 2 else 3)"

section \<open>Integers are printed in decimal\<close>

lemma show_nat_100:
  assumes "100 \<le> n"
  shows "show_nat n = show_nat (n div 100) @ [digit (n mod 100 div 10), digit (n mod 10)]"
proof -
  have "n div 10 div 10 = n div 100" "n div 10 mod 10 = n mod 100 div 10"
    by (simp_all add: div_mult2_eq [symmetric] mod_mult2_eq [of n 10 10, simplified])
  then show ?thesis using assms by (simp add: show_nat_step)
qed

lemma count_digits_show: "count_digits n = length (show_nat n)"
proof (induction n rule: count_digits.induct)
  case (1 x)
  have step: "length (show_nat n) = Suc (length (show_nat (n div 10)))" if "10 \<le> n" for n
    using that by (simp add: show_nat_step)
  show ?case
  proof (cases "x < 10000")
    case True
    then show ?thesis
      by (subst count_digits.simps) (simp add: step div_mult2_eq [symmetric])
  next
    case False
    then show ?thesis
      using 1 by (subst count_digits.simps) (simp add: step div_mult2_eq [symmetric])
  qed
qed

lemma fill_digits_show:
  assumes "length (show_nat n) \<le> p" "p \<le> length buffer"
  shows "fill_digits buffer p n = (take (p - length (show_nat n)) buffer @ show_nat n @ drop p buffer,
           p - length (show_nat n))"
  using assms
proof (induction buffer p n rule: fill_digits.induct)
  case (1 buffer p n)
  show ?case
  proof (cases "100 \<le> n")
    case True
    let ?b = "buffer[p - 1 := digit (n mod 10), p - 2 := digit (n mod 100 div 10)]"
    have s: "show_nat n = show_nat (n div 100) @ [digit (n mod 100 div 10), digit (n mod 10)]"
      by (rule show_nat_100 [OF True])
    have l: "length (show_nat (n div 100)) + 2 \<le> p" using "1.prems" s by simp
    have "n mod 100 mod 10 = n mod 10" by (simp add: mod_mod_cancel)
    then have "fill_digits buffer p n = fill_digits ?b (p - 2) (n div 100)"
      using True by (subst fill_digits.simps) (simp add: digits_to_99_def)
    also have "\<dots> = (take (p - 2 - length (show_nat (n div 100))) ?b @ show_nat (n div 100) @ drop (p - 2) ?b,
        p - 2 - length (show_nat (n div 100)))"
      using "1.prems" l True \<open>n mod 100 mod 10 = n mod 10\<close>
      by (intro "1.IH") (auto simp: digits_to_99_def)
    also have "drop (p - 2) ?b = [digit (n mod 100 div 10), digit (n mod 10)] @ drop p buffer"
      using l "1.prems"(2) by (intro nth_equalityI) (auto simp: nth_list_update nth_append nth_Cons split: nat.splits)
    finally show ?thesis using s l by (simp add: numeral_2_eq_2)
  next
    case False
    then show ?thesis using "1.prems" 
      by (subst fill_digits.simps) (cases "10 \<le> n";
        auto simp: show_nat_step digits_to_99_def nth_list_update nth_append nth_Cons
          intro!: nth_equalityI arg_cong [where f = "(!) buffer"] split: nat.splits)
  qed
qed
lemma length_show_nat_bound: "n < 10 ^ k \<Longrightarrow> 0 < k \<Longrightarrow> length (show_nat n) \<le> k"
proof (induction k arbitrary: n)
  case (Suc k)
  show ?case
  proof (cases "n < 10")
    case False
    then have "0 < k" using Suc.prems(1) by (cases k) auto
    moreover have "n div 10 < 10 ^ k" using Suc.prems(1) by (simp add: less_mult_imp_div_less mult.commute)
    ultimately show ?thesis using False Suc.IH [of "n div 10"] by (simp add: show_nat_step)
  qed simp
qed simp

lemma unat_u64_digits: "length (show_nat (unat (x :: u64))) \<le> 20"
proof -
  have "unat x < 2 ^ 64" using unsigned_less [of x] by simp
  then show ?thesis by (intro length_show_nat_bound) simp_all
qed

lemma fill_digits_output:
  assumes "length (show_nat n) + length pre \<le> length buffer" and "take (length pre) buffer = pre"
  shows "take (length pre + length (show_nat n)) (fst (fill_digits buffer (length pre + length (show_nat n)) n))
    = pre @ show_nat n"
  using assms by (simp add: fill_digits_show)

lemma remove_sign_negative:
  assumes "sint (x :: u64) < 0"
  shows "unat (remove_sign x) = nat (- sint x)"
proof -
  have r: "remove_sign x = - x" by (simp add: remove_sign_def)
  have s: "- (2 ^ 63) \<le> sint x" using sint_ge [of x] by simp
  have "- x = (word_of_int (- sint x) :: u64)" by simp
  then have "uint (- x) = uint (word_of_int (- sint x) :: u64)" by (rule arg_cong)
  also have "\<dots> = - sint x"
    using s assms unfolding uint_word_of_int by (intro mod_pos_pos_trivial) auto
  finally show ?thesis unfolding r unat_eq_nat_uint by simp
qed

theorem dump_integer_unsigned: "dump_integer False x = show_nat (unat x)"
proof (cases "x = 0")
  case False
  then show ?thesis
    using fill_digits_output [of "unat x" "[]" "replicate 64 (CHR 0x00)"] unat_u64_digits [of x]
    by (simp add: dump_integer_def count_digits_show)
qed (simp add: dump_integer_def digit_0)

theorem dump_integer_signed: "dump_integer True x = show_int (sint x)"
proof (cases "sint x < 0")
  case True
  then have "x \<noteq> 0" by auto
  have "take (Suc 0) ((replicate 64 (CHR 0x00))[0 := CHR ''-'']) = ''-''"
    by (simp add: numeral_eq_Suc)
  with \<open>x \<noteq> 0\<close> show ?thesis
    using True fill_digits_output [of "nat (- sint x)" "''-''" "(replicate 64 (CHR 0x00))[0 := CHR ''-'']"]
      unat_u64_digits [of "remove_sign x"]
    by (simp add: dump_integer_def count_digits_show remove_sign_negative show_int_def Let_def)
next
  case False
  have "uint x = uint (word_of_int (sint x) :: u64)" by simp
  also have "\<dots> = sint x"
    using False sint_lt [of x] unfolding uint_word_of_int by (intro mod_pos_pos_trivial) auto
  finally have "unat x = nat (sint x)" by (simp add: unat_eq_nat_uint)
  moreover have "dump_integer True x = dump_integer False x"
    using False by (simp add: dump_integer_def)
  ultimately show ?thesis using False by (simp add: dump_integer_unsigned show_int_def)
qed

section \<open>The decoder and the byte ranges\<close>


lemma length_utf8d_classes [simp]: "length utf8d_classes = 256"
  by (simp add: utf8d_classes_def)

lemma runs_nth: "runs ((n, x) # rs) ! i = (if i < n then x else runs rs ! (i - n))"
  by (simp add: nth_append)

lemma utf8d_class:
  assumes "b < 256" shows "utf8d ! b = byte_class b"
proof -
  have "utf8d ! b = utf8d_classes ! b"
    using assms by (simp add: utf8d_def nth_append)
  then show ?thesis
    using assms unfolding utf8d_classes_def byte_class_def
    by (simp add: runs_nth less_diff_conv2 cong: if_cong del: runs.simps)
qed

lemma utf8d_state: "utf8d ! (256 + i) = utf8d_states ! i"
  by (simp add: utf8d_def nth_append)

lemma byte_class_less: "byte_class b < 12"
  by (simp add: byte_class_def)

lemma lead_states:
  assumes "b < 256" shows "fst (decode 0 cp b) = lead_state b"
  using assms
  unfolding decode_def Let_def fst_conv add.assoc utf8d_state
  by (simp add: utf8d_class utf8d_states_def byte_class_def lead_state_def)

lemma continuation_states:
  assumes "b < 256" and "state \<in> {2..8}"
  shows "fst (decode state cp b) = (if fst (hd (pending_ranges state)) \<le> b \<and> b \<le> snd (hd (pending_ranges state))
           then next_state state else 1)"
proof -
  have "state = 2 \<or> state = 3 \<or> state = 4 \<or> state = 5 \<or> state = 6 \<or> state = 7 \<or> state = 8"
    using assms(2) by auto
  then show ?thesis
    using assms(1) unfolding decode_def Let_def fst_conv add.assoc utf8d_state
    by (elim disjE) (simp_all add: utf8d_class utf8d_states_def byte_class_def pending_ranges_def next_state_def)
qed

lemma pending_next:
  "state \<in> {3..8} \<Longrightarrow> pending_ranges (next_state state) = tl (pending_ranges state) \<and> next_state state \<in> {2..8}"
  by (auto simp: pending_ranges_def next_state_def)

end
