(* ===== verification/Json_Parse.thy ===== *)
theory Json_Parse
  imports Json_Dump
begin

text \<open>
  The lexer and the parser of the JSON library (\<^verbatim>\<open>include/json/json.hpp\<close>, classes \<^verbatim>\<open>lexer\<close>,
  \<^verbatim>\<open>parser\<close> and \<^verbatim>\<open>json_sax_dom_parser\<close>): the scanning of strings, numbers and literals on the
  remaining input, and the iterative parser with its explicit stack of open containers. Numbers
  that need a floating-point value end the model with \<open>Not_modelled\<close>; the texts and positions of the
  error messages are not represented. The main lemma is the round trip: parsing what \<^verbatim>\<open>dump\<close> wrote,
  with or without indentation, gives the value back (a non-negative signed number comes back
  unsigned).
\<close>

unbundle bit_operations_syntax

section \<open>Lexer\<close>

datatype token =
    Begin_array | End_array | Begin_object | End_object | Name_separator | Value_separator
  | Literal_true | Literal_false | Literal_null
  | Value_string string | Value_unsigned u64 | Value_integer u64 | Value_float
  | Parse_error | End_of_input

subsection \<open>Strings\<close>

definition hex_value :: "char \<Rightarrow> nat option" where
  "hex_value c = (let b = of_char c in
     if 0x30 \<le> b \<and> b \<le> 0x39 then Some (b - 0x30)
     else if 0x41 \<le> b \<and> b \<le> 0x46 then Some (b - 0x37)
     else if 0x61 \<le> b \<and> b \<le> 0x66 then Some (b - 0x57)
     else None)"

text \<open>Four hexadecimal digits; \<open>None\<close> is the source's result \<open>-1\<close>.\<close>

fun get_codepoint :: "string \<Rightarrow> (nat \<times> string) option" where
  "get_codepoint (c1 # c2 # c3 # c4 # s) =
     (case (hex_value c1, hex_value c2, hex_value c3, hex_value c4) of
        (Some d1, Some d2, Some d3, Some d4) \<Rightarrow> Some (d1 * 4096 + d2 * 256 + d3 * 16 + d4, s)
      | _ \<Rightarrow> None)"
| "get_codepoint _ = None"

fun next_byte_in_range :: "(nat \<times> nat) list \<Rightarrow> string \<Rightarrow> (string \<times> string) option" where
  "next_byte_in_range [] s = Some ([], s)"
| "next_byte_in_range ((lo, hi) # ranges) (c # s) =
     (if lo \<le> of_char c \<and> of_char c \<le> hi
      then map_option (\<lambda>(out, r). (c # out, r)) (next_byte_in_range ranges s) else None)"
| "next_byte_in_range ranges [] = None"

definition encode_utf8 :: "nat \<Rightarrow> string" where
  "encode_utf8 cp = map char_of
    (if cp < 0x80 then [cp]
     else if cp \<le> 0x7FF then [0xC0 OR drop_bit 6 cp, 0x80 OR (cp AND 0x3F)]
     else if cp \<le> 0xFFFF then [0xE0 OR drop_bit 12 cp, 0x80 OR (drop_bit 6 cp AND 0x3F), 0x80 OR (cp AND 0x3F)]
     else [0xF0 OR drop_bit 18 cp, 0x80 OR (drop_bit 12 cp AND 0x3F), 0x80 OR (drop_bit 6 cp AND 0x3F),
           0x80 OR (cp AND 0x3F)])"

text \<open>What follows \<^verbatim>\<open>\u\<close>: one code unit, or a surrogate pair.\<close>

definition scan_unicode :: "string \<Rightarrow> (string \<times> string) option" where
  "scan_unicode s = (case get_codepoint s of None \<Rightarrow> None
     | Some (cp1, s1) \<Rightarrow>
        if 0xD800 \<le> cp1 \<and> cp1 \<le> 0xDBFF then
          (case s1 of c1 # c2 # s2 \<Rightarrow>
             if c1 = CHR 0x5C \<and> c2 = CHR ''u'' then
               (case get_codepoint s2 of None \<Rightarrow> None
                | Some (cp2, s3) \<Rightarrow>
                   if 0xDC00 \<le> cp2 \<and> cp2 \<le> 0xDFFF
                   then Some (encode_utf8 (cp1 * 1024 + cp2 - 0x35FDC00), s3) else None)
             else None
           | _ \<Rightarrow> None)
        else if 0xDC00 \<le> cp1 \<and> cp1 \<le> 0xDFFF then None
        else Some (encode_utf8 cp1, s1))"

text \<open>What follows a backslash.\<close>

fun scan_escape :: "string \<Rightarrow> (string \<times> string) option" where
  "scan_escape [] = None"
| "scan_escape (c # s) =
     (if c = CHR 0x22 then Some ([CHR 0x22], s)
      else if c = CHR 0x5C then Some ([CHR 0x5C], s)
      else if c = CHR ''/'' then Some (''/'', s)
      else if c = CHR ''b'' then Some ([CHR 0x08], s)
      else if c = CHR ''f'' then Some ([CHR 0x0C], s)
      else if c = CHR ''n'' then Some ([CHR 0x0A], s)
      else if c = CHR ''r'' then Some ([CHR 0x0D], s)
      else if c = CHR ''t'' then Some ([CHR 0x09], s)
      else if c = CHR ''u'' then scan_unicode s
      else None)"

text \<open>The ranges a lead byte asks for.\<close>

definition lead_ranges :: "nat \<Rightarrow> (nat \<times> nat) list option" where
  "lead_ranges b =
    (if 0xC2 \<le> b \<and> b \<le> 0xDF then Some [(0x80, 0xBF)]
     else if b = 0xE0 then Some [(0xA0, 0xBF), (0x80, 0xBF)]
     else if 0xE1 \<le> b \<and> b \<le> 0xEC \<or> b = 0xEE \<or> b = 0xEF then Some [(0x80, 0xBF), (0x80, 0xBF)]
     else if b = 0xED then Some [(0x80, 0x9F), (0x80, 0xBF)]
     else if b = 0xF0 then Some [(0x90, 0xBF), (0x80, 0xBF), (0x80, 0xBF)]
     else if 0xF1 \<le> b \<and> b \<le> 0xF3 then Some [(0x80, 0xBF), (0x80, 0xBF), (0x80, 0xBF)]
     else if b = 0xF4 then Some [(0x80, 0x8F), (0x80, 0xBF), (0x80, 0xBF)]
     else None)"

lemma get_codepoint_shorter: "get_codepoint s = Some (cp, r) \<Longrightarrow> length r < length s"
  by (cases s rule: get_codepoint.cases) (auto split: option.splits)

lemma next_byte_shorter: "next_byte_in_range ranges s = Some (out, r) \<Longrightarrow> length r \<le> length s"
  by (induction ranges s arbitrary: out r rule: next_byte_in_range.induct)
    (fastforce split: if_splits)+

lemma scan_unicode_shorter: "scan_unicode s = Some (out, r) \<Longrightarrow> length r < length s"
  by (auto simp: scan_unicode_def split: option.splits if_splits list.splits dest!: get_codepoint_shorter)

lemma scan_escape_shorter: "scan_escape s = Some (out, r) \<Longrightarrow> length r < length s"
  by (cases s) (auto split: if_splits dest: scan_unicode_shorter)

function scan_string :: "string \<Rightarrow> string \<Rightarrow> (string \<times> string) option" where
  "scan_string buf [] = None"
| "scan_string buf (c # s) = (let b = of_char c in
     if b = 0x22 then Some (buf, s)
     else if b = 0x5C then
       (case scan_escape s of None \<Rightarrow> None | Some (out, r) \<Rightarrow> scan_string (buf @ out) r)
     else if b < 0x20 then None
     else if b < 0x80 then scan_string (buf @ [c]) s
     else (case lead_ranges b of None \<Rightarrow> None
        | Some ranges \<Rightarrow> (case next_byte_in_range ranges s of None \<Rightarrow> None
           | Some (out, r) \<Rightarrow> scan_string (buf @ c # out) r)))"
  by pat_completeness auto
termination
  by (relation "measure (\<lambda>(buf, s). length s)") (auto dest: scan_escape_shorter next_byte_shorter)

subsection \<open>Numbers\<close>

text \<open>The labels of \<^verbatim>\<open>scan_number\<close> and its jumps.\<close>

datatype number_state = Minus | Zero | Any1 | Decimal1 | Decimal2 | Exponent | Sign | Any2

definition is_digit_1_9 :: "char \<Rightarrow> bool" where
  "is_digit_1_9 c \<longleftrightarrow> is_digit c \<and> c \<noteq> CHR ''0''"

definition number_goto :: "number_state \<Rightarrow> char \<Rightarrow> number_state option" where
  "number_goto st c = (case st of
       Minus \<Rightarrow> if c = CHR ''0'' then Some Zero else if is_digit_1_9 c then Some Any1 else None
     | Zero \<Rightarrow> if c = CHR ''.'' then Some Decimal1 else if c = CHR ''e'' \<or> c = CHR ''E'' then Some Exponent else None
     | Any1 \<Rightarrow> if is_digit c then Some Any1 else if c = CHR ''.'' then Some Decimal1
               else if c = CHR ''e'' \<or> c = CHR ''E'' then Some Exponent else None
     | Decimal1 \<Rightarrow> if is_digit c then Some Decimal2 else None
     | Decimal2 \<Rightarrow> if is_digit c then Some Decimal2 else if c = CHR ''e'' \<or> c = CHR ''E'' then Some Exponent else None
     | Exponent \<Rightarrow> if c = CHR ''+'' \<or> c = CHR ''-'' then Some Sign else if is_digit c then Some Any2 else None
     | Sign \<Rightarrow> if is_digit c then Some Any2 else None
     | Any2 \<Rightarrow> if is_digit c then Some Any2 else None)"

text \<open>The states whose other characters lead to \<^verbatim>\<open>scan_number_done\<close>; the remaining ones report an error.\<close>

definition number_done :: "number_state \<Rightarrow> bool" where
  "number_done st \<longleftrightarrow> st \<in> {Zero, Any1, Decimal2, Any2}"

datatype number_type = Type_unsigned | Type_integer | Type_float

definition number_type_in :: "number_state \<Rightarrow> number_type \<Rightarrow> number_type" where
  "number_type_in st ty = (if st = Minus then Type_integer
     else if st = Decimal1 \<or> st = Exponent then Type_float else ty)"

fun scan_number_from :: "number_state \<Rightarrow> number_type \<Rightarrow> string \<Rightarrow> string \<Rightarrow> (number_type \<times> string \<times> string) option" where
  "scan_number_from st ty buf [] = (if number_done st then Some (ty, buf, []) else None)"
| "scan_number_from st ty buf (c # s) = (case number_goto st c of
       Some st' \<Rightarrow> scan_number_from st' (number_type_in st' ty) (buf @ [c]) s
     | None \<Rightarrow> if number_done st then Some (ty, buf, c # s) else None)"

text \<open>
  \<^verbatim>\<open>strtoull\<close> and \<^verbatim>\<open>strtoll\<close> on the scanned text, whose format was checked; a number out of range
  falls back to floating point.
\<close>

definition convert_number :: "number_type \<Rightarrow> string \<Rightarrow> token" where
  "convert_number ty buf = (case ty of
       Type_unsigned \<Rightarrow> if read_digits buf < 2 ^ 64 then Value_unsigned (of_nat (read_digits buf)) else Value_float
     | Type_integer \<Rightarrow> if read_digits (tl buf) \<le> 2 ^ 63 then Value_integer (- of_nat (read_digits (tl buf))) else Value_float
     | Type_float \<Rightarrow> Value_float)"

definition scan_number :: "char \<Rightarrow> string \<Rightarrow> token \<times> string" where
  "scan_number c s = (let st = (if c = CHR ''-'' then Minus else if c = CHR ''0'' then Zero else Any1) in
     case scan_number_from st (number_type_in st Type_unsigned) [c] s of
       None \<Rightarrow> (Parse_error, []) | Some (ty, buf, r) \<Rightarrow> (convert_number ty buf, r))"

subsection \<open>Tokens\<close>

definition scan_literal :: "string \<Rightarrow> token \<Rightarrow> string \<Rightarrow> token \<times> string" where
  "scan_literal rest_of_literal return_type s = (let n = length rest_of_literal in
     if take n s = rest_of_literal then (return_type, drop n s) else (Parse_error, []))"

definition is_whitespace :: "char \<Rightarrow> bool" where
  "is_whitespace c \<longleftrightarrow> c = CHR '' '' \<or> c = CHR 0x09 \<or> c = CHR 0x0A \<or> c = CHR 0x0D"

definition skip_bom :: "string \<Rightarrow> string option" where
  "skip_bom s = (case s of c # r \<Rightarrow>
       if c = CHR 0xEF then (if take 2 r = [CHR 0xBB, CHR 0xBF] then Some (drop 2 r) else None) else Some s
     | [] \<Rightarrow> Some [])"

fun scan_token :: "string \<Rightarrow> token \<times> string" where
  "scan_token [] = (End_of_input, [])"
| "scan_token (c # s) =
     (if c = CHR ''['' then (Begin_array, s)
      else if c = CHR '']'' then (End_array, s)
      else if c = CHR ''{'' then (Begin_object, s)
      else if c = CHR ''}'' then (End_object, s)
      else if c = CHR '':'' then (Name_separator, s)
      else if c = CHR '','' then (Value_separator, s)
      else if c = CHR ''t'' then scan_literal ''rue'' Literal_true s
      else if c = CHR ''f'' then scan_literal ''alse'' Literal_false s
      else if c = CHR ''n'' then scan_literal ''ull'' Literal_null s
      else if c = CHR 0x22 then (case scan_string [] s of None \<Rightarrow> (Parse_error, []) | Some (v, r) \<Rightarrow> (Value_string v, r))
      else if c = CHR ''-'' \<or> is_digit c then scan_number c s
      else if c = CHR 0x00 then (End_of_input, s)
      else (Parse_error, []))"

definition scan :: "string \<Rightarrow> token \<times> string" where
  "scan s = scan_token (dropWhile is_whitespace s)"

lemma scan_string_shorter: "scan_string buf s = Some (v, r) \<Longrightarrow> length r < length s"
proof (induction "length s" arbitrary: buf s rule: less_induct)
  case less
  have IH: "length r < Suc (length s'')" if "scan_string buf' s' = Some (v, r)" "length s' \<le> length s''"
    "length s'' < length s" for buf' s' s''
    using less.hyps [of s' buf'] that by fastforce
  show ?case
    using less.prems
    by (cases s) (auto simp: Let_def split: if_splits option.splits
      dest!: scan_escape_shorter next_byte_shorter intro: IH)
qed

lemma scan_number_shorter: "scan_number_from st ty buf s = Some (ty', buf', r) \<Longrightarrow> length r \<le> length s"
  by (induction s arbitrary: st ty buf) (fastforce split: if_splits option.splits)+

lemma convert_number_not_eoi [simp]: "convert_number ty buf \<noteq> End_of_input"
  by (simp add: convert_number_def split: number_type.splits)

lemma scan_token_shorter:
  "scan_token s = (t, r) \<Longrightarrow> length r \<le> length s \<and> (t \<noteq> End_of_input \<longrightarrow> length r < length s)"
  by (cases s) (auto simp: scan_literal_def scan_number_def Let_def split: if_splits option.splits
      dest: scan_string_shorter scan_number_shorter)

lemma scan_shorter:
  "scan s = (t, r) \<Longrightarrow> length r \<le> length s \<and> (t \<noteq> End_of_input \<longrightarrow> length r < length s)"
  using scan_token_shorter [of "dropWhile is_whitespace s" t r] length_dropWhile_le [of is_whitespace s]
  by (auto simp: scan_def)

section \<open>Parser\<close>

text \<open>
  An open container of \<^verbatim>\<open>states\<close> and \<^verbatim>\<open>ref_stack\<close>: the elements so far, and for an object the
  pending key whose value is being parsed.
\<close>

datatype frame = Frame_array "json list" | Frame_object "(string \<times> json) list" string

text \<open>
  The loop of \<^verbatim>\<open>sax_parse_internal\<close> with the DOM-building handler. The second argument is the last
  token at the head of the loop, or the value just completed at the state evaluation.
\<close>

abbreviation (input) parse_error_101 :: "'a res" where
  "parse_error_101 \<equiv> Inl (Json_parse_error ''101'')"

function parse_loop :: "frame list \<Rightarrow> token + json \<Rightarrow> string \<Rightarrow> (json \<times> string) res" where
  "parse_loop fs (Inl t) s = (case t of
       Begin_object \<Rightarrow> (case scan s of
           (End_object, s1) \<Rightarrow> parse_loop fs (Inr (JObject [])) s1
         | (Value_string k, s1) \<Rightarrow> (case scan s1 of
               (Name_separator, s2) \<Rightarrow> (case scan s2 of (t', s3) \<Rightarrow> parse_loop (Frame_object [] k # fs) (Inl t') s3)
             | _ \<Rightarrow> parse_error_101)
         | _ \<Rightarrow> parse_error_101)
     | Begin_array \<Rightarrow> (case scan s of (t', s1) \<Rightarrow>
           if t' = End_array then parse_loop fs (Inr (JArray [])) s1
           else parse_loop (Frame_array [] # fs) (Inl t') s1)
     | Value_float \<Rightarrow> Inl (Not_modelled ''floating-point number'')
     | Literal_false \<Rightarrow> parse_loop fs (Inr (JBool False)) s
     | Literal_null \<Rightarrow> parse_loop fs (Inr JNull) s
     | Literal_true \<Rightarrow> parse_loop fs (Inr (JBool True)) s
     | Value_integer i \<Rightarrow> parse_loop fs (Inr (JInteger i)) s
     | Value_string str \<Rightarrow> parse_loop fs (Inr (JString str)) s
     | Value_unsigned n \<Rightarrow> parse_loop fs (Inr (JUnsigned n)) s
     | _ \<Rightarrow> parse_error_101)"
| "parse_loop [] (Inr v) s = Inr (v, s)"
| "parse_loop (Frame_array vs # fs) (Inr v) s = (case scan s of
       (Value_separator, s1) \<Rightarrow> (case scan s1 of (t, s2) \<Rightarrow> parse_loop (Frame_array (vs @ [v]) # fs) (Inl t) s2)
     | (End_array, s1) \<Rightarrow> parse_loop fs (Inr (JArray (vs @ [v]))) s1
     | _ \<Rightarrow> parse_error_101)"
| "parse_loop (Frame_object kvs k # fs) (Inr v) s = (case scan s of
       (Value_separator, s1) \<Rightarrow> (case scan s1 of
           (Value_string k', s2) \<Rightarrow> (case scan s2 of
               (Name_separator, s3) \<Rightarrow>
                 (case scan s3 of (t, s4) \<Rightarrow> parse_loop (Frame_object (obj_put k v kvs) k' # fs) (Inl t) s4)
             | _ \<Rightarrow> parse_error_101)
         | _ \<Rightarrow> parse_error_101)
     | (End_object, s1) \<Rightarrow> parse_loop fs (Inr (JObject (obj_put k v kvs))) s1
     | _ \<Rightarrow> parse_error_101)"
  by pat_completeness auto

definition loop_measure :: "frame list \<times> (token + json) \<times> string \<Rightarrow> nat" where
  "loop_measure = (\<lambda>(fs, m, s). 2 * length s + (case m of Inl t \<Rightarrow> if t = End_of_input then 0 else 2 | Inr v \<Rightarrow> 1))"

lemma loop_measure_simps [simp]:
  "loop_measure (fs, Inl t, s) = 2 * length s + (if t = End_of_input then 0 else 2)"
  "loop_measure (fs, Inr v, s) = 2 * length s + 1"
  by (simp_all add: loop_measure_def)

termination parse_loop
  by (relation "measure loop_measure") (auto dest!: scan_shorter [OF sym] simp: not_less)

text \<open>\<^verbatim>\<open>json::parse(text)\<close> (strict), and \<^verbatim>\<open>stream >> j\<close>, which leaves the rest of the stream unread.\<close>

definition json_read :: "string \<Rightarrow> (json \<times> string) res" where
  "json_read s = (case skip_bom s of None \<Rightarrow> parse_error_101
     | Some s1 \<Rightarrow> (case scan s1 of (t, s2) \<Rightarrow> parse_loop [] (Inl t) s2))"

definition json_parse :: "string \<Rightarrow> json res" where
  "json_parse s = rbind (json_read s) (\<lambda>(v, r). if fst (scan r) = End_of_input then Inr v else parse_error_101)"

section \<open>Vocabulary of the round trip\<close>

text \<open>The value a dumped value is parsed back to.\<close>

fun json_norm :: "json \<Rightarrow> json" where
  "json_norm (JInteger x) = (if sint x < 0 then JInteger x else JUnsigned x)"
| "json_norm (JArray vs) = JArray (map json_norm vs)"
| "json_norm (JObject kvs) = JObject (map (\<lambda>(k, v). (k, json_norm v)) kvs)"
| "json_norm j = j"

text \<open>The bounds of the partial code point in each state of the decoder.\<close>

definition codepoint_ok :: "nat \<Rightarrow> u32 \<Rightarrow> bool" where
  "codepoint_ok state cp \<longleftrightarrow> unat cp < 2 ^ 15 \<and>
     (state = 2 \<longrightarrow> 2 \<le> unat cp) \<and> (state \<in> {3, 5} \<longrightarrow> 1 \<le> unat cp \<and> unat cp < 2 ^ 9) 
     \<and> (state \<in> {4, 6} \<longrightarrow> unat cp = 0) \<and> (state \<in> {7, 8} \<longrightarrow> 1 \<le> unat cp \<and> unat cp < 8)"

definition ws_string :: "string \<Rightarrow> bool" where
  "ws_string w \<longleftrightarrow> list_all is_whitespace w"

text \<open>What may follow a number without being taken for a part of it.\<close>

definition ends_number :: "string \<Rightarrow> bool" where
  "ends_number k \<longleftrightarrow> (case k of [] \<Rightarrow> True | c # _ \<Rightarrow> \<not> is_digit c \<and> c \<notin> set ''.eE'')"

definition parse_value :: "frame list \<Rightarrow> string \<Rightarrow> (json \<times> string) res" where
  "parse_value fs s = (case scan s of (t, r) \<Rightarrow> parse_loop fs (Inl t) r)"

definition parse_member :: "frame list \<Rightarrow> (string \<times> json) list \<Rightarrow> string \<Rightarrow> (json \<times> string) res" where
  "parse_member fs kvs s = (case scan s of
       (Value_string k, s1) \<Rightarrow> (case scan s1 of
           (Name_separator, s2) \<Rightarrow> parse_value (Frame_object kvs k # fs) s2 | _ \<Rightarrow> parse_error_101)
     | _ \<Rightarrow> parse_error_101)"

text \<open>The text \<open>out\<close> stands for the value \<open>v\<close> wherever a value may stand.\<close>

definition denotes :: "string \<Rightarrow> json \<Rightarrow> bool" where
  "denotes out v \<longleftrightarrow> (\<forall>fs k. ends_number k \<longrightarrow>
     parse_value fs (out @ k) = parse_loop fs (Inr v) k \<and> fst (scan (out @ k)) \<notin> {End_array, End_object})"

text \<open>Printable ASCII without quotation mark and backslash: the strings the program itself writes.\<close>

definition plain :: "string \<Rightarrow> bool" where
  "plain s \<longleftrightarrow> list_all (\<lambda>c. 32 \<le> (of_char c :: nat) \<and> of_char c < (128 :: nat) \<and> c \<noteq> CHR 0x22 \<and> c \<noteq> CHR 0x5C) s"

definition ascii :: "string \<Rightarrow> bool" where
  "ascii s \<longleftrightarrow> list_all (\<lambda>c. of_char c < (128 :: nat)) s"

fun json_ascii :: "json \<Rightarrow> bool" where
  "json_ascii (JString s) \<longleftrightarrow> ascii s"
| "json_ascii (JArray vs) \<longleftrightarrow> list_all json_ascii vs"
| "json_ascii (JObject kvs) \<longleftrightarrow> list_all (\<lambda>(k, v). ascii k \<and> json_ascii v) kvs"
| "json_ascii _ \<longleftrightarrow> True"

section \<open>Scanning strings\<close>

lemma unat_mask_and: "b < 256 \<Longrightarrow> unat ((mask k :: u32) AND of_nat b) = b mod 2 ^ k"
proof -
  assume "b < 256"
  have "unat ((mask k :: u32) AND of_nat b) = unat (take_bit k (of_nat b :: u32))"
    by (simp add: take_bit_eq_mask and.commute)
  also have "\<dots> = take_bit k (unat (of_nat b :: u32))" by (rule unsigned_take_bit_eq)
  also have "unat (of_nat b :: u32) = b" using \<open>b < 256\<close> by (simp add: unat_of_nat)
  finally show ?thesis by (simp add: take_bit_eq_mod)
qed

lemma unat_continuation:
  assumes "b < 256" and "unat (cp :: u32) < 2 ^ 26"
  shows "unat ((of_nat b AND 0x3F) OR push_bit 6 cp) = b mod 64 + 64 * unat cp"
proof -
  have m: "(0x3F :: u32) = mask 6" by (simp add: mask_eq_exp_minus_1)
  have "(of_nat b AND 0x3F) OR push_bit 6 cp = (of_nat b AND 0x3F) + push_bit 6 cp"
    by (rule disjunctive_add_eq_or [symmetric]) (auto simp: bit_eq_iff bit_simps m)
  moreover have "unat (of_nat b AND (0x3F :: u32)) = b mod 64"
    using unat_mask_and [OF assms(1), of 6] by (simp add: m and.commute)
  moreover have "unat (push_bit 6 cp) = 64 * unat cp"
    using assms(2) unfolding unsigned_push_bit_eq by (simp add: push_bit_eq_mult take_bit_eq_mod)
  ultimately show ?thesis
    using assms(2) by (simp add: unat_word_ariths)
qed

lemma mod_eq_minus: "m dvd k \<Longrightarrow> k \<le> b \<Longrightarrow> b < k + m \<Longrightarrow> b mod m = b - (k :: nat)"
proof -
  assume "m dvd k" and "k \<le> b" and "b < k + m"
  then obtain c where "k = m * c" by (elim dvdE)
  then have "b = m * c + (b - k)" using \<open>k \<le> b\<close> by simp
  then have "b mod m = (b - k) mod m" by (metis mod_mult_self4)
  then show ?thesis using \<open>k \<le> b\<close> \<open>b < k + m\<close> by simp
qed

lemma codepoint_lead:
  assumes "b < 256" and "lead_state b \<in> {2..8}"
  shows "codepoint_ok (lead_state b) (snd (decode 0 cp b))"
proof -
  have "drop_bit t (mask 8 :: u32) = mask (8 - t)" for t
    by (rule bit_word_eqI) (auto simp: bit_simps)
  moreover have "(mask 8 :: u32) = 0xFF" by (simp add: mask_eq_exp_minus_1)
  ultimately have "drop_bit t (0xFF :: u32) = mask (8 - t)" for t by simp
  then have c: "unat (snd (decode 0 cp b)) = b mod 2 ^ (8 - byte_class b)"
    using unat_mask_and [OF assms(1)] by (simp add: decode_def Let_def utf8d_class assms(1))
  have "b \<in> {0xC2..<0xE0} \<or> b = 0xE0 \<or> b \<in> {0xE1..<0xED} \<or> b = 0xED \<or> b \<in> {0xEE..<0xF0} \<or> b = 0xF0
     \<or> b \<in> {0xF1..<0xF4} \<or> b = 0xF4"
    using assms(2) by (simp add: lead_state_def split: if_splits) linarith+
  then show ?thesis
    using assms(1) unfolding codepoint_ok_def c
    by (elim disjE) (simp_all add: byte_class_def lead_state_def mod_eq_minus [of 64 192]
        mod_eq_minus [of 32 224] mod_eq_minus [of 4 240], linarith+)
qed

lemma codepoint_continuation:
  assumes "b < 256" and "state \<in> {2..8}" and "codepoint_ok state cp"
    and "fst (hd (pending_ranges state)) \<le> b" and "b \<le> snd (hd (pending_ranges state))"
  shows "state \<noteq> 2 \<Longrightarrow> codepoint_ok (next_state state) (snd (decode state cp b))"
    and "state = 2 \<Longrightarrow> 128 \<le> unat (snd (decode state cp b))"
proof -
  have c: "unat (snd (decode state cp b)) = b mod 64 + 64 * unat cp"
    using unat_continuation [of b cp] assms by (auto simp: decode_def Let_def codepoint_ok_def)
  show "state = 2 \<Longrightarrow> 128 \<le> unat (snd (decode state cp b))"
    using c assms(3) by (simp add: codepoint_ok_def)
  have b: "b mod 64 = b - 128"
    using assms(2,4,5) by (intro mod_eq_minus) (auto simp: pending_ranges_def split: if_splits)
  assume "state \<noteq> 2"
  then have "state = 3 \<or> state = 4 \<or> state = 5 \<or> state = 6 \<or> state = 7 \<or> state = 8"
    using assms(2) by auto
  then show "codepoint_ok (next_state state) (snd (decode state cp b))"
    using assms(1,3,4,5) unfolding codepoint_ok_def c b
    by (elim disjE) (simp_all add: next_state_def pending_ranges_def, linarith+)
qed

lemma lead_ranges_state:
  "lead_state b \<in> {2..8} \<Longrightarrow> lead_ranges b = Some (pending_ranges (lead_state b)) \<and> 0x80 \<le> b"
  by (simp add: lead_state_def lead_ranges_def pending_ranges_def split: if_splits) linarith?

lemma hex_value_hex_digit [simp]: "d < 16 \<Longrightarrow> hex_value (hex_digit d) = Some d"
  by (simp add: hex_value_def hex_digit_def Let_def)

lemma scan_u_escape:
  assumes "n < 0x20"
  shows "scan_escape (tl (u_escape n) @ s) = Some ([char_of n], s)"
proof -
  have "n div 4096 mod 16 = 0" "n div 256 mod 16 = 0" "n div 16 mod 16 = n div 16" "n mod 16 < 16" "n div 16 < 16"
    "n div 16 * 16 + n mod 16 = n"
    using assms by simp_all
  then show ?thesis
    using assms by (simp add: u_escape_def scan_unicode_def encode_utf8_def)
qed

lemma scan_escape_codepoint:
  assumes "of_char c < (128 :: nat)"
  shows "scan_string buf (escape_codepoint False (of_nat (of_char c)) c @ s) = scan_string (buf @ [c]) s"
proof -
  define n :: nat where "n = of_char c"
  have n: "n < 128" "c = char_of n" using assms by (simp_all add: n_def)
  have u': "unat (of_nat m :: u32) = m" if "m < 128" for m using that by (simp add: unat_of_nat)
  note u = u' [OF n(1)]
  have w: "(of_nat n :: u32) = numeral k \<longleftrightarrow> n = numeral k" if "numeral k < (128 :: nat)" for k
    using u u' [OF that] by (metis of_nat_numeral)
  consider "n \<in> {8, 9, 10, 12, 13, 0x22, 0x5C}" | "n \<notin> {8, 9, 10, 12, 13, 0x22, 0x5C}" "n < 0x20"
    | "n \<notin> {8, 9, 10, 12, 13, 0x22, 0x5C}" "0x20 \<le> n" by linarith
  then show ?thesis
  proof cases
    case 1
    then show ?thesis unfolding n_def [symmetric] n(2)
      by (elim insertE emptyE) (simp_all add: escape_codepoint_def Let_def char_of_def bit_0)
  next
    case 2
    then have "(of_nat n :: u32) \<le> 0x1F" "(of_nat n :: u32) \<le> 0xFFFF"
      using n(1) by (simp_all add: word_le_nat_alt u)
    then have "escape_codepoint False (of_nat n) c = u_escape n"
      using 2 by (simp add: escape_codepoint_def w u)
    moreover have "u_escape n = CHR 0x5C # tl (u_escape n)" by (simp add: u_escape_def)
    moreover have "scan_string buf (CHR 0x5C # tl (u_escape n) @ s) = scan_string (buf @ [c]) s"
      using scan_u_escape [OF 2(2), of s] n(2) by simp
    ultimately show ?thesis unfolding n_def [symmetric] by (metis append_Cons)
  next
    case 3
    then have "\<not> (of_nat n :: u32) \<le> 0x1F" using n(1) by (simp add: word_le_nat_alt u)
    then show ?thesis
      using 3 n(1) by (simp add: escape_codepoint_def w Let_def flip: n_def)
  qed
qed

lemma escape_non_ascii: "128 \<le> unat cp \<Longrightarrow> escape_codepoint False cp c = [c]"
  by (auto simp: escape_codepoint_def word_le_nat_alt)

lemma decode_ascii:
  assumes "b < 128" shows "decode 0 cp b = (0, of_nat b)"
proof -
  have "unat (0xFF AND of_nat b :: u32) = unat (of_nat b :: u32)"
    using unat_mask_and [of b 8] assms by (simp add: mask_eq_exp_minus_1 unat_of_nat)
  then show ?thesis
    using assms lead_states [of b cp] by (simp add: decode_def Let_def utf8d_class byte_class_def
        lead_state_def word_unat_eq_iff)
qed

lemma dump_bytes_scan:
  assumes "dump_bytes False state cp s = Inr out" and "state \<noteq> 0 \<Longrightarrow> state \<in> {2..8} \<and> codepoint_ok state cp"
  shows "\<exists>pre r. next_byte_in_range (pending_ranges state) (out @ CHR 0x22 # k) = Some (pre, r)
           \<and> scan_string (buf @ pre) r = Some (buf @ s, k)"
  using assms
proof (induction s arbitrary: state cp out buf)
  case Nil
  then show ?case by (simp add: pending_ranges_def split: if_splits)
next
  case (Cons c s)
  let ?b = "of_char c :: nat"
  obtain state' cp' where d: "decode state cp ?b = (state', cp')" by force
  have nz: "pending_ranges 0 = []" by (simp add: pending_ranges_def)
  consider (ascii) "state = 0" "?b < 128" | (lead) "state = 0" "128 \<le> ?b"
    | (cont) "state \<in> {2..8}" "codepoint_ok state cp"
    using Cons.prems(2) by (cases "?b < 128") auto
  then show ?case
  proof cases
    case ascii
    then obtain out' where "dump_bytes False 0 (of_nat ?b) s = Inr out'"
      and "out = escape_codepoint False (of_nat ?b) c @ out'"
      using Cons.prems(1) decode_ascii [of ?b cp] by auto
    then show ?thesis
      using Cons.IH [of 0 "of_nat ?b" out' "buf @ [c]"] ascii by (simp add: nz scan_escape_codepoint)
  next
    case lead
    have s': "state' = lead_state ?b" using lead_states [of ?b cp] lead(1) d by simp
    have "state' \<noteq> 0" using lead(2) s' by (simp add: lead_state_def split: if_splits)
    moreover from this have "state' \<noteq> 1" using Cons.prems(1) d by auto
    ultimately have st: "lead_state ?b \<in> {2..8}" using s' by (simp add: lead_state_def split: if_splits)
    then obtain out' where o: "dump_bytes False state' cp' s = Inr out'" "out = c # out'"
      using Cons.prems(1) d s' by auto
    have "codepoint_ok state' cp'" using codepoint_lead [OF _ st, of cp] d s' lead(1) by simp
    then show ?thesis
      using Cons.IH [OF o(1), of "buf @ [c]"] o(2) st s' lead lead_ranges_state [OF st] 
      by (auto simp: nz Let_def)
  next
    case cont
    let ?h = "hd (pending_ranges state)"
    have ne: "pending_ranges state = ?h # tl (pending_ranges state)"
      using cont(1) by (auto simp: pending_ranges_def)
    have in_range: "fst ?h \<le> ?b \<and> ?b \<le> snd ?h" and s': "state' = next_state state"
      using continuation_states [of ?b state cp] cont(1) Cons.prems(1) d by (auto split: if_splits)
    obtain out' where o: "dump_bytes False state' cp' s = Inr out'" "out = c # out'"
      using Cons.prems(1) d codepoint_continuation(2) [of ?b state cp] cont in_range s'
      by (auto simp: next_state_def escape_non_ascii split: if_splits)
    have "state' \<noteq> 0 \<Longrightarrow> state' \<in> {2..8} \<and> codepoint_ok state' cp'"
      using codepoint_continuation(1) [of ?b state cp] cont in_range s' d pending_next [of state]
      by (auto simp: next_state_def)
    moreover have "pending_ranges state' = tl (pending_ranges state)"
      using cont(1) s' pending_next [of state] nz by (auto simp: pending_ranges_def next_state_def)
    ultimately show ?thesis
      using Cons.IH [OF o(1), of "buf @ [c]"] o(2) in_range 
      by (subst ne) (cases ?h, auto)
  qed
qed

lemma scan_dumped_string:
  assumes "dump_escaped s False = Inr out"
  shows "scan_string [] (out @ CHR 0x22 # k) = Some (s, k)"
  using dump_bytes_scan [of 0 0 s out k "[]"] assms by (simp add: dump_escaped_def pending_ranges_def)

section \<open>Scanning what was written\<close>

lemma ws_string_simps [simp]: "ws_string []" "ws_string newline" "ws_string (indentation n)" "ws_string '' ''"
  "ws_string (v @ w) \<longleftrightarrow> ws_string v \<and> ws_string w"
  by (auto simp: ws_string_def newline_def indentation_def is_whitespace_def list_all_iff)

lemma scan_ws [simp]: "ws_string w \<Longrightarrow> scan (w @ s) = scan s"
  by (simp add: scan_def ws_string_def dropWhile_append2 list_all_iff)

lemma scan_Cons [simp]: "\<not> is_whitespace c \<Longrightarrow> scan (c # s) = scan_token (c # s)"
  by (simp add: scan_def)

lemma scan_digits:
  assumes "list_all is_digit ds" and "ends_number k"
  shows "scan_number_from Any1 ty buf (ds @ k) = Some (ty, buf @ ds, k)"
  using assms
proof (induction ds arbitrary: buf)
  case Nil
  then show ?case by (cases k) (auto simp: ends_number_def number_goto_def number_done_def)
next
  case (Cons d ds)
  then show ?case by (simp add: number_goto_def number_type_in_def)
qed

lemma scan_zero: "ends_number k \<Longrightarrow> scan_number_from Zero ty buf k = Some (ty, buf, k)"
  by (cases k) (auto simp: ends_number_def number_goto_def number_done_def)

lemma not_digits [simp]:
  "\<not> is_digit (CHR ''['')" "\<not> is_digit (CHR '']'')" "\<not> is_digit (CHR ''{'')" "\<not> is_digit (CHR ''}'')"
  "\<not> is_digit (CHR '':'')" "\<not> is_digit (CHR '','')" "\<not> is_digit (CHR ''t'')" "\<not> is_digit (CHR ''f'')"
  "\<not> is_digit (CHR ''n'')" "\<not> is_digit (CHR 0x22)" "\<not> is_digit (CHR ''-'')" "\<not> is_digit (CHR 0x00)"
  "\<not> is_digit (CHR '' '')" "\<not> is_digit (CHR 0x09)" "\<not> is_digit (CHR 0x0A)" "\<not> is_digit (CHR 0x0D)"
  by (simp_all add: is_digit_def)

lemma scan_token_digit: "is_digit d \<Longrightarrow> scan_token (d # s) = scan_number d s \<and> \<not> is_whitespace d \<and> d \<noteq> CHR ''-''"
proof -
  assume "is_digit d"
  then have ne: "d \<noteq> x" if "\<not> is_digit x" for x using that by auto
  show ?thesis using \<open>is_digit d\<close> by (simp add: ne is_whitespace_def)
qed

lemma scan_show_nat:
  assumes "n < 2 ^ 64" and "ends_number k"
  shows "scan (show_nat n @ k) = (Value_unsigned (of_nat n), k)"
proof -
  obtain d ds where s: "show_nat n = d # ds" by (cases "show_nat n") auto
  have dig: "is_digit d" "list_all is_digit ds" using show_nat_digits [of n] s by simp_all
  have zero: "n = 0 \<and> ds = []" if "d = CHR ''0''"
  proof (rule ccontr)
    assume "\<not> (n = 0 \<and> ds = [])"
    then have "0 < n" using s by (cases "n = 0") auto
    then show False using hd_show_nat [of n] s that digit_0 by simp
  qed
  have "read_digits (d # ds) = n" using read_digits_show_nat [of n] s by simp
  then show ?thesis
    using assms s dig zero scan_token_digit [OF dig(1), of "ds @ k"]
    by (cases "d = CHR ''0''")
      (simp_all add: scan_number_def number_type_in_def scan_digits scan_zero convert_number_def)
qed

lemma scan_show_negative:
  assumes "0 < n" and "n \<le> 2 ^ 63" and "ends_number k"
  shows "scan (CHR ''-'' # show_nat n @ k) = (Value_integer (- of_nat n), k)"
proof -
  obtain d ds where s: "show_nat n = d # ds" by (cases "show_nat n") auto
  have dig: "is_digit d" "list_all is_digit ds" using show_nat_digits [of n] s by simp_all
  have "d \<noteq> CHR ''0''" using hd_show_nat [OF assms(1)] s digit_0 by simp
  moreover have "read_digits (d # ds) = n" using read_digits_show_nat [of n] s by simp
  ultimately show ?thesis
    using assms s dig by (simp add: is_whitespace_def scan_number_def number_type_in_def scan_digits
        convert_number_def number_goto_def is_digit_1_9_def)
qed

section \<open>The round trip of values\<close>

lemma parse_value_ws [simp]: "ws_string w \<Longrightarrow> parse_value fs (w @ s) = parse_value fs s"
  by (simp add: parse_value_def)

lemma parse_value_space [simp]: "parse_value fs (CHR '' '' # s) = parse_value fs s"
  using parse_value_ws [of "'' ''" fs s] by (simp del: parse_value_ws)

lemma parse_member_ws [simp]: "ws_string w \<Longrightarrow> parse_member fs kvs (w @ s) = parse_member fs kvs s"
  by (simp add: parse_member_def)

lemma not_whitespace [simp]:
  "\<not> is_whitespace (CHR ''['')" "\<not> is_whitespace (CHR '']'')" "\<not> is_whitespace (CHR ''{'')"
  "\<not> is_whitespace (CHR ''}'')" "\<not> is_whitespace (CHR '':'')" "\<not> is_whitespace (CHR '','')"
  "\<not> is_whitespace (CHR 0x22)" "\<not> is_whitespace (CHR ''t'')" "\<not> is_whitespace (CHR ''f'')"
  "\<not> is_whitespace (CHR ''n'')" "\<not> is_whitespace (CHR ''-'')"
  by (simp_all add: is_whitespace_def)

lemma ends_number_punct [simp]:
  "ends_number (CHR '','' # k)" "ends_number (CHR '']'' # k)" "ends_number (CHR ''}'' # k)" "ends_number []"
  by (simp_all add: ends_number_def is_digit_def)

lemma ends_number_ws: "ws_string w \<Longrightarrow> ends_number k \<Longrightarrow> ends_number (w @ k)"
  by (cases w) (auto simp: ends_number_def ws_string_def is_whitespace_def is_digit_def)

lemma join_Cons: "ss \<noteq> [] \<Longrightarrow> join sep (s # ss) = s @ sep @ join sep ss"
  by (cases ss) simp_all

declare parse_loop.simps(1) [simp del]

lemma parse_value_fold [simp]: "(case scan s of (t, r) \<Rightarrow> parse_loop fs (Inl t) r) = parse_value fs s"
  by (simp only: parse_value_def)

lemma parse_loop_tokens [simp]:
  "parse_loop fs (Inl Literal_false) s = parse_loop fs (Inr (JBool False)) s"
  "parse_loop fs (Inl Literal_true) s = parse_loop fs (Inr (JBool True)) s"
  "parse_loop fs (Inl Literal_null) s = parse_loop fs (Inr JNull) s"
  "parse_loop fs (Inl (Value_integer i)) s = parse_loop fs (Inr (JInteger i)) s"
  "parse_loop fs (Inl (Value_unsigned i)) s = parse_loop fs (Inr (JUnsigned i)) s"
  "parse_loop fs (Inl (Value_string str)) s = parse_loop fs (Inr (JString str)) s"
  by (simp_all add: parse_loop.simps(1))

lemma parse_loop_comma [simp]:
  "parse_loop (Frame_array vs # fs) (Inr v) (CHR '','' # s) = parse_value (Frame_array (vs @ [v]) # fs) s"
  "parse_loop (Frame_object kvs k # fs) (Inr v) (CHR '','' # s) = parse_member fs (obj_put k v kvs) s"
  unfolding parse_member_def parse_value_def by simp_all

lemma parse_array_elements:
  assumes "list_all2 denotes es vs" and "vs \<noteq> []" and "ws_string w" and "ws_string u" and "ws_string post"
  shows "parse_value (Frame_array acc # fs) (join (CHR '','' # u) (map ((@) w) es) @ post @ CHR '']'' # k)
       = parse_loop fs (Inr (JArray (acc @ vs))) k"
  using assms(1,2)
proof (induction es vs arbitrary: acc rule: list_all2_induct)
  case (Cons e es v vs)
  then have d: "\<And>fs k. ends_number k \<Longrightarrow> parse_value fs (e @ k) = parse_loop fs (Inr v) k"
    by (simp add: denotes_def)
  show ?case
  proof (cases "vs = []")
    case True
    then show ?thesis
      using Cons.hyps(2) assms(3,5) by (simp add: d ends_number_ws)
  next
    case False
    then have "es \<noteq> []" using Cons.hyps(2) by auto
    then show ?thesis
      using Cons.IH [OF False, of "acc @ [v]"] assms(3,4) d
      by (simp add: join_Cons)
  qed
qed simp

lemma parse_object_members:
  assumes "list_all2 (\<lambda>e (k, v). \<exists>key val. e = quoted key @ colon @ val \<and> dump_escaped k False = Inr key \<and> denotes val v) es kvs"
    and "kvs \<noteq> []" and "sorted_wrt (<) (map fst (acc @ kvs))"
    and "colon = '':'' \<or> colon = '': ''" and "ws_string w" and "ws_string u" and "ws_string post"
  shows "parse_member fs acc (join (CHR '','' # u) (map ((@) w) es) @ post @ CHR ''}'' # k)
       = parse_loop fs (Inr (JObject (acc @ kvs))) k"
  using assms(1,2,3)
proof (induction es kvs arbitrary: acc rule: list_all2_induct)
  case (Cons e es p kvs)
  obtain k' v where p: "p = (k', v)" by (cases p)
  with Cons.hyps obtain key val where e: "e = quoted key @ colon @ val" "dump_escaped k' False = Inr key"
    and den: "denotes val v" by auto
  have m: "parse_member fs acc (e @ r) = parse_value (Frame_object acc k' # fs) (val @ r)" for r
    using assms(4) scan_dumped_string [OF e(2)] 
    by (auto simp: parse_member_def e(1) quoted_def)
  have d: "\<And>fs k. ends_number k \<Longrightarrow> parse_value fs (val @ k) = parse_loop fs (Inr v) k"
    using den by (simp add: denotes_def)
  have put: "obj_put k' v acc = acc @ [(k', v)]"
    using Cons.prems(2) p by (intro obj_put_last) (auto simp: sorted_wrt_append)
  show ?case
  proof (cases "kvs = []")
    case True
    then show ?thesis
      using Cons.hyps(2) assms(5,7) p by (simp add: m d ends_number_ws put)
  next
    case False
    then have "es \<noteq> []" using Cons.hyps(2) by auto
    moreover have "parse_member fs (acc @ [(k', v)]) (join (CHR '','' # u) (map ((@) w) es) @ post @ CHR ''}'' # k)
       = parse_loop fs (Inr (JObject ((acc @ [(k', v)]) @ kvs))) k"
      using Cons.prems(2) p False by (intro Cons.IH) simp_all
    ultimately show ?thesis
      using assms(5,6) p by (simp add: join_Cons m d put del: parse_loop.simps(4))
  qed
qed simp


lemma parse_value_open [simp]:
  "fst (scan s) \<noteq> End_array \<Longrightarrow> parse_value fs (CHR ''['' # s) = parse_value (Frame_array [] # fs) s"
  "fst (scan s) \<noteq> End_object \<Longrightarrow> parse_value fs (CHR ''{'' # s) = parse_member fs [] s"
proof -
  obtain t r where t: "scan s = (t, r)" by force
  show "fst (scan s) \<noteq> End_array \<Longrightarrow> parse_value fs (CHR ''['' # s) = parse_value (Frame_array [] # fs) s"
    by (simp add: parse_value_def parse_loop.simps(1) [of _ Begin_array] t)
  show "fst (scan s) \<noteq> End_object \<Longrightarrow> parse_value fs (CHR ''{'' # s) = parse_member fs [] s"
    unfolding parse_member_def parse_value_def using t
    by (cases t) (simp_all add: parse_loop.simps(1) [of _ Begin_object])
qed

lemma parse_value_empty [simp]:
  "parse_value fs (CHR ''['' # CHR '']'' # s) = parse_loop fs (Inr (JArray [])) s"
  "parse_value fs (CHR ''{'' # CHR ''}'' # s) = parse_loop fs (Inr (JObject [])) s"
  by (simp_all add: parse_value_def parse_loop.simps(1))

lemma denotes_scan: "denotes out v \<Longrightarrow> ends_number k \<Longrightarrow> fst (scan (out @ k)) \<notin> {End_array, End_object}"
  by (simp add: denotes_def)

lemma scan_join:
  assumes "es \<noteq> []" and "ws_string w" and "ends_number r" and "denotes (hd es) v"
  shows "fst (scan (join (CHR '','' # u) (map ((@) w) es) @ r)) \<notin> {End_array, End_object}"
proof -
  obtain e es' where es: "es = e # es'" using assms(1) by (cases es) auto
  show ?thesis
    using assms(2,3) denotes_scan [OF assms(4)] es by (cases es') simp_all
qed

lemma denotes_array:
  assumes "list_all2 denotes es vs" and "vs \<noteq> []"
  shows "denotes (dump_container pp ni ci (CHR ''['') (CHR '']'') es) (JArray vs)"
proof -
  define w where "w = (if pp then indentation ni else [])"
  define u where "u = (if pp then newline else [])"
  define post where "post = (if pp then newline @ indentation ci else [])"
  define pre where "pre = (if pp then newline else [])"
  have ws: "ws_string w" "ws_string u" "ws_string post" "ws_string pre"
    by (simp_all add: w_def u_def post_def pre_def)
  have id: "map ((@) []) es = es" by (simp add: map_idI)
  have out: "dump_container pp ni ci (CHR ''['') (CHR '']'') es
     = CHR ''['' # pre @ join (CHR '','' # u) (map ((@) w) es) @ post @ '']''"
    by (simp add: dump_container_def w_def u_def post_def pre_def id)
  obtain v where "denotes (hd es) v" and "es \<noteq> []"
    using assms by (cases es; cases vs) auto
  then have "fst (scan (join (CHR '','' # u) (map ((@) w) es) @ post @ CHR '']'' # k)) \<noteq> End_array" for k
    using scan_join [of es w "post @ CHR '']'' # k" v u] ws by (simp add: ends_number_ws)
  then show ?thesis
    using parse_array_elements [OF assms ws(1-3), of "[]"] ws(4)
    by (simp add: denotes_def out)
qed

lemma denotes_object:
  assumes "list_all2 (\<lambda>e (k, v). \<exists>key val. e = quoted key @ colon @ val \<and> dump_escaped k False = Inr key \<and> denotes val v) es kvs"
    and "kvs \<noteq> []" and "sorted_wrt (<) (map fst kvs)" and "colon = '':'' \<or> colon = '': ''"
  shows "denotes (dump_container pp ni ci (CHR ''{'') (CHR ''}'') es) (JObject kvs)"
proof -
  define w where "w = (if pp then indentation ni else [])"
  define u where "u = (if pp then newline else [])"
  define post where "post = (if pp then newline @ indentation ci else [])"
  define pre where "pre = (if pp then newline else [])"
  have ws: "ws_string w" "ws_string u" "ws_string post" "ws_string pre"
    by (simp_all add: w_def u_def post_def pre_def)
  have id: "map ((@) []) es = es" by (simp add: map_idI)
  have out: "dump_container pp ni ci (CHR ''{'') (CHR ''}'') es
     = CHR ''{'' # pre @ join (CHR '','' # u) (map ((@) w) es) @ post @ ''}''"
    by (simp add: dump_container_def w_def u_def post_def pre_def id)
  obtain key val k v es' where es: "es = (quoted key @ colon @ val) # es'" and key: "dump_escaped k False = Inr key"
    using assms(1,2) by (cases es; cases kvs) auto
  have "fst (scan (join (CHR '','' # u) (map ((@) w) es) @ r)) \<noteq> End_object" for r
    using scan_dumped_string [OF key] ws(1) es by (cases es') (simp_all add: quoted_def)
  then show ?thesis
    using parse_object_members [OF assms(1,2) _ assms(4) ws(1-3), of "[]"] assms(3) ws(4)
    by (simp add: denotes_def out)
qed

lemma denotes_empty: "denotes ''[]'' (JArray [])" "denotes ''{}'' (JObject [])"
  by (simp_all add: denotes_def)

lemma denotes_atoms:
  "denotes ''null'' JNull" "denotes ''true'' (JBool True)" "denotes ''false'' (JBool False)"
  by (simp_all add: denotes_def parse_value_def scan_literal_def del: parse_value_fold)

lemma denotes_string: "dump_escaped s False = Inr out \<Longrightarrow> denotes (quoted out) (JString s)"
  using scan_dumped_string [of s out] by (simp add: denotes_def parse_value_def quoted_def del: parse_value_fold)

lemma denotes_unsigned: "denotes (show_nat (unat (x :: u64))) (JUnsigned x)"
proof -
  have "unat x < 2 ^ 64" using unsigned_less [of x] by simp
  then show ?thesis using scan_show_nat [of "unat x"] by (simp add: denotes_def parse_value_def del: parse_value_fold)
qed

lemma denotes_signed: "denotes (show_int (sint (x :: u64))) (json_norm (JInteger x))"
proof (cases "sint x < 0")
  case True
  have "nat (- sint x) \<le> 2 ^ 63" using sint_ge [of x] by simp
  moreover have "- of_nat (nat (- sint x)) = x" using True by simp
  ultimately show ?thesis
    using True scan_show_negative [of "nat (- sint x)"] by (simp add: denotes_def parse_value_def show_int_def del: parse_value_fold)
next
  case False
  then have "dump_integer True x = dump_integer False x" by (simp add: dump_integer_def)
  then show ?thesis using False denotes_unsigned [of x]
    by (simp add: dump_integer_unsigned dump_integer_signed)
qed

theorem dump_denotes:
  "dump pp False step ind j = Inr out \<Longrightarrow> json_ok j \<Longrightarrow> denotes out (json_norm j)"
proof (induction pp "False" step ind j arbitrary: out rule: dump.induct)
  case (1 pp step ind kvs)
  show ?case
  proof (cases "kvs = []")
    case False
    let ?ni = "if pp then ind + step else ind" and ?colon = "if pp then '': '' else '':''"
    obtain es where es: "rmap (\<lambda>(k, v). rbind (dump_escaped k False) (\<lambda>key. rbind (dump pp False step ?ni v)
                (\<lambda>val. Inr (quoted key @ ?colon @ val)))) kvs = Inr es"
      and out: "out = dump_container pp ?ni ind (CHR ''{'') (CHR ''}'') es"
      using "1.prems"(1) False by (auto simp: Let_def)
    have den: "\<exists>key val. e = quoted key @ ?colon @ val \<and> dump_escaped k False = Inr key \<and> denotes val (json_norm v)"
      if "(k, v) \<in> set kvs" "rbind (dump_escaped k False) (\<lambda>key. rbind (dump pp False step ?ni v)
                (\<lambda>val. Inr (quoted key @ ?colon @ val))) = Inr e" for k v e
      using that "1.hyps" [OF False refl that(1) refl] "1.prems"(2) by (fastforce simp: list_all_iff)
    have "list_all2 (\<lambda>e (k, v). \<exists>key val. e = quoted key @ ?colon @ val \<and> dump_escaped k False = Inr key
            \<and> denotes val v) es (map (\<lambda>(k, v). (k, json_norm v)) kvs)"
      unfolding list_all2_map2
      by (rule list_all2_mono [OF list_all2_restrict [OF rmap_list_all2 [OF es]]]) (auto dest: den)
    moreover have "map fst (map (\<lambda>(k, v). (k, json_norm v)) kvs) = map fst kvs" by auto
    ultimately show ?thesis
      using False "1.prems"(2) unfolding out json_norm.simps
      by (intro denotes_object [of ?colon]) (simp_all del: map_map)
  qed (use 1 in \<open>auto simp: denotes_empty\<close>)
next
  case (2 pp step ind vs)
  show ?case
  proof (cases "vs = []")
    case False
    let ?ni = "if pp then ind + step else ind"
    obtain es where es: "rmap (dump pp False step ?ni) vs = Inr es"
      and out: "out = dump_container pp ?ni ind (CHR ''['') (CHR '']'') es"
      using "2.prems"(1) False by (auto simp: Let_def)
    have "denotes e (json_norm v)" if "v \<in> set vs" "dump pp False step ?ni v = Inr e" for e v
      using that "2.hyps" [OF False refl, of v e] "2.prems"(2) by (simp add: list_all_iff)
    then have "list_all2 denotes es (map json_norm vs)"
      using rmap_list_all2 [OF es] by (auto simp: list_all2_conv_all_nth)
    then show ?thesis using denotes_array [of es "map json_norm vs"] False out by simp
  qed (use 2 in \<open>auto simp: denotes_empty\<close>)
qed (auto simp: denotes_atoms denotes_string dump_integer_unsigned dump_integer_signed denotes_unsigned denotes_signed
     simp del: json_norm.simps(1))


theorem json_read_dump:
  assumes "dump pp False step ind j = Inr out" and "json_ok j" and "ends_number k"
  shows "json_read (out @ k) = Inr (json_norm j, k)"
proof -
  have d: "denotes out (json_norm j)" by (rule dump_denotes [OF assms(1,2)])
  have "skip_bom (out @ k) = Some (out @ k)"
  proof (cases "out @ k")
    case (Cons c r)
    have "c \<noteq> CHR 0xEF"
    proof
      assume "c = CHR 0xEF"
      then have "scan (out @ k) = (Parse_error, [])"
        using Cons by (simp add: is_whitespace_def is_digit_def)
      then have "parse_value [] (out @ k) = parse_error_101"
        by (simp add: parse_value_def parse_loop.simps(1) del: parse_value_fold)
      then show False using d assms(3) by (simp add: denotes_def)
    qed
    then show ?thesis using Cons by (simp add: skip_bom_def)
  qed (simp add: skip_bom_def)
  then show ?thesis
    using d assms(3) by (simp add: json_read_def denotes_def)
qed

theorem json_parse_dump:
  assumes "dump pp False step ind j = Inr out" and "json_ok j"
  shows "json_parse out = Inr (json_norm j)"
  using json_read_dump [OF assms, of "[]"] by (simp add: json_parse_def scan_def)

section \<open>Plain strings\<close>

lemma escape_plain:
  assumes "32 \<le> (of_char c :: nat)" "of_char c < (128 :: nat)" "c \<noteq> CHR 0x22" "c \<noteq> CHR 0x5C"
  shows "escape_codepoint False (of_nat (of_char c)) c = [c]"
proof -
  have u: "unat (of_nat (of_char c) :: u32) = of_char c" using assms(2) by (simp add: unat_of_nat)
  have "of_char c \<noteq> (of_char (CHR 0x22) :: nat)" and "of_char c \<noteq> (of_char (CHR 0x5C) :: nat)"
    using assms(3,4) by (simp_all del: of_char_Char)
  then have "of_char c \<noteq> (0x22 :: nat)" "of_char c \<noteq> (0x5C :: nat)" by simp_all
  then show ?thesis
    using assms(1) u by (auto simp: escape_codepoint_def word_unat_eq_iff word_le_nat_alt)
qed

lemma dump_escaped_plain [simp]: "plain s \<Longrightarrow> dump_escaped s False = Inr s"
  unfolding dump_escaped_def
proof -
  have "plain s \<Longrightarrow> dump_bytes False 0 cp s = Inr s" for cp
    by (induction s arbitrary: cp) (auto simp: plain_def decode_ascii escape_plain)
  then show "plain s \<Longrightarrow> dump_bytes False 0 0 s = Inr s" .
qed

lemma plain_simps [simp]: "plain []" "plain (s @ t) \<longleftrightarrow> plain s \<and> plain t"
  by (simp_all add: plain_def)

lemma ascii_simps [simp]:
  "ascii []" "ascii (c # s) \<longleftrightarrow> of_char c < (128 :: nat) \<and> ascii s" "ascii (s @ t) \<longleftrightarrow> ascii s \<and> ascii t"
  by (simp_all add: ascii_def)

lemma plain_ascii: "plain s \<Longrightarrow> ascii s"
  by (simp add: plain_def ascii_def list_all_iff)

lemma ascii_hex_digit [simp]: "d < 16 \<Longrightarrow> of_char (hex_digit d) < (128 :: nat)"
  by (simp add: hex_digit_def)

lemma ascii_show_nat [simp]: "ascii (show_nat n)"
  using set_show_nat [of _ n] by (fastforce simp: ascii_def list_all_iff is_digit_def)

lemma ascii_escape: "of_char c < (128 :: nat) \<Longrightarrow> ascii (escape_codepoint False cp c)"
  by (simp add: escape_codepoint_def u_escape_def)

lemma dump_escaped_ascii:
  assumes "ascii s" shows "\<exists>out. dump_escaped s False = Inr out \<and> ascii out"
proof -
  have "\<exists>out. dump_bytes False 0 cp s = Inr out \<and> ascii out" for cp
    using assms
  proof (induction s arbitrary: cp)
    case (Cons c s)
    then obtain out where "dump_bytes False 0 (of_nat (of_char c)) s = Inr out" "ascii out" by auto
    then show ?case using Cons.prems by (simp add: decode_ascii ascii_escape)
  qed simp
  then show ?thesis by (simp add: dump_escaped_def)
qed

lemma ascii_join: "list_all ascii ss \<Longrightarrow> ascii sep \<Longrightarrow> ascii (join sep ss)"
  by (induction sep ss rule: join.induct) simp_all

lemma ascii_layout [simp]: "ascii newline" "ascii (indentation n)" "ascii (quoted s) \<longleftrightarrow> ascii s"
  by (simp_all add: newline_def indentation_def quoted_def ascii_def list_all_iff)

lemma ascii_container:
  assumes "list_all ascii es" and "of_char opening < (128 :: nat)" and "of_char closing < (128 :: nat)"
  shows "ascii (dump_container pp ni ci opening closing es)"
  using assms ascii_join [of es "'',''"] ascii_join [of "map ((@) (indentation ni)) es" "'','' @ newline"]
  by (simp add: dump_container_def list_all_iff)

lemma rmap_ascii:
  assumes "\<And>x. x \<in> set xs \<Longrightarrow> \<exists>out. f x = Inr out \<and> ascii out"
  shows "\<exists>ys. rmap f xs = Inr ys \<and> list_all ascii ys"
  using assms by (induction xs) fastforce+

lemma dump_ascii: "json_ascii j \<Longrightarrow> \<exists>out. dump pp False step ind j = Inr out \<and> ascii out"
proof (induction pp "False" step ind j rule: dump.induct)
  case (1 pp step ind kvs)
  let ?ni = "if pp then ind + step else ind"
  let ?f = "\<lambda>(k, v). rbind (dump_escaped k False) (\<lambda>key. rbind (dump pp False step ?ni v)
                (\<lambda>val. Inr (quoted key @ (if pp then '': '' else '':'') @ val)))"
  have "\<exists>e. ?f p = Inr e \<and> ascii e" if mem: "p \<in> set kvs" for p
  proof (cases p)
    case (Pair k v)
    then have "kvs \<noteq> []" and "json_ascii v" and "ascii k" using mem "1.prems" by (auto simp: list_all_iff)
    obtain key where key: "dump_escaped k False = Inr key" "ascii key"
      using dump_escaped_ascii [OF \<open>ascii k\<close>] by blast
    then obtain out where "dump pp False step ?ni v = Inr out" "ascii out"
      using "1.hyps" [OF \<open>kvs \<noteq> []\<close> refl mem] Pair \<open>json_ascii v\<close> by blast
    then show ?thesis using Pair key by simp
  qed
  then have "\<exists>ys. rmap ?f kvs = Inr ys \<and> list_all ascii ys" by (rule rmap_ascii)
  then show ?case by (auto simp: Let_def ascii_container)
next
  case (2 pp step ind vs)
  have "\<exists>out. dump pp False step (if pp then ind + step else ind) v = Inr out \<and> ascii out" if "v \<in> set vs" for v
    using "2.hyps" [OF _ refl that] "2.prems" that by (cases vs) (auto simp: list_all_iff)
  then have "\<exists>ys. rmap (dump pp False step (if pp then ind + step else ind)) vs = Inr ys \<and> list_all ascii ys"
    by (rule rmap_ascii)
  then show ?case by (auto simp: Let_def ascii_container)
next
  case (3 pp step ind s)
  then show ?case using dump_escaped_ascii [of s] by auto
qed (simp_all add: dump_integer_unsigned dump_integer_signed show_int_def)

lemma json_dump_ascii: "json_ascii j \<Longrightarrow> \<exists>out. json_dump j = Inr out \<and> ascii out"
  unfolding json_dump_def by (rule dump_ascii)

lemma json_parse_json_dump: "json_dump j = Inr out \<Longrightarrow> json_ok j \<Longrightarrow> json_parse out = Inr (json_norm j)"
  unfolding json_dump_def by (rule json_parse_dump)

section \<open>Properties of the library\<close>

text \<open>
  C23. What \<^verbatim>\<open>dump\<close> writes, \<^verbatim>\<open>json::parse\<close> reads back: whenever serialization succeeds, with or without
  indentation, at any indentation width and level, parsing the text gives the value again, with
  strings of arbitrary valid UTF-8 and nested containers, the non-negative signed numbers being
  read as unsigned ones.
\<close>

theorem json_round_trip:
  assumes "dump pretty_print False indent_step current_indent j = Inr out" and "json_ok j"
  shows "json_parse out = Inr (json_norm j)"
  using assms by (rule json_parse_dump)

theorem json_round_trip_witness: "dump True False 1 0 (JObject [(''a'', JInteger 5), (''b'', JArray [JString ''x''])])
  = Inr (''{'' @ newline @ '' '' @ quoted ''a'' @ '': 5,'' @ newline @ '' '' @ quoted ''b'' @ '': ['' @ newline @ ''  '' @ quoted ''x'' @ newline @ '' ]'' @ newline @ ''}'')
  \<and> json_parse (''{'' @ newline @ '' '' @ quoted ''a'' @ '': 5,'' @ newline @ '' '' @ quoted ''b'' @ '': ['' @ newline @ ''  '' @ quoted ''x'' @ newline @ '' ]'' @ newline @ ''}'')
   = Inr (JObject [(''a'', JUnsigned 5), (''b'', JArray [JString ''x''])])"
proof -
  have d: "dump True False 1 0 (JObject [(''a'', JInteger 5), (''b'', JArray [JString ''x''])])
  = Inr (''{'' @ newline @ '' '' @ quoted ''a'' @ '': 5,'' @ newline @ '' '' @ quoted ''b'' @ '': ['' @ newline @ ''  '' @ quoted ''x'' @ newline @ '' ]'' @ newline @ ''}'')"
  by (simp add: dump_integer_signed show_int_def plain_def dump_container_def digit_def char_of_def bit_0
   newline_def indentation_def quoted_def)
  show ?thesis using json_round_trip [OF d] d by simp
qed
text \<open>
  Integers are printed exactly: the two-digits-at-a-time loop fills the number buffer with the
  decimal representation of every 64-bit value, the least signed integer included, and the digit
  count computed beforehand is the number of characters written.
\<close>

theorem dump_integer_decimal:
  "dump_integer False x = show_nat (unat x) \<and> dump_integer True x = show_int (sint x)
   \<and> count_digits (unat x) = length (show_nat (unat x))"
  by (simp add: dump_integer_unsigned dump_integer_signed count_digits_show)

end
