(* ===== verification/Interfaces.thy ===== *)
theory Interfaces
  imports Cosi_Prelude
begin

text \<open>
  The contracts one component relies on another for, as locales: a codec between values and their
  text, a one-time signature scheme, a state machine with an invariant, and a queue. What clients need from a contract is proved here once; the
  components interpret the locales on their own definitions.
\<close>

section \<open>Text codecs\<close>

text \<open>
  Every valid value has a text and the text decodes to the value. This is what storing blocks and
  sending objects as strings relies on.
\<close>

locale text_codec =
  fixes valid :: "'a \<Rightarrow> bool" and enc :: "'a \<Rightarrow> string res" and dec :: "string \<Rightarrow> 'a res"
  assumes enc_total: "valid x \<Longrightarrow> \<exists>s. enc x = Inr s"
    and dec_enc: "valid x \<Longrightarrow> enc x = Inr s \<Longrightarrow> dec s = Inr x"
begin

lemma round_trip: "valid x \<Longrightarrow> rbind (enc x) dec = Inr x"
  using enc_total dec_enc by fastforce

lemma enc_inj: "valid x \<Longrightarrow> valid y \<Longrightarrow> enc x = enc y \<Longrightarrow> x = y"
  by (metis round_trip sum.inject(2))

lemma all_round_trip: "list_all valid xs \<Longrightarrow> \<exists>ss. rmap enc xs = Inr ss \<and> rmap dec ss = Inr xs"
proof (induction xs)
  case (Cons x xs)
  then obtain ss s where "rmap enc xs = Inr ss" "rmap dec ss = Inr xs" "enc x = Inr s" "dec s = Inr x"
    using enc_total dec_enc by (metis list.pred_inject(2))
  then show ?case by (intro exI [of _ "s # ss"]) simp
qed simp

end

section \<open>One-time signatures\<close>

text \<open>
  A private key that belongs to a public key signs every message, and the signature is accepted.
  The verdict is the integer of the source: 1 accepted, 0 rejected, -1 malformed.
\<close>

locale one_time_signature =
  fixes belongs :: "'k \<Rightarrow> 'p \<Rightarrow> bool" and sign :: "'m \<Rightarrow> 'k \<Rightarrow> 's res" and verify :: "'m \<Rightarrow> 's \<Rightarrow> 'p \<Rightarrow> int res"
  assumes sign_total: "belongs k p \<Longrightarrow> \<exists>s. sign m k = Inr s"
    and verify_sign: "belongs k p \<Longrightarrow> sign m k = Inr s \<Longrightarrow> verify m s p = Inr 1"
begin

lemma sign_then_verify: "belongs k p \<Longrightarrow> \<exists>s. sign m k = Inr s \<and> verify m s p = Inr 1"
  using sign_total verify_sign by blast

lemma verify_bind: "belongs k p \<Longrightarrow> rbind (sign m k) (\<lambda>s. verify m s p) = Inr 1"
  using sign_then_verify [of k p m] by auto

end

section \<open>State machines\<close>

text \<open>
  A component that is changed by the calls of its operations only: what holds initially and is kept
  by every call holds in every state a program can bring the component to.
\<close>

locale invariant_system =
  fixes init :: "'s \<Rightarrow> bool" and step :: "'s \<Rightarrow> 's \<Rightarrow> bool" and inv :: "'s \<Rightarrow> bool"
  assumes init_inv: "init s \<Longrightarrow> inv s"
    and step_inv: "step s t \<Longrightarrow> inv s \<Longrightarrow> inv t"
begin

lemma steps_inv: "step\<^sup>*\<^sup>* s t \<Longrightarrow> inv s \<Longrightarrow> inv t"
  by (induction rule: rtranclp_induct) (auto intro: step_inv)

lemma reachable_inv: "init s \<Longrightarrow> step\<^sup>*\<^sup>* s t \<Longrightarrow> inv t"
  by (rule steps_inv [OF _ init_inv])

end

section \<open>Queues\<close>

text \<open>
  The use of a queue by a producer and a consumer that takes everything at once: what the consumer
  receives over time is what was put in, in order, up to what is still in the queue.
\<close>

datatype 'a queue_op = Push 'a | Drain

fun run_queue :: "('a \<Rightarrow> 's \<Rightarrow> 's) \<Rightarrow> ('s \<Rightarrow> 'a list \<times> 's) \<Rightarrow> 'a queue_op list \<Rightarrow> 's \<Rightarrow> 'a list \<times> 's" where
  "run_queue push drain [] s = ([], s)"
| "run_queue push drain (Push x # ops) s = run_queue push drain ops (push x s)"
| "run_queue push drain (Drain # ops) s =
     (let (xs, s') = drain s; (ys, t) = run_queue push drain ops s' in (xs @ ys, t))"

fun pushed :: "'a queue_op list \<Rightarrow> 'a list" where
  "pushed [] = []"
| "pushed (Push x # ops) = x # pushed ops"
| "pushed (Drain # ops) = pushed ops"

locale fifo =
  fixes contents :: "'s \<Rightarrow> 'a list" and push :: "'a \<Rightarrow> 's \<Rightarrow> 's" and drain :: "'s \<Rightarrow> 'a list \<times> 's"
  assumes contents_push: "contents (push x s) = contents s @ [x]"
    and fst_drain: "fst (drain s) = contents s"
    and contents_drain: "contents (snd (drain s)) = []"
begin

lemma run_fifo: "fst (run_queue push drain ops s) @ contents (snd (run_queue push drain ops s)) = contents s @ pushed ops"
proof (induction ops arbitrary: s)
  case (Cons a ops)
  show ?case
  proof (cases a)
    case (Push x)
    then show ?thesis using Cons [of "push x s"] by (simp add: contents_push)
  next
    case Drain
    then show ?thesis
      using Cons [of "snd (drain s)"] fst_drain [of s] contents_drain [of s] by (simp add: split_beta Let_def)
  qed
qed simp

end

end
