(* ===== verification/Signature.thy ===== *)
theory Signature
  imports Sha256 Json_Parse Interfaces
begin

text \<open>
  The Lamport one-time signatures of \<^verbatim>\<open>lib/signature/hash.cc\<close> and \<^verbatim>\<open>include/signature/hash.h\<close>:
  conversions between strings and 256-bit sets, the hash function, key generation from
  \<^verbatim>\<open>/dev/urandom\<close>, signing, verification, and the JSON representation of keys and signatures. The
  random device is an environment that answers each \<^verbatim>\<open>open\<close> and each \<^verbatim>\<open>read\<close>. The lemmas
  show that signatures made with a generated key verify, that an accepted signature for another
  message reveals a fresh preimage, and that only the first 32 characters of a message count.
\<close>

unbundle bit_operations_syntax

section \<open>Bit sets and strings\<close>

definition KEY_LEN :: nat where
  "KEY_LEN = 256"

text \<open>A \<^verbatim>\<open>std::bitset<KEY_LEN_>\<close>, bit 0 first.\<close>

type_synonym bitset = "bool list"

definition byte_of_bits :: "bool list \<Rightarrow> char" where
  "byte_of_bits bs = char_of (foldl (\<lambda>byte j. byte OR push_bit j (of_bool (bs ! j))) (0 :: nat) [0..<8])"

definition bitset_to_string :: "bitset \<Rightarrow> string" where
  "bitset_to_string bits = map (\<lambda>i. byte_of_bits (take 8 (drop (8 * i) bits))) [0..<KEY_LEN div 8]"

text \<open>
  \<^verbatim>\<open>bits[index++]\<close> is not range-checked: past the last bit the behaviour is undefined.
\<close>

fun write_bytes :: "bitset \<Rightarrow> nat \<Rightarrow> string \<Rightarrow> bitset res" where
  "write_bytes bits index [] = Inr bits"
| "write_bytes bits index (c # str) =
     (if KEY_LEN < index + 8 then Inl (Undefined_behaviour ''bitset index'')
      else write_bytes (foldl (\<lambda>bits j. bits[index + j := bit (of_char c :: nat) j]) bits [0..<8]) (index + 8) str)"

definition string_to_bitset :: "string \<Rightarrow> bitset res" where
  "string_to_bitset str = write_bytes (replicate KEY_LEN False) 0 str"

text \<open>\<^verbatim>\<open>bitset::to_string\<close> and the constructor of a bitset from such a string (most significant bit first).\<close>

definition bitset_text :: "bitset \<Rightarrow> string" where
  "bitset_text bits = map (\<lambda>b. if b then CHR ''1'' else CHR ''0'') (rev bits)"

definition bitset_of_text :: "string \<Rightarrow> bitset res" where
  "bitset_of_text str =
    (if list_all (\<lambda>c. c = CHR ''0'' \<or> c = CHR ''1'') str
     then let m = min KEY_LEN (length str); bits = rev (map (\<lambda>c. c = CHR ''1'') (take m str))
          in Inr (bits @ replicate (KEY_LEN - m) False)
     else Inl (Invalid_argument ''bitset''))"

definition signature_to_json :: "string list \<Rightarrow> string res" where
  "signature_to_json signature = rbind (rfold (\<lambda>sig j. rbind (string_to_bitset sig)
       (\<lambda>bits. json_push_back j (JString (bitset_text bits)))) signature JNull) json_dump"

definition json_to_string :: "string \<Rightarrow> string list res" where
  "json_to_string str = rbind (json_parse str) (\<lambda>j. rmap (\<lambda>el. rbind (get_string el)
       (\<lambda>text. rbind (bitset_of_text text) (\<lambda>bits. Inr (bitset_to_string bits)))) (json_elements j))"

section \<open>Hashing\<close>

text \<open>A fresh \<^verbatim>\<open>SHA256\<close> object (its constructor resets it; the buffers are uninitialised) applied to the data.\<close>

definition hash_uninit :: "u8 list \<Rightarrow> u8 list \<Rightarrow> string \<Rightarrow> string" where
  "hash_uninit buffer0 extra0 data =
     sha256_call extra0 (reset \<lparr>m_numBytes = 0, m_bufferSize = 0, m_buffer = buffer0, m_hash = replicate 8 0\<rparr>) data"

definition hash :: "string \<Rightarrow> string" where
  "hash data = hash_uninit (replicate 64 0) (replicate 64 0) data"

section \<open>Keys\<close>

record SigKey =
  S0 :: "string list"
  S1 :: "string list"

record signature_state =
  public_key :: SigKey
  private_key :: SigKey

text \<open>The random device: whether the n-th \<^verbatim>\<open>open\<close> succeeds, and what the n-th \<^verbatim>\<open>read\<close> of one byte returns.\<close>

record urandom =
  open_ok :: "nat \<Rightarrow> bool"
  read_byte :: "nat \<Rightarrow> char option"

fun read_random :: "urandom \<Rightarrow> nat \<Rightarrow> nat \<Rightarrow> bitset res" where
  "read_random env 0 pos = Inr []"
| "read_random env (Suc n) pos = (case read_byte env pos of
       None \<Rightarrow> Inl (Runtime_error ''Failed to read from /dev/urandom'')
     | Some temp_buf \<Rightarrow> rbind (read_random env n (Suc pos))
         (\<lambda>buf. Inr (map (\<lambda>j. bit (of_char temp_buf :: nat) j) [0..<8] @ buf)))"

text \<open>The \<open>call\<close>-th call; every call before it has read \<open>KEY_LEN div 8\<close> bytes.\<close>

definition getRandomBits :: "urandom \<Rightarrow> nat \<Rightarrow> bitset res" where
  "getRandomBits env call =
    (if \<not> open_ok env call then Inl (Runtime_error ''Failed to open /dev/urandom'')
     else read_random env (KEY_LEN div 8) (call * (KEY_LEN div 8)))"

text \<open>
  One iteration of \<^verbatim>\<open>KeyGen\<close>. An exception of the random device leaves the keys as they are, so the
  state is returned beside the result.
\<close>

definition push_key_pair :: "string \<Rightarrow> string \<Rightarrow> signature_state \<Rightarrow> signature_state" where
  "push_key_pair K0 K1 s = s
     \<lparr>private_key := \<lparr>S0 = S0 (private_key s) @ [K0], S1 = S1 (private_key s) @ [K1]\<rparr>,
      public_key := \<lparr>S0 = S0 (public_key s) @ [hash K0], S1 = S1 (public_key s) @ [hash K1]\<rparr>\<rparr>"

fun keygen_loop :: "urandom \<Rightarrow> nat \<Rightarrow> nat \<Rightarrow> signature_state \<Rightarrow> signature_state \<times> int res" where
  "keygen_loop env call 0 s = (s, Inr 1)"
| "keygen_loop env call (Suc n) s =
     (case rbind (getRandomBits env call) (\<lambda>k0. rbind (getRandomBits env (call + 1)) (\<lambda>k1. Inr (k0, k1))) of
        Inl e \<Rightarrow> (s, Inl e)
      | Inr (k0, k1) \<Rightarrow>
          keygen_loop env (call + 2) n (push_key_pair (bitset_to_string k0) (bitset_to_string k1) s))"

definition KeyGen :: "urandom \<Rightarrow> nat \<Rightarrow> signature_state \<Rightarrow> signature_state \<times> int res" where
  "KeyGen env call s = keygen_loop env call KEY_LEN
     (s\<lparr>private_key := \<lparr>S0 = [], S1 = []\<rparr>, public_key := \<lparr>S0 = [], S1 = []\<rparr>\<rparr>)"

section \<open>Signing and verifying\<close>

definition crop :: "string \<Rightarrow> string" where
  "crop m = (if KEY_LEN div 8 < length m then take (KEY_LEN div 8) m else m)"

definition Sign :: "string \<Rightarrow> SigKey \<Rightarrow> string list res" where
  "Sign m key =
    (if length (S0 key) \<noteq> KEY_LEN \<or> length (S1 key) \<noteq> KEY_LEN then Inr []
     else rbind (string_to_bitset (crop m))
       (\<lambda>m_bits. Inr (map (\<lambda>i. if m_bits ! i then S1 key ! i else S0 key ! i) [0..<KEY_LEN])))"

fun check_signature :: "bitset \<Rightarrow> string list \<Rightarrow> SigKey \<Rightarrow> nat list \<Rightarrow> int" where
  "check_signature m_bits sig key [] = 1"
| "check_signature m_bits sig key (i # is) =
     (if (if m_bits ! i then S1 key ! i else S0 key ! i) \<noteq> hash (sig ! i) then 0
      else check_signature m_bits sig key is)"

definition Verify :: "string \<Rightarrow> string list \<Rightarrow> SigKey \<Rightarrow> int res" where
  "Verify m sig key =
    (if length (S0 key) \<noteq> KEY_LEN \<or> length (S1 key) \<noteq> KEY_LEN \<or> length sig \<noteq> KEY_LEN then Inr (- 1)
     else rbind (string_to_bitset (crop m)) (\<lambda>m_bits. Inr (check_signature m_bits sig key [0..<KEY_LEN])))"

section \<open>Keys as strings\<close>

definition SigKey_to_string :: "SigKey \<Rightarrow> string res" where
  "SigKey_to_string key =
    (if length (S0 key) \<noteq> KEY_LEN \<or> length (S1 key) \<noteq> KEY_LEN
     then Inl (Runtime_error (''Cannot convert SigKey to string, invalid signature key length (S0: ''
            @ show_nat (length (S0 key)) @ '', S1: '' @ show_nat (length (S1 key)) @ '')''))
     else rbind (rfold (\<lambda>i j. rbind (json_update j ''S0'' (\<lambda>e. json_push_back e (JString (S0 key ! i))))
            (\<lambda>j. json_update j ''S1'' (\<lambda>e. json_push_back e (JString (S1 key ! i))))) [0..<KEY_LEN] JNull)
       json_dump)"

text \<open>The length test reads the size of \<^verbatim>\<open>S0\<close> twice, as the source does.\<close>

definition SigKey_from_string :: "string \<Rightarrow> SigKey res" where
  "SigKey_from_string str = rbind (json_parse str) (\<lambda>j.
     rbind (json_at j ''S0'') (\<lambda>j0. rbind (json_at j ''S0'') (\<lambda>j0'.
     if json_size j0 \<noteq> KEY_LEN \<or> json_size j0' \<noteq> KEY_LEN
     then Inl (Runtime_error ''Cannot convert string to SigKey, invalid signature key length (S0: 0, S1: 0)'')
     else rfold (\<lambda>i key.
         rbind (json_at j ''S0'') (\<lambda>j0. rbind (json_index j0 i) (\<lambda>e0. rbind (get_string e0) (\<lambda>s0.
         rbind (json_at j ''S1'') (\<lambda>j1. rbind (json_index j1 i) (\<lambda>e1. rbind (get_string e1) (\<lambda>s1.
           Inr \<lparr>S0 = S0 key @ [s0], S1 = S1 key @ [s1]\<rparr>)))))))
       [0..<KEY_LEN] \<lparr>S0 = [], S1 = []\<rparr>)))"

definition print_SigKey :: "SigKey \<Rightarrow> string res" where
  "print_SigKey key = (case (S0 key, S1 key) of
       (s0 # _, s1 # _) \<Rightarrow> Inr (''S0: '' @ take 10 s0 @ ''... S1: '' @ take 10 s1 @ ''...'')
     | _ \<Rightarrow> Inl (Undefined_behaviour ''vector index''))"

section \<open>Vocabulary of the proofs\<close>

text \<open>
  The bits of a character, of a string padded with zeros and of a message; the key entry a bit
  selects; complete keys and matching pairs; the JSON values of keys and signatures.
\<close>

definition char_bits :: "char \<Rightarrow> bool list" where
  "char_bits c = map (bit (of_char c :: nat)) [0..<8]"

definition string_bits :: "string \<Rightarrow> bitset" where
  "string_bits str = concat (map char_bits str) @ replicate (KEY_LEN - 8 * length str) False"

definition message_bits :: "string \<Rightarrow> bitset" where
  "message_bits m = string_bits (crop m)"

definition selected :: "bitset \<Rightarrow> SigKey \<Rightarrow> nat \<Rightarrow> string" where
  "selected bits key i = (if bits ! i then S1 key ! i else S0 key ! i)"

definition key_complete :: "SigKey \<Rightarrow> bool" where
  "key_complete key \<longleftrightarrow> length (S0 key) = KEY_LEN \<and> length (S1 key) = KEY_LEN"

definition key_pair :: "SigKey \<Rightarrow> SigKey \<Rightarrow> bool" where
  "key_pair priv pub \<longleftrightarrow> key_complete priv \<and> S0 pub = map hash (S0 priv) \<and> S1 pub = map hash (S1 priv)"

definition key_as_json :: "SigKey \<Rightarrow> json" where
  "key_as_json key = JObject [(''S0'', JArray (map JString (S0 key))), (''S1'', JArray (map JString (S1 key)))]"

definition signature_as_json :: "string list \<Rightarrow> json" where
  "signature_as_json sig = (if sig = [] then JNull else JArray (map (\<lambda>s. JString (bitset_text (string_bits s))) sig))"

section \<open>The hash function\<close>

lemma hash_uninit_ref:
  "length buffer0 = 64 \<Longrightarrow> length extra0 = 64 \<Longrightarrow>
   hash_uninit buffer0 extra0 data = concat (map hex_of_byte (sha256_ref (bytes_of_string data)))"
  unfolding hash_uninit_def by (rule sha256_call_ref) (simp_all add: reset_def)

lemma hash_ref: "hash data = concat (map hex_of_byte (sha256_ref (bytes_of_string data)))"
  by (simp add: hash_def hash_uninit_ref)

lemma length_hash [simp]: "length (hash data) = 64"
  by (simp add: hash_ref length_concat_hex length_sha256_ref)

lemma set_hash: "set (hash data) \<subseteq> set dec2hex"
  using hex_of_byte_chars by (auto simp: hash_ref)

lemma plain_hash [simp]: "plain (hash data)"
proof -
  have "list_all (\<lambda>c. 32 \<le> (of_char c :: nat) \<and> of_char c < (128 :: nat) \<and> c \<noteq> CHR 0x22 \<and> c \<noteq> CHR 0x5C) dec2hex"
    by (simp add: dec2hex_def)
  then show ?thesis using set_hash [of data] by (auto simp: plain_def list_all_iff)
qed

section \<open>Bit sets\<close>

lemma length_char_bits [simp]: "length (char_bits c) = 8"
  by (simp add: char_bits_def)

lemma bit_or_fold:
  "bit (foldl (\<lambda>byte j. byte OR push_bit j (of_bool (f j))) (0 :: nat) [0..<n]) k \<longleftrightarrow> k < n \<and> f k"
  by (induction n) (auto simp: bit_simps less_Suc_eq)

lemma byte_of_char_bits [simp]: "byte_of_bits (char_bits c) = c"
proof -
  let ?v = "foldl (\<lambda>byte j. byte OR push_bit j (of_bool (char_bits c ! j))) (0 :: nat) [0..<8]"
  have "bit ?v j = bit (of_char c :: nat) j" if "j < 8" for j
    using that unfolding bit_or_fold by (simp add: char_bits_def)
  then have "char_of ?v = (char_of (of_char c :: nat) :: char)"
    unfolding char_of_def by (simp del: upt_rec_numeral)
  then show ?thesis by (simp add: byte_of_bits_def)
qed

lemma char_bits_byte:
  assumes "length bs = 8" shows "char_bits (byte_of_bits bs) = bs"
proof (rule nth_equalityI)
  let ?v = "foldl (\<lambda>byte j. byte OR push_bit j (of_bool (bs ! j))) (0 :: nat) [0..<8]"
  fix j assume "j < length (char_bits (byte_of_bits bs))"
  then have "j < 8" by simp
  moreover have "bit (of_char (char_of ?v) :: nat) j = bit (take_bit 8 ?v) j"
    by (simp add: take_bit_eq_mod)
  ultimately show "char_bits (byte_of_bits bs) ! j = bs ! j"
    by (simp add: char_bits_def byte_of_bits_def bit_take_bit_iff bit_or_fold del: upt_rec_numeral of_char_of)
qed (use assms in simp)

lemma foldl_update:
  "i + n \<le> length bits \<Longrightarrow> foldl (\<lambda>bits j. bits[i + j := f j]) bits [0..<n]
     = take i bits @ map f [0..<n] @ drop (i + n) bits"
proof (induction n)
  case (Suc n)
  then have "drop (i + n) bits \<noteq> []" by simp
  then obtain x xs where "drop (i + n) bits = x # xs" by (cases "drop (i + n) bits") auto
  moreover from this have "drop (Suc (i + n)) bits = xs" by (metis drop_Suc tl_drop list.sel(3))
  ultimately show ?case using Suc by (simp add: list_update_append)
qed simp

lemma write_bytes_eq:
  "length bits = KEY_LEN \<Longrightarrow> i + 8 * length str \<le> KEY_LEN \<Longrightarrow>
   write_bytes bits i str = Inr (take i bits @ concat (map char_bits str) @ drop (i + 8 * length str) bits)"
proof (induction str arbitrary: bits i)
  case (Cons c str)
  let ?b = "take i bits @ char_bits c @ drop (i + 8) bits"
  have "foldl (\<lambda>bits j. bits[i + j := bit (of_char c :: nat) j]) bits [0..<8] = ?b"
    using Cons.prems foldl_update [of i 8 bits "bit (of_char c :: nat)"] by (simp add: char_bits_def del: upt_rec_numeral)
  moreover have "length ?b = KEY_LEN" using Cons.prems by simp
  ultimately show ?case
    using Cons.prems Cons.IH [of ?b "i + 8"] by (simp add: ac_simps)
qed simp

lemma write_bytes_overflow:
  "KEY_LEN < i + 8 * length str \<Longrightarrow> i \<le> KEY_LEN \<Longrightarrow> write_bytes bits i str = Inl (Undefined_behaviour ''bitset index'')"
  by (induction str arbitrary: bits i) auto

lemma string_to_bitset_eq: "length str \<le> 32 \<Longrightarrow> string_to_bitset str = Inr (string_bits str)"
  by (simp add: string_to_bitset_def write_bytes_eq string_bits_def KEY_LEN_def)

lemma length_concat_char_bits [simp]: "length (concat (map char_bits str)) = 8 * length str"
  by (induction str) simp_all

lemma length_string_bits [simp]: "length str \<le> 32 \<Longrightarrow> length (string_bits str) = KEY_LEN"
  by (simp add: string_bits_def KEY_LEN_def)

lemma string_to_bitset_overflow:
  "32 < length str \<Longrightarrow> string_to_bitset str = Inl (Undefined_behaviour ''bitset index'')"
  by (simp add: string_to_bitset_def write_bytes_overflow KEY_LEN_def)

lemma take_drop_concat_char_bits:
  "i < length str \<Longrightarrow> take 8 (drop (8 * i) (concat (map char_bits str) @ r)) = char_bits (str ! i)"
proof (induction str arbitrary: i)
  case (Cons c str)
  then show ?case by (cases i) simp_all
qed simp

lemma bitset_to_string_bits: "length str = 32 \<Longrightarrow> bitset_to_string (string_bits str) = str"
  by (auto simp: bitset_to_string_def string_bits_def KEY_LEN_def take_drop_concat_char_bits [where r = "[]", simplified]
      intro!: nth_equalityI simp del: upt_rec_numeral)

lemma length_bitset_to_string [simp]: "length (bitset_to_string bits) = 32"
  by (simp add: bitset_to_string_def KEY_LEN_def del: upt_rec_numeral)

lemma concat_byte_chunks:
  "length bits = 8 * n \<Longrightarrow> concat (map (\<lambda>i. take 8 (drop (8 * i) bits)) [0..<n]) = bits"
proof (induction n arbitrary: bits)
  case (Suc n)
  have "concat (map (\<lambda>i. take 8 (drop (8 * i) (drop 8 bits))) [0..<n]) = drop 8 bits"
    using Suc.prems by (intro Suc.IH) simp
  then show ?case
    by (simp add: upt_conv_Cons map_Suc_upt [symmetric] o_def ac_simps del: upt_Suc)
qed simp

lemma string_to_bitset_of_bits:
  assumes "length bits = KEY_LEN" shows "string_to_bitset (bitset_to_string bits) = Inr bits"
proof -
  have "map char_bits (bitset_to_string bits) = map (\<lambda>i. take 8 (drop (8 * i) bits)) [0..<32]"
    unfolding bitset_to_string_def KEY_LEN_def using assms
    by (auto simp: char_bits_byte KEY_LEN_def simp del: upt_rec_numeral)
  then show ?thesis
    using concat_byte_chunks [of bits 32] assms
    by (simp add: string_to_bitset_eq string_bits_def KEY_LEN_def del: upt_rec_numeral)
qed

section \<open>Signatures\<close>

lemma length_crop [simp]: "length (crop m) \<le> 32"
  by (simp add: crop_def KEY_LEN_def)

lemma crop_eq: "crop m = take 32 m"
  by (simp add: crop_def KEY_LEN_def)

lemma length_message_bits [simp]: "length (message_bits m) = KEY_LEN"
  by (simp add: message_bits_def)

lemma Sign_eq:
  "Sign m key = Inr (if key_complete key then map (selected (message_bits m) key) [0..<KEY_LEN] else [])"
  by (simp add: Sign_def string_to_bitset_eq message_bits_def selected_def key_complete_def)

lemma check_signature_eq:
  "check_signature bits sig key is = (if \<forall>i \<in> set is. selected bits key i = hash (sig ! i) then 1 else 0)"
  by (induction "is") (auto simp: selected_def)

lemma Verify_eq:
  "Verify m sig key = Inr (if \<not> key_complete key \<or> length sig \<noteq> KEY_LEN then - 1
     else if \<forall>i < KEY_LEN. selected (message_bits m) key i = hash (sig ! i) then 1 else 0)"
  by (auto simp: Verify_def string_to_bitset_eq message_bits_def key_complete_def check_signature_eq)

lemma key_pair_complete: "key_pair priv pub \<Longrightarrow> key_complete priv \<and> key_complete pub"
  by (simp add: key_pair_def key_complete_def)

lemma Verify_success_iff:
  "Verify m sig pub = Inr 1 \<longleftrightarrow> key_complete pub \<and> length sig = KEY_LEN
     \<and> (\<forall>i < KEY_LEN. selected (message_bits m) pub i = hash (sig ! i))"
  by (auto simp: Verify_eq)

lemma Verify_Sign:
  assumes "key_pair priv pub" and "Sign m priv = Inr sig"
  shows "Verify m sig pub = Inr 1"
proof -
  have sig: "sig = map (selected (message_bits m) priv) [0..<KEY_LEN]"
    using assms by (simp add: Sign_eq key_pair_def)
  have "selected bits pub i = hash (selected bits priv i)" if "i < KEY_LEN" for bits i
    using assms(1) that by (simp add: key_pair_def key_complete_def selected_def)
  then show ?thesis
    using key_pair_complete [OF assms(1)] by (simp add: Verify_success_iff sig)
qed

section \<open>Key generation\<close>

lemma keygen_loop_success:
  assumes "keygen_loop env call n s = (s', Inr r)" and "S0 (public_key s) = map hash (S0 (private_key s))"
    and "S1 (public_key s) = map hash (S1 (private_key s))"
  shows "r = 1 \<and> length (S0 (private_key s')) = length (S0 (private_key s)) + n
    \<and> length (S1 (private_key s')) = length (S1 (private_key s)) + n
    \<and> S0 (public_key s') = map hash (S0 (private_key s')) \<and> S1 (public_key s') = map hash (S1 (private_key s'))"
  using assms
proof (induction n arbitrary: call s)
  case (Suc n)
  then obtain k0 k1 where "keygen_loop env (call + 2) n
      (push_key_pair (bitset_to_string k0) (bitset_to_string k1) s) = (s', Inr r)"
    by (auto split: sum.splits)
  from Suc.IH [OF this] show ?case using Suc.prems by (simp add: push_key_pair_def)
qed simp

lemma keygen_loop_failure:
  assumes "keygen_loop env call n s = (s', Inl e)"
  shows "length (S0 (private_key s')) < length (S0 (private_key s)) + n \<and> (\<exists>msg. e = Runtime_error msg)"
  using assms
proof (induction n arbitrary: call s)
  case (Suc n)
  show ?case
  proof (cases "rbind (getRandomBits env call) (\<lambda>k0. rbind (getRandomBits env (call + 1)) (\<lambda>k1. Inr (k0, k1)))")
    case (Inl e')
    have rr: "read_random env' m p = Inl e'' \<Longrightarrow> \<exists>msg. e'' = Runtime_error msg" for env' m p e''
      by (induction m arbitrary: p) (auto simp: rbind_def split: option.splits sum.splits)
    have "\<exists>msg. e' = Runtime_error msg"
      using Inl by (auto simp: rbind_def getRandomBits_def split: sum.splits if_splits dest: rr)
    then show ?thesis using Inl Suc.prems by auto
  next
    case (Inr kk)
    obtain k0 k1 where "kk = (k0, k1)" by (cases kk)
    then show ?thesis
      using Inr Suc.prems Suc.IH [of "call + 2" "push_key_pair (bitset_to_string k0) (bitset_to_string k1) s"]
      by (simp add: push_key_pair_def)
  qed
qed simp

lemma KeyGen_key_pair:
  assumes "KeyGen env call s = (s', Inr r)"
  shows "r = 1" and "key_pair (private_key s') (public_key s')"
  using keygen_loop_success [OF assms [unfolded KeyGen_def]]
  by (simp_all add: key_pair_def key_complete_def)


lemma read_random_total: "(\<And>n. read_byte env n \<noteq> None) \<Longrightarrow> \<exists>bits. read_random env n pos = Inr bits"
proof (induction n arbitrary: pos)
  case (Suc n)
  obtain c where "read_byte env pos = Some c" using Suc.prems [of pos] by (cases "read_byte env pos") auto
  moreover obtain bits where "read_random env n (Suc pos) = Inr bits" using Suc by blast
  ultimately show ?case by simp
qed simp

lemma keygen_loop_total:
  assumes "\<And>n. open_ok env n" and "\<And>n. read_byte env n \<noteq> None"
  shows "\<exists>s'. keygen_loop env call n s = (s', Inr 1)"
proof (induction n arbitrary: call s)
  case (Suc n)
  have "\<exists>bits. getRandomBits env c = Inr bits" for c
    using read_random_total [of env] assms by (simp add: getRandomBits_def)
  then obtain k0 k1 where "getRandomBits env call = Inr k0" "getRandomBits env (call + 1) = Inr k1" by blast
  then show ?case using Suc by simp
qed simp

lemma KeyGen_total:
  "(\<And>n. open_ok env n) \<Longrightarrow> (\<And>n. read_byte env n \<noteq> None) \<Longrightarrow> \<exists>s'. KeyGen env call s = (s', Inr 1)"
  unfolding KeyGen_def by (rule keygen_loop_total)

section \<open>Keys and signatures as strings\<close>

lemma key_json:
  assumes "n \<le> length xs" and "n \<le> length ys"
  shows "rfold (\<lambda>i j. rbind (json_update j ''S0'' (\<lambda>e. json_push_back e (JString (xs ! i))))
            (\<lambda>j. json_update j ''S1'' (\<lambda>e. json_push_back e (JString (ys ! i))))) [0..<n] JNull
    = Inr (if n = 0 then JNull
           else JObject [(''S0'', JArray (map JString (take n xs))), (''S1'', JArray (map JString (take n ys)))])"
  using assms
proof (induction n)
  case (Suc n)
  then have "n < length xs" and "n < length ys" by simp_all
  then show ?case
    using Suc by (cases "n = 0") (simp_all add: rfold_append take_Suc_conv_app_nth)
qed simp

lemma SigKey_to_string_eq: "key_complete key \<Longrightarrow> SigKey_to_string key = json_dump (key_as_json key)"
  using key_json [of KEY_LEN "S0 key" "S1 key"]
  by (simp add: SigKey_to_string_def key_complete_def key_as_json_def) (simp add: KEY_LEN_def)

lemma json_ok_key [simp]: "json_ok (key_as_json key)"
  by (simp add: key_as_json_def list_all_iff)

lemma json_norm_key [simp]: "json_norm (key_as_json key) = key_as_json key"
  by (simp add: key_as_json_def)

lemma key_from_json:
  assumes "n \<le> length xs" and "n \<le> length ys"
  shows "rfold (\<lambda>i key.
         rbind (json_at (key_as_json \<lparr>S0 = xs, S1 = ys\<rparr>) ''S0'') (\<lambda>j0. rbind (json_index j0 i) (\<lambda>e0. rbind (get_string e0) (\<lambda>s0.
         rbind (json_at (key_as_json \<lparr>S0 = xs, S1 = ys\<rparr>) ''S1'') (\<lambda>j1. rbind (json_index j1 i) (\<lambda>e1. rbind (get_string e1) (\<lambda>s1.
           Inr \<lparr>S0 = S0 key @ [s0], S1 = S1 key @ [s1]\<rparr>))))))) [0..<n] \<lparr>S0 = [], S1 = []\<rparr>
    = Inr \<lparr>S0 = take n xs, S1 = take n ys\<rparr>"
  using assms
  by (induction n) (simp_all add: rfold_append key_as_json_def json_index_def take_Suc_conv_app_nth)

lemma SigKey_from_json:
  assumes "json_parse str = Inr (key_as_json key)" and "length (S0 key) = KEY_LEN" and "KEY_LEN \<le> length (S1 key)"
  shows "SigKey_from_string str = Inr \<lparr>S0 = S0 key, S1 = take KEY_LEN (S1 key)\<rparr>"
  using assms key_from_json [of KEY_LEN "S0 key" "S1 key"]
  by (simp add: SigKey_from_string_def) (simp add: key_as_json_def json_size_def)

lemma SigKey_round_trip:
  assumes "key_complete key" and "SigKey_to_string key = Inr str"
  shows "SigKey_from_string str = Inr key"
proof -
  have "json_parse str = Inr (key_as_json key)"
    using assms json_parse_dump [of False 0 0 "key_as_json key" str] by (simp add: SigKey_to_string_eq json_dump_def)
  then show ?thesis using SigKey_from_json [of str key] assms(1) by (simp add: key_complete_def)
qed

lemma SigKey_to_string_total:
  assumes "key_complete key" and "list_all ascii (S0 key)" and "list_all ascii (S1 key)"
  shows "\<exists>str. SigKey_to_string key = Inr str \<and> ascii str"
proof -
  have "json_ascii (key_as_json key)" using assms by (simp add: key_as_json_def list_all_iff)
  then show ?thesis using assms(1) json_dump_ascii by (simp add: SigKey_to_string_eq)
qed


lemma set_bitset_text: "set (bitset_text bits) \<subseteq> {CHR ''0'', CHR ''1''}"
  by (auto simp: bitset_text_def)

lemma bitset_of_bitset_text: "length bits = KEY_LEN \<Longrightarrow> bitset_of_text (bitset_text bits) = Inr bits"
proof -
  assume "length bits = KEY_LEN"
  moreover have "map (\<lambda>c. c = CHR ''1'') (map (\<lambda>b. if b then CHR ''1'' else CHR ''0'') bs) = bs" for bs
    by (induction bs) auto
  moreover have "list_all (\<lambda>c. c = CHR ''0'' \<or> c = CHR ''1'') (bitset_text bits)"
    using set_bitset_text [of bits] by (auto simp: list_all_iff)
  ultimately show ?thesis
    by (simp add: bitset_of_text_def Let_def) (simp add: bitset_text_def rev_map)
qed

lemma signature_json_fold:
  "list_all (\<lambda>s. length s \<le> 32) sig \<Longrightarrow> rfold (\<lambda>sig j. rbind (string_to_bitset sig)
       (\<lambda>bits. json_push_back j (JString (bitset_text bits)))) sig (JArray vs)
   = Inr (JArray (vs @ map (\<lambda>s. JString (bitset_text (string_bits s))) sig))"
  by (induction sig arbitrary: vs) (simp_all add: string_to_bitset_eq)

lemma signature_to_json_eq:
  "list_all (\<lambda>s. length s \<le> 32) sig \<Longrightarrow> signature_to_json sig = json_dump (signature_as_json sig)"
  by (cases sig) (simp_all add: signature_to_json_def signature_as_json_def string_to_bitset_eq signature_json_fold)

lemma plain_bitset_text [simp]: "plain (bitset_text bits)"
  using set_bitset_text [of bits] by (auto simp: plain_def list_all_iff)

lemma signature_to_json_total:
  assumes "list_all (\<lambda>s. length s \<le> 32) sig"
  shows "\<exists>str. signature_to_json sig = Inr str \<and> ascii str"
  unfolding signature_to_json_eq [OF assms]
  by (rule json_dump_ascii) (simp add: signature_as_json_def list_all_iff plain_ascii)

lemma signature_round_trip:
  assumes "list_all (\<lambda>s. length s = 32) sig" and "signature_to_json sig = Inr str"
  shows "json_to_string str = Inr sig"
proof -
  have le: "list_all (\<lambda>s. length s \<le> 32) sig" using assms(1) by (simp add: list_all_iff)
  have "json_parse str = Inr (signature_as_json sig)"
    using assms(2) json_parse_json_dump [of "signature_as_json sig" str]
    by (simp add: signature_to_json_eq [OF le] signature_as_json_def list_all_iff split: if_splits)
  moreover have "json_elements (signature_as_json sig) = map (\<lambda>s. JString (bitset_text (string_bits s))) sig"
    by (simp add: signature_as_json_def)
  moreover have "rmap (\<lambda>s. rbind (bitset_of_text (bitset_text (string_bits s))) (\<lambda>bits. Inr (bitset_to_string bits))) sig
    = Inr (map id sig)"
    using assms(1) by (intro rmap_all_Inr) (simp add: list_all_iff bitset_of_bitset_text bitset_to_string_bits)
  ultimately show ?thesis by (simp add: json_to_string_def rmap_map)
qed

section \<open>Interpretations\<close>

interpretation lamport: one_time_signature key_pair Sign Verify
proof
  fix priv pub m s
  assume "key_pair priv pub"
  then show "\<exists>s. Sign m priv = Inr s" by (simp add: Sign_eq)
  assume "Sign m priv = Inr s"
  with \<open>key_pair priv pub\<close> show "Verify m s pub = Inr 1" by (rule Verify_Sign)
qed

interpretation key_codec: text_codec
  "\<lambda>key. key_complete key \<and> list_all ascii (S0 key) \<and> list_all ascii (S1 key)" SigKey_to_string SigKey_from_string
  by unfold_locales (auto dest: SigKey_to_string_total SigKey_round_trip)

interpretation signature_codec: text_codec
  "list_all (\<lambda>s. length s = 32)" signature_to_json json_to_string
proof
  fix sig :: "string list" and s
  assume "list_all (\<lambda>s. length s = 32) sig"
  then show "\<exists>s. signature_to_json sig = Inr s" using signature_to_json_total [of sig] by (auto simp: list_all_iff)
  assume "signature_to_json sig = Inr s"
  with \<open>list_all (\<lambda>s. length s = 32) sig\<close> show "json_to_string s = Inr sig" by (rule signature_round_trip)
qed

section \<open>Properties of the signature scheme\<close>

text \<open>
  C6. Signatures of a generated key verify: when \<^verbatim>\<open>KeyGen\<close> returns, it returns 1, and every message
  signed with the private key gives 256 values that \<^verbatim>\<open>Verify\<close> accepts with the public key.
\<close>

theorem lamport_sign_verify:
  assumes "KeyGen env call s = (s', Inr r)"
  shows "r = 1 \<and> (\<exists>sig. Sign m (private_key s') = Inr sig \<and> length sig = KEY_LEN
           \<and> Verify m sig (public_key s') = Inr 1)"
proof -
  have "key_pair (private_key s') (public_key s')" by (rule KeyGen_key_pair [OF assms])
  from lamport.sign_then_verify [OF this, of m] show ?thesis
    using KeyGen_key_pair [OF assms] by (auto simp: Verify_success_iff)
qed

theorem lamport_sign_verify_witness:
  "\<exists>s' sig. KeyGen \<lparr>open_ok = \<lambda>_. True, read_byte = \<lambda>_. Some CHR ''k''\<rparr> 0
       \<lparr>public_key = \<lparr>S0 = [], S1 = []\<rparr>, private_key = \<lparr>S0 = [], S1 = []\<rparr>\<rparr> = (s', Inr 1)
     \<and> Sign ''pay'' (private_key s') = Inr sig \<and> Verify ''pay'' sig (public_key s') = Inr 1"
proof -
  obtain s' where k: "KeyGen \<lparr>open_ok = \<lambda>_. True, read_byte = \<lambda>_. Some CHR ''k''\<rparr> 0
       \<lparr>public_key = \<lparr>S0 = [], S1 = []\<rparr>, private_key = \<lparr>S0 = [], S1 = []\<rparr>\<rparr> = (s', Inr 1)"
    using KeyGen_total [of "\<lparr>open_ok = \<lambda>_. True, read_byte = \<lambda>_. Some CHR ''k''\<rparr>"] by fastforce
  show ?thesis using lamport_sign_verify [OF k, of "''pay''"] k by blast
qed

text \<open>
  C26. A second message needs a second preimage: if one public key accepts signatures for two
  messages whose signed bits differ, the two signatures contain, at some position, preimages of
  both hashes of the key pair there. A signer who signs once has published only one of them.
\<close>

theorem lamport_forgery_needs_preimage:
  assumes "Verify m sig pub = Inr 1" and "Verify m' sig' pub = Inr 1" and "message_bits m \<noteq> message_bits m'"
  shows "\<exists>i < KEY_LEN. {hash (sig ! i), hash (sig' ! i)} = {S0 pub ! i, S1 pub ! i}
           \<and> message_bits m ! i \<noteq> message_bits m' ! i"
proof -
  obtain i where "i < KEY_LEN" and d: "message_bits m ! i \<noteq> message_bits m' ! i"
    using assms(3) by (auto simp: list_eq_iff_nth_eq)
  moreover have "{selected (message_bits m) pub i, selected (message_bits m') pub i} = {S0 pub ! i, S1 pub ! i}"
    using d by (auto simp: selected_def)
  ultimately show ?thesis using assms(1,2) by (auto simp: Verify_success_iff)
qed

theorem lamport_forgery_needs_preimage_witness:
  "\<exists>i < KEY_LEN. {hash (map (selected (message_bits ''x'') \<lparr>S0 = replicate KEY_LEN ''a'', S1 = replicate KEY_LEN ''b''\<rparr>) [0..<KEY_LEN] ! i),
       hash (map (selected (message_bits ''y'') \<lparr>S0 = replicate KEY_LEN ''a'', S1 = replicate KEY_LEN ''b''\<rparr>) [0..<KEY_LEN] ! i)}
     = {replicate KEY_LEN (hash ''a'') ! i, replicate KEY_LEN (hash ''b'') ! i}"
proof -
  let ?priv = "\<lparr>S0 = replicate KEY_LEN ''a'', S1 = replicate KEY_LEN ''b''\<rparr>"
  let ?pub = "\<lparr>S0 = replicate KEY_LEN (hash ''a''), S1 = replicate KEY_LEN (hash ''b'')\<rparr>"
  have kp: "key_pair ?priv ?pub" by (simp add: key_pair_def key_complete_def)
  have v: "Verify m (map (selected (message_bits m) ?priv) [0..<KEY_LEN]) ?pub = Inr 1" for m
    using kp by (intro Verify_Sign [OF kp]) (simp add: Sign_eq key_pair_def)
  have "message_bits ''x'' ! 0 \<noteq> message_bits ''y'' ! 0"
    by (simp add: message_bits_def crop_eq string_bits_def nth_append char_bits_def)
  then have "message_bits ''x'' \<noteq> message_bits ''y''" by metis
  from lamport_forgery_needs_preimage [OF v v this] show ?thesis by auto
qed

text \<open>
  Only the first 32 characters of a message are signed: messages that agree on them have the same
  signatures and the same verdicts. The program signs 64-character digests, so the second half of
  every digest is unprotected.
\<close>

theorem signature_covers_prefix_only:
  assumes "take 32 m = take 32 m'"
  shows "Sign m key = Sign m' key \<and> Verify m sig key = Verify m' sig key"
  using assms by (simp add: Sign_eq Verify_eq message_bits_def crop_eq)

theorem signature_covers_prefix_only_witness:
  "\<forall>sig key. Verify (replicate 64 CHR ''0'') sig key = Verify (replicate 32 CHR ''0'' @ replicate 32 CHR ''f'') sig key"
  using signature_covers_prefix_only [of "replicate 64 CHR ''0''" "replicate 32 CHR ''0'' @ replicate 32 CHR ''f''"]
  by (simp add: take_replicate)

text \<open>
  A failure of the random device cannot leave a usable key behind: when \<^verbatim>\<open>KeyGen\<close> throws, the
  exception is the runtime error of the device, and the half-built private key signs nothing.
\<close>

theorem keygen_failure_unusable:
  assumes "KeyGen env call s = (s', Inl e)"
  shows "(\<exists>msg. e = Runtime_error msg) \<and> Sign m (private_key s') = Inr []"
  using keygen_loop_failure [OF assms [unfolded KeyGen_def]] by (simp add: Sign_eq key_complete_def)

theorem keygen_failure_unusable_witness:
  "\<exists>s' e. KeyGen \<lparr>open_ok = \<lambda>_. False, read_byte = \<lambda>_. None\<rparr> 0
       \<lparr>public_key = \<lparr>S0 = [], S1 = []\<rparr>, private_key = \<lparr>S0 = [], S1 = []\<rparr>\<rparr> = (s', Inl e)
     \<and> Sign ''pay'' (private_key s') = Inr []"
proof -
  obtain n where n: "KEY_LEN = Suc n" by (simp add: KEY_LEN_def)
  let ?s = "\<lparr>public_key = \<lparr>S0 = [], S1 = []\<rparr>, private_key = \<lparr>S0 = [], S1 = []\<rparr>\<rparr>"
  have k: "KeyGen \<lparr>open_ok = \<lambda>_. False, read_byte = \<lambda>_. None\<rparr> 0 ?s
      = (?s, Inl (Runtime_error ''Failed to open /dev/urandom''))"
    by (simp add: KeyGen_def n getRandomBits_def)
  show ?thesis using keygen_failure_unusable [OF k] k by blast
qed

text \<open>
  Keys survive the conversion to a string and back: a complete key whose entries can be written
  (the hexadecimal hashes of every public key can) is read back as it was.
\<close>

theorem sigkey_string_round_trip:
  assumes "key_complete key" and "list_all ascii (S0 key)" and "list_all ascii (S1 key)"
  shows "rbind (SigKey_to_string key) SigKey_from_string = Inr key"
  using assms by (intro key_codec.round_trip) simp

theorem sigkey_string_round_trip_witness:
  "rbind (SigKey_to_string \<lparr>S0 = replicate KEY_LEN ''a'', S1 = replicate KEY_LEN ''b''\<rparr>) SigKey_from_string
   = Inr \<lparr>S0 = replicate KEY_LEN ''a'', S1 = replicate KEY_LEN ''b''\<rparr>"
  by (rule sigkey_string_round_trip) (simp_all add: key_complete_def list_all_iff)

text \<open>
  The length test of \<^verbatim>\<open>SigKey_from_string\<close> never looks at \<^verbatim>\<open>S1\<close>: a text whose \<^verbatim>\<open>S1\<close> has more than
  256 entries is accepted and silently cut, although the text does not denote a key of the required
  length.
\<close>

theorem sigkey_parser_ignores_S1_length:
  assumes "json_parse str = Inr (key_as_json key)" and "length (S0 key) = KEY_LEN" and "KEY_LEN < length (S1 key)"
  shows "SigKey_from_string str = Inr \<lparr>S0 = S0 key, S1 = take KEY_LEN (S1 key)\<rparr>"
  using assms by (intro SigKey_from_json) simp_all

theorem sigkey_parser_ignores_S1_length_witness:
  "\<exists>str. json_dump (key_as_json \<lparr>S0 = replicate KEY_LEN ''a'', S1 = replicate 300 ''b''\<rparr>) = Inr str
     \<and> SigKey_from_string str = Inr \<lparr>S0 = replicate KEY_LEN ''a'', S1 = replicate KEY_LEN ''b''\<rparr>"
proof -
  let ?key = "\<lparr>S0 = replicate KEY_LEN ''a'', S1 = replicate 300 ''b''\<rparr>"
  have "json_ascii (key_as_json ?key)" by (simp add: key_as_json_def list_all_iff)
  then obtain str where "json_dump (key_as_json ?key) = Inr str" using json_dump_ascii by blast
  moreover from this have "json_parse str = Inr (key_as_json ?key)" by (simp add: json_parse_json_dump)
  ultimately show ?thesis
    using sigkey_parser_ignores_S1_length [of str ?key] by (auto simp: KEY_LEN_def min_def)
qed

end
