(* ===== verification/Utxo.thy ===== *)
theory Utxo
  imports Signature
begin

text \<open>
  Transaction inputs and outputs and the list of unspent outputs: the classes \<^verbatim>\<open>Input\<close>, \<^verbatim>\<open>Output\<close>,
  \<^verbatim>\<open>UTXO\<close> and \<^verbatim>\<open>UTXOlist\<close> of \<^verbatim>\<open>include/blockchain/{input,output,utxo}.h\<close> and
  \<^verbatim>\<open>lib/blockchain/{input,output}.cc\<close>, with their comparison operators, JSON texts and
  protocol-buffer forms (the message types of \<^verbatim>\<open>protos/chat.proto\<close> as plain data). The lemmas show that
  the comparison operators are linear orders, what a lookup in the list returns, and the round trips.
\<close>

section \<open>Inputs\<close>

datatype Input = Input (in_txID: u32) (in_outputIndex: u64)

definition input_neq :: "Input \<Rightarrow> Input \<Rightarrow> bool" where
  "input_neq i1 i2 \<longleftrightarrow> in_txID i1 \<noteq> in_txID i2 \<or> in_outputIndex i1 \<noteq> in_outputIndex i2"

definition input_less :: "Input \<Rightarrow> Input \<Rightarrow> bool" where
  "input_less i1 i2 = (if in_txID i1 < in_txID i2 then True
     else if in_txID i1 = in_txID i2 then in_outputIndex i1 < in_outputIndex i2 else False)"

definition Input_to_string :: "Input \<Rightarrow> string res" where
  "Input_to_string i = rbind (json_set JNull ''txID'' (JUnsigned (ucast (in_txID i))))
     (\<lambda>j. rbind (json_set j ''outputIndex'' (JUnsigned (in_outputIndex i))) json_dump)"

definition Input_from_string :: "string \<Rightarrow> Input res" where
  "Input_from_string s = rbind (json_parse s) (\<lambda>j.
     rbind (json_at j ''txID'') (\<lambda>jt. rbind (get_arith jt) (\<lambda>txID.
     rbind (json_at j ''outputIndex'') (\<lambda>jo. rbind (get_u64 jo) (\<lambda>outputIndex. Inr (Input txID outputIndex))))))"

section \<open>Outputs\<close>

datatype Output = Output (out_value: u64) (out_receiverID: u32)

text \<open>The inequality of the source: both fields have to differ.\<close>

definition output_neq :: "Output \<Rightarrow> Output \<Rightarrow> bool" where
  "output_neq o1 o2 \<longleftrightarrow> out_value o1 \<noteq> out_value o2 \<and> out_receiverID o1 \<noteq> out_receiverID o2"

definition output_less :: "Output \<Rightarrow> Output \<Rightarrow> bool" where
  "output_less o1 o2 = (if out_value o1 = out_value o2 then out_receiverID o1 < out_receiverID o2
     else out_value o1 < out_value o2)"

definition Output_to_string :: "Output \<Rightarrow> string res" where
  "Output_to_string out = rbind (json_set JNull ''value'' (JUnsigned (out_value out)))
     (\<lambda>j. rbind (json_set j ''receiverID'' (JUnsigned (ucast (out_receiverID out)))) json_dump)"

definition Output_from_string :: "string \<Rightarrow> Output res" where
  "Output_from_string s = rbind (json_parse s) (\<lambda>j.
     rbind (json_at j ''value'') (\<lambda>jv. rbind (get_u64 jv) (\<lambda>v.
     rbind (json_at j ''receiverID'') (\<lambda>jr. rbind (get_arith jr) (\<lambda>r. Inr (Output v r))))))"

section \<open>Unspent outputs\<close>

text \<open>The output index of an unspent output is a signed 32-bit \<^verbatim>\<open>int\<close>.\<close>

datatype UTXO = UTXO (transactionId: u32) (utxo_outputIndex: u32) (utxo_output: Output)

definition utxo_less :: "UTXO \<Rightarrow> UTXO \<Rightarrow> bool" where
  "utxo_less l r = (if transactionId l = transactionId r then sint (utxo_outputIndex l) < sint (utxo_outputIndex r)
     else transactionId l < transactionId r)"

datatype chat_UTXO = Chat_UTXO (cu_transaction_id: u32) (cu_output_index: u32) (cu_output_value: u64) (cu_receiver_id: u32)

definition toProtoUTXO :: "UTXO \<Rightarrow> chat_UTXO" where
  "toProtoUTXO u = Chat_UTXO (transactionId u) (utxo_outputIndex u) (out_value (utxo_output u))
     (out_receiverID (utxo_output u))"

definition UTXO_of_proto :: "chat_UTXO \<Rightarrow> UTXO" where
  "UTXO_of_proto p = UTXO (cu_transaction_id p) (cu_output_index p) (Output (cu_output_value p) (cu_receiver_id p))"

type_synonym UTXOlist = "UTXO list"

definition utxolist_add :: "UTXOlist \<Rightarrow> UTXO \<Rightarrow> UTXOlist" where
  "utxolist_add l u = l @ [u]"

definition utxolist_at :: "UTXOlist \<Rightarrow> nat \<Rightarrow> UTXO res" where
  "utxolist_at l i = (if i < length l then Inr (l ! i) else Inl (Undefined_behaviour ''vector index''))"

text \<open>
  The comparison of \<^verbatim>\<open>index\<close> and of the transaction checks: the signed index of the unspent output is
  converted to 64 unsigned bits.
\<close>

definition utxo_matches :: "Input \<Rightarrow> UTXO \<Rightarrow> bool" where
  "utxo_matches i u \<longleftrightarrow> transactionId u = in_txID i \<and> (scast (utxo_outputIndex u) :: u64) = in_outputIndex i"

fun index_from :: "nat \<Rightarrow> UTXOlist \<Rightarrow> Input \<Rightarrow> int" where
  "index_from n [] i = - 1"
| "index_from n (u # us) i = (if utxo_matches i u then int n else index_from (Suc n) us i)"

definition utxolist_index :: "UTXOlist \<Rightarrow> Input \<Rightarrow> int" where
  "utxolist_index l i = index_from 0 l i"

definition utxolist_erase :: "UTXOlist \<Rightarrow> int \<Rightarrow> UTXOlist res" where
  "utxolist_erase l k = (if 0 \<le> k \<and> k < int (length l) then Inr (take (nat k) l @ drop (Suc (nat k)) l)
     else Inl (Undefined_behaviour ''vector erase''))"

definition toProtoUTXOlist :: "UTXOlist \<Rightarrow> chat_UTXO list \<Rightarrow> chat_UTXO list" where
  "toProtoUTXOlist l p = p @ map toProtoUTXO l"

definition fromProtoUTXOlist :: "UTXOlist \<Rightarrow> chat_UTXO list \<Rightarrow> UTXOlist" where
  "fromProtoUTXOlist l p = l @ map UTXO_of_proto p"

text \<open>The constructor from the protocol-buffer form, and \<^verbatim>\<open>size\<close>, which returns the size as an \<^verbatim>\<open>int\<close>.\<close>

definition UTXOlist_of_proto :: "chat_UTXO list \<Rightarrow> UTXOlist" where
  "UTXOlist_of_proto p = foldl (\<lambda>l u. l @ [UTXO_of_proto u]) [] p"

definition utxolist_size :: "UTXOlist \<Rightarrow> int" where
  "utxolist_size l = sint (of_nat (length l) :: u32)"

definition utxolist_empty :: "UTXOlist \<Rightarrow> bool" where
  "utxolist_empty l \<longleftrightarrow> l = []"

definition utxolist_clear :: "UTXOlist \<Rightarrow> UTXOlist" where
  "utxolist_clear l = []"

section \<open>Orders\<close>

instantiation Input :: linorder
begin

definition less_Input :: "Input \<Rightarrow> Input \<Rightarrow> bool" where
  "less_Input = input_less"

definition less_eq_Input :: "Input \<Rightarrow> Input \<Rightarrow> bool" where
  "less_eq_Input i1 i2 \<longleftrightarrow> input_less i1 i2 \<or> i1 = i2"

instance
proof
  fix x y z :: Input
  show "x < y \<longleftrightarrow> x \<le> y \<and> \<not> y \<le> x" and "x \<le> x" and "x \<le> y \<Longrightarrow> y \<le> x \<Longrightarrow> x = y"
    and "x \<le> y \<or> y \<le> x"
    by (cases x; cases y; auto simp: less_Input_def less_eq_Input_def input_less_def split: if_splits)+
  show "x \<le> y \<Longrightarrow> y \<le> z \<Longrightarrow> x \<le> z"
    by (auto simp: less_Input_def less_eq_Input_def input_less_def split: if_splits)
qed

end

instantiation Output :: linorder
begin

definition less_Output :: "Output \<Rightarrow> Output \<Rightarrow> bool" where
  "less_Output = output_less"

definition less_eq_Output :: "Output \<Rightarrow> Output \<Rightarrow> bool" where
  "less_eq_Output o1 o2 \<longleftrightarrow> output_less o1 o2 \<or> o1 = o2"

instance
proof
  fix x y z :: Output
  show "x < y \<longleftrightarrow> x \<le> y \<and> \<not> y \<le> x" and "x \<le> x" and "x \<le> y \<Longrightarrow> y \<le> x \<Longrightarrow> x = y"
    and "x \<le> y \<or> y \<le> x"
    by (cases x; cases y; auto simp: less_Output_def less_eq_Output_def output_less_def split: if_splits)+
  show "x \<le> y \<Longrightarrow> y \<le> z \<Longrightarrow> x \<le> z"
    by (auto simp: less_Output_def less_eq_Output_def output_less_def split: if_splits)
qed

end

section \<open>Lemmas\<close>

lemma input_neq_iff [simp]: "input_neq i1 i2 \<longleftrightarrow> i1 \<noteq> i2"
  by (cases i1; cases i2) (auto simp: input_neq_def)

lemma utxo_proto_round_trip [simp]: "UTXO_of_proto (toProtoUTXO u) = u"
  by (cases u; cases "utxo_output u") (simp add: UTXO_of_proto_def toProtoUTXO_def)

lemma UTXOlist_of_proto_eq: "UTXOlist_of_proto p = fromProtoUTXOlist [] p"
proof -
  have "foldl (\<lambda>l u. l @ [UTXO_of_proto u]) l p = l @ map UTXO_of_proto p" for l by (induction p arbitrary: l) simp_all
  then show ?thesis by (simp add: UTXOlist_of_proto_def fromProtoUTXOlist_def)
qed

lemma utxolist_size_small: "length l < 2 ^ 31 \<Longrightarrow> utxolist_size l = int (length l)"
proof -
  assume l: "length l < 2 ^ 31"
  then have "unat (of_nat (length l) :: u32) = length l" by (simp add: unat_of_nat)
  then show ?thesis using l sint_small32 [of "of_nat (length l)"] by (simp add: utxolist_size_def)
qed

lemma utxolist_proto_round_trip: "fromProtoUTXOlist [] (toProtoUTXOlist l []) = l"
  by (simp add: fromProtoUTXOlist_def toProtoUTXOlist_def map_idI)

definition input_as_json :: "Input \<Rightarrow> json" where
  "input_as_json i = JObject [(''outputIndex'', JUnsigned (in_outputIndex i)), (''txID'', JUnsigned (ucast (in_txID i)))]"

definition output_as_json :: "Output \<Rightarrow> json" where
  "output_as_json out = JObject [(''receiverID'', JUnsigned (ucast (out_receiverID out))), (''value'', JUnsigned (out_value out))]"

lemma Input_to_string_eq: "Input_to_string i = json_dump (input_as_json i)"
  by (simp add: Input_to_string_def input_as_json_def)

lemma Output_to_string_eq: "Output_to_string out = json_dump (output_as_json out)"
  by (simp add: Output_to_string_def output_as_json_def)

lemma Input_to_string_total: "\<exists>s. Input_to_string i = Inr s \<and> ascii s"
  unfolding Input_to_string_eq by (rule json_dump_ascii) (simp add: input_as_json_def)

lemma Output_to_string_total: "\<exists>s. Output_to_string out = Inr s \<and> ascii s"
  unfolding Output_to_string_eq by (rule json_dump_ascii) (simp add: output_as_json_def)

lemma Input_to_string_ascii: "Input_to_string i = Inr s \<Longrightarrow> ascii s"
  using Input_to_string_total [of i] by auto

lemma Output_to_string_ascii: "Output_to_string i = Inr s \<Longrightarrow> ascii s"
  using Output_to_string_total [of i] by auto

lemma Input_round_trip: "Input_to_string i = Inr s \<Longrightarrow> Input_from_string s = Inr i"
  using json_parse_json_dump [of "input_as_json i" s]
  by (simp add: Input_to_string_eq Input_from_string_def) (simp add: input_as_json_def)

lemma Output_round_trip: "Output_to_string out = Inr s \<Longrightarrow> Output_from_string s = Inr out"
  using json_parse_json_dump [of "output_as_json out" s]
  by (simp add: Output_to_string_eq Output_from_string_def) (simp add: output_as_json_def)

interpretation input_codec: text_codec "\<lambda>_. True" Input_to_string Input_from_string
  by unfold_locales (use Input_to_string_total Input_round_trip in blast)+

interpretation output_codec: text_codec "\<lambda>_. True" Output_to_string Output_from_string
  by unfold_locales (use Output_to_string_total Output_round_trip in blast)+

lemma index_from_none: "index_from n l i = - 1 \<longleftrightarrow> \<not> (\<exists>u \<in> set l. utxo_matches i u)"
  by (induction l arbitrary: n) auto

lemma index_from_first:
  "\<not> (\<exists>u \<in> set pre. utxo_matches i u) \<Longrightarrow> utxo_matches i u \<Longrightarrow>
   index_from n (pre @ u # post) i = int (n + length pre)"
  by (induction pre arbitrary: n) auto

section \<open>Properties of the list of unspent outputs\<close>

text \<open>
  Looking an input up in the list gives the position of the first unspent output it refers to,
  erasing there removes exactly that entry, and the result is -1 exactly when no entry matches.
\<close>

theorem utxolist_index_erase:
  assumes "\<not> (\<exists>v \<in> set pre. utxo_matches i v)" and "utxo_matches i u"
  shows "utxolist_index (pre @ u # post) i = int (length pre)
       \<and> utxolist_erase (pre @ u # post) (utxolist_index (pre @ u # post) i) = Inr (pre @ post)
       \<and> utxolist_index pre i = - 1"
  using index_from_first [OF assms, of 0 post] assms(1)
  by (simp add: utxolist_index_def utxolist_erase_def index_from_none)

theorem utxolist_index_erase_witness:
  "utxolist_erase [UTXO 1 0 (Output 5 9), UTXO 2 3 (Output 7 9)]
     (utxolist_index [UTXO 1 0 (Output 5 9), UTXO 2 3 (Output 7 9)] (Input 2 3)) = Inr [UTXO 1 0 (Output 5 9)]"
  using utxolist_index_erase [of "[UTXO 1 0 (Output 5 9)]" "Input 2 3" "UTXO 2 3 (Output 7 9)" "[]"]
  by (auto simp: utxo_matches_def)

end
