(* ===== verification/Transaction.thy ===== *)
theory Transaction
  imports Utxo
begin

text \<open>
  The class \<^verbatim>\<open>Transaction\<close> of \<^verbatim>\<open>include/blockchain/transaction.h\<close> and \<^verbatim>\<open>lib/blockchain/transaction.cc\<close>:
  the spending conditions with their 32-bit totals, the digest, the equality operator, and the
  conversions to JSON text and to protocol buffers. The lemmas say what an accepted transaction
  guarantees, where the totals wrap, what the digest identifies, and that both conversions can be
  undone.
\<close>

section \<open>The class\<close>

record Transaction =
  inputs :: "Input list"
  outputs :: "Output list"
  senderSig :: "string list"
  senderID :: u16
  tx_ID :: u32
  tx_public_key :: SigKey

text \<open>
  The default constructor. The two identifiers are uninitialised there; the program overwrites them
  before it reads them, and zero stands for their content.
\<close>

definition new_Transaction :: Transaction where
  "new_Transaction = \<lparr>inputs = [], outputs = [], senderSig = [], senderID = 0, tx_ID = 0,
     tx_public_key = \<lparr>S0 = [], S1 = []\<rparr>\<rparr>"

definition addInput :: "Input \<Rightarrow> Transaction \<Rightarrow> Transaction" where
  "addInput i t = t\<lparr>inputs := inputs t @ [i]\<rparr>"

definition addOutput :: "Output \<Rightarrow> Transaction \<Rightarrow> Transaction" where
  "addOutput out t = t\<lparr>outputs := outputs t @ [out]\<rparr>"

section \<open>Spending conditions\<close>

text \<open>
  \<^verbatim>\<open>total += value\<close> on an \<^verbatim>\<open>int\<close> and a \<^verbatim>\<open>uint64_t\<close>: the sum is formed in 64 bits and stored back in 32.
\<close>

definition add_to_total :: "u32 \<Rightarrow> u64 \<Rightarrow> u32" where
  "add_to_total acc v = ucast ((scast acc :: u64) + v)"

definition totalOutputValue :: "Output list \<Rightarrow> u32" where
  "totalOutputValue outs = foldl (\<lambda>acc out. add_to_total acc (out_value out)) 0 outs"

text \<open>The first unspent output an input refers to (the inner loop with its \<^verbatim>\<open>break\<close>).\<close>

fun find_utxo :: "Input \<Rightarrow> UTXOlist \<Rightarrow> UTXO option" where
  "find_utxo i [] = None"
| "find_utxo i (u # us) =
     (if in_txID i = transactionId u \<and> in_outputIndex i = (scast (utxo_outputIndex u) :: u64) then Some u
      else find_utxo i us)"

fun totalInputValue :: "Input list \<Rightarrow> UTXOlist \<Rightarrow> u32 \<Rightarrow> u32 option" where
  "totalInputValue [] utxo acc = Some acc"
| "totalInputValue (i # is) utxo acc = (case find_utxo i utxo of
       None \<Rightarrow> None
     | Some u \<Rightarrow> totalInputValue is utxo (add_to_total acc (out_value (utxo_output u))))"

fun find_key :: "u32 \<Rightarrow> u32 list \<Rightarrow> bool" where
  "find_key r [] = False"
| "find_key r (key # keys) = (if r = key then True else find_key r keys)"

fun all_receivers_known :: "Output list \<Rightarrow> u32 list \<Rightarrow> bool" where
  "all_receivers_known [] wallet_ids = True"
| "all_receivers_known (out # outs) wallet_ids =
     (if \<not> find_key (out_receiverID out) wallet_ids then False else all_receivers_known outs wallet_ids)"

definition checkSpendingConditions :: "Transaction \<Rightarrow> UTXOlist \<Rightarrow> u32 list \<Rightarrow> bool" where
  "checkSpendingConditions t utxolist wallet_ids =
    (if inputs t = [] then outputs t = []
     else let total_out = totalOutputValue (outputs t) in
       case totalInputValue (inputs t) utxolist 0 of
         None \<Rightarrow> False
       | Some total_in \<Rightarrow> if total_in \<noteq> total_out then False else all_receivers_known (outputs t) wallet_ids)"

section \<open>Digest and equality\<close>

text \<open>\<^verbatim>\<open>getStringDigest\<close>: decimal numbers written one after the other.\<close>

definition getStringDigest :: "Transaction \<Rightarrow> string" where
  "getStringDigest t = show_nat (unat (tx_ID t))
     @ concat (map (\<lambda>i. show_nat (unat (in_txID i)) @ show_nat (unat (in_outputIndex i))) (inputs t))
     @ concat (map (\<lambda>out. show_nat (unat (out_value out)) @ show_nat (unat (out_receiverID out))) (outputs t))"

definition Transaction_getDigest :: "Transaction \<Rightarrow> string" where
  "Transaction_getDigest t = hash (getStringDigest t)"

fun any_differs :: "('a \<Rightarrow> 'a \<Rightarrow> bool) \<Rightarrow> 'a list \<Rightarrow> 'a list \<Rightarrow> bool" where
  "any_differs neq (x # xs) (y # ys) = (if neq x y then True else any_differs neq xs ys)"
| "any_differs neq _ _ = False"

definition Transaction_eq :: "Transaction \<Rightarrow> Transaction \<Rightarrow> bool" where
  "Transaction_eq t1 t2 =
    (if length (inputs t1) \<noteq> length (inputs t2) then False
     else if any_differs input_neq (inputs t1) (inputs t2) then False
     else if length (outputs t1) \<noteq> length (outputs t2) then False
     else if any_differs output_neq (outputs t1) (outputs t2) then False
     else if senderSig t1 \<noteq> senderSig t2 then False
     else if senderID t1 \<noteq> senderID t2 then False
     else if tx_ID t1 \<noteq> tx_ID t2 then False
     else if tx_public_key t1 \<noteq> tx_public_key t2 then False
     else True)"

section \<open>JSON text\<close>

definition has_key :: "SigKey \<Rightarrow> bool" where
  "has_key key \<longleftrightarrow> S0 key \<noteq> [] \<and> S1 key \<noteq> []"

definition Transaction_to_string :: "Transaction \<Rightarrow> string res" where
  "Transaction_to_string t =
     rbind (json_set JNull ''txID'' (JUnsigned (ucast (tx_ID t)))) (\<lambda>j.
     rbind (rfold (\<lambda>i j. rbind (Input_to_string i)
              (\<lambda>s. json_update j ''inputs'' (\<lambda>e. json_push_back e (JString s)))) (inputs t) j) (\<lambda>j.
     rbind (rfold (\<lambda>out j. rbind (Output_to_string out)
              (\<lambda>s. json_update j ''outputs'' (\<lambda>e. json_push_back e (JString s)))) (outputs t) j) (\<lambda>j.
     rbind (json_set j ''senderID'' (JUnsigned (ucast (senderID t)))) (\<lambda>j.
     rbind (signature_to_json (senderSig t)) (\<lambda>sig.
     rbind (json_set j ''senderSig'' (JString sig)) (\<lambda>j.
     rbind (if has_key (tx_public_key t)
            then rbind (SigKey_to_string (tx_public_key t)) (\<lambda>key. json_set j ''publicKey'' (JString key))
            else Inr j) json_dump))))))"

definition json_contains :: "json \<Rightarrow> string \<Rightarrow> bool" where
  "json_contains j k = (case j of JObject kvs \<Rightarrow> map_of kvs k \<noteq> None | _ \<Rightarrow> False)"

text \<open>\<^verbatim>\<open>from_string\<close> on an existing object, whose key stays when the text has none.\<close>

definition Transaction_from_string :: "Transaction \<Rightarrow> string \<Rightarrow> Transaction res" where
  "Transaction_from_string t0 s = rbind (json_parse s) (\<lambda>j.
     rbind (json_at j ''txID'') (\<lambda>jt. rbind (get_arith jt) (\<lambda>txID.
     rbind (json_at j ''inputs'') (\<lambda>ji.
     rbind (rmap (\<lambda>el. rbind (get_string el) Input_from_string) (json_elements ji)) (\<lambda>ins.
     rbind (json_at j ''outputs'') (\<lambda>jo.
     rbind (rmap (\<lambda>el. rbind (get_string el) Output_from_string) (json_elements jo)) (\<lambda>outs.
     rbind (json_at j ''senderID'') (\<lambda>js. rbind (get_arith js) (\<lambda>sender.
     rbind (json_at j ''senderSig'') (\<lambda>jsig. rbind (get_string jsig) (\<lambda>sigtext. rbind (json_to_string sigtext) (\<lambda>sig.
     rbind (if json_contains j ''publicKey''
            then rbind (json_at j ''publicKey'') (\<lambda>jk. rbind (get_string jk) SigKey_from_string)
            else Inr (tx_public_key t0)) (\<lambda>key.
       Inr (t0\<lparr>inputs := ins, outputs := outs, senderSig := sig, senderID := sender, tx_ID := txID,
               tx_public_key := key\<rparr>))))))))))))))"

section \<open>Protocol buffers\<close>

datatype chat_Input = Chat_Input (ci_txid: u32) (ci_outputindex: u64)
datatype chat_Output = Chat_Output (co_value: u64) (co_receiverid: u32)

record chat_Transaction =
  ct_txid :: u32
  ct_input :: "chat_Input list"
  ct_output :: "chat_Output list"
  ct_senderid :: u32
  ct_sendersig :: "string list"
  ct_publickey :: string

definition chat_Transaction_empty :: chat_Transaction where
  "chat_Transaction_empty = \<lparr>ct_txid = 0, ct_input = [], ct_output = [], ct_senderid = 0, ct_sendersig = [],
     ct_publickey = []\<rparr>"

definition toProtoTransaction :: "Transaction \<Rightarrow> chat_Transaction \<Rightarrow> chat_Transaction res" where
  "toProtoTransaction t p =
     rbind (if has_key (tx_public_key t) then SigKey_to_string (tx_public_key t) else Inr []) (\<lambda>key.
       Inr (p\<lparr>ct_input := ct_input p @ map (\<lambda>i. Chat_Input (in_txID i) (in_outputIndex i)) (inputs t),
              ct_output := ct_output p @ map (\<lambda>out. Chat_Output (out_value out) (out_receiverID out)) (outputs t),
              ct_txid := tx_ID t, ct_senderid := ucast (senderID t), ct_publickey := key,
              ct_sendersig := ct_sendersig p @ senderSig t\<rparr>))"

definition fromProtoTransaction :: "Transaction \<Rightarrow> chat_Transaction \<Rightarrow> Transaction res" where
  "fromProtoTransaction t0 p =
     rbind (if ct_publickey p \<noteq> [] then SigKey_from_string (ct_publickey p) else Inr (tx_public_key t0)) (\<lambda>key.
       Inr (t0\<lparr>inputs := inputs t0 @ map (\<lambda>i. Input (ci_txid i) (ci_outputindex i)) (ct_input p),
               outputs := outputs t0 @ map (\<lambda>out. Output (co_value out) (co_receiverid out)) (ct_output p),
               tx_ID := ct_txid p, senderID := ucast (ct_senderid p), senderSig := ct_sendersig p,
               tx_public_key := key\<rparr>))"

section \<open>Vocabulary of the proofs\<close>

text \<open>The value an input spends, as a number, and the totals a transaction moves.\<close>

definition spent_value :: "UTXOlist \<Rightarrow> Input \<Rightarrow> nat" where
  "spent_value utxo i = (case find_utxo i utxo of None \<Rightarrow> 0 | Some u \<Rightarrow> unat (out_value (utxo_output u)))"

definition total_spent :: "UTXOlist \<Rightarrow> Transaction \<Rightarrow> nat" where
  "total_spent utxo t = sum_list (map (spent_value utxo) (inputs t))"

definition total_paid :: "Transaction \<Rightarrow> nat" where
  "total_paid t = sum_list (map (\<lambda>out. unat (out_value out)) (outputs t))"

text \<open>The input that spends a coin, its value, and lists of coins that refer to different outputs.\<close>

definition coin_input :: "UTXO \<Rightarrow> Input" where
  "coin_input utxo = Input (transactionId utxo) (scast (utxo_outputIndex utxo))"

definition coin_value :: "UTXO \<Rightarrow> nat" where
  "coin_value u = unat (out_value (utxo_output u))"

definition coins_distinct :: "UTXOlist \<Rightarrow> bool" where
  "coins_distinct l \<longleftrightarrow> distinct (map coin_input l)"

text \<open>A key that can be written, or no key at all.\<close>

definition key_writable :: "SigKey \<Rightarrow> bool" where
  "key_writable key \<longleftrightarrow> key = \<lparr>S0 = [], S1 = []\<rparr> \<or> key_complete key \<and> list_all ascii (S0 key) \<and> list_all ascii (S1 key)"

definition storable :: "Transaction \<Rightarrow> bool" where
  "storable t \<longleftrightarrow> inputs t \<noteq> [] \<and> outputs t \<noteq> [] \<and> list_all (\<lambda>s. length s = 32) (senderSig t)
     \<and> key_writable (tx_public_key t)"

definition tx_as_json :: "Transaction \<Rightarrow> string list \<Rightarrow> string list \<Rightarrow> string \<Rightarrow> (string \<times> json) list \<Rightarrow> json" where
  "tx_as_json t ins outs sig key = JObject ([(''inputs'', JArray (map JString ins)), (''outputs'', JArray (map JString outs))]
     @ key @ [(''senderID'', JUnsigned (ucast (senderID t))), (''senderSig'', JString sig),
        (''txID'', JUnsigned (ucast (tx_ID t)))])"

definition example_spend :: Transaction where
  "example_spend = \<lparr>inputs = [Input 1 0], outputs = [Output 3 7, Output 2 8], senderSig = [], senderID = 4,
     tx_ID = 9, tx_public_key = \<lparr>S0 = [], S1 = []\<rparr>\<rparr>"

section \<open>Lemmas on the spending conditions\<close>

lemma add_to_total_eq: "add_to_total acc v = acc + of_nat (unat v)"
proof -
  have u: "word_of_int (take_bit 64 z) = (word_of_int z :: u32)" for z
    by (simp add: word_of_int_eq_iff take_bit_take_bit)
  have s: "uint (scast acc :: u64) = take_bit 64 (sint acc)"
    by (simp only: scast_eq uint_word_of_int_eq) simp
  have "uint ((scast acc :: u64) + v) = take_bit 64 (take_bit 64 (sint acc) + uint v)"
    using uint_word_arith_bintrs(1) [of "scast acc :: u64" v] by (simp only: s) simp
  then have "uint ((scast acc :: u64) + v) = take_bit 64 (sint acc + uint v)"
    using take_bit_add [of 64 "take_bit 64 (sint acc)" "uint v"] take_bit_add [of 64 "sint acc" "uint v"]
    by (simp only: take_bit_take_bit min.idem)
  then have "add_to_total acc v = word_of_int (sint acc + uint v)"
    by (simp only: add_to_total_def ucast_eq u)
  then show ?thesis by simp
qed

lemma totalOutputValue_eq: "totalOutputValue outs = of_nat (sum_list (map (\<lambda>out. unat (out_value out)) outs))"
proof -
  have "foldl (\<lambda>acc out. add_to_total acc (out_value out)) a outs
      = a + of_nat (sum_list (map (\<lambda>out. unat (out_value out)) outs))" for a
    by (induction outs arbitrary: a) (simp_all add: add_to_total_eq)
  then show ?thesis by (simp add: totalOutputValue_def)
qed

lemma find_utxo_Some: "find_utxo i utxo = Some u \<Longrightarrow> u \<in> set utxo \<and> utxo_matches i u"
  by (induction utxo) (auto simp: utxo_matches_def split: if_splits)

lemma find_utxo_None: "find_utxo i utxo = None \<longleftrightarrow> \<not> (\<exists>u \<in> set utxo. utxo_matches i u)"
  by (induction utxo) (auto simp: utxo_matches_def)

lemma totalInputValue_eq:
  "totalInputValue is utxo acc =
    (if \<forall>i \<in> set is. \<exists>u \<in> set utxo. utxo_matches i u
     then Some (acc + of_nat (sum_list (map (spent_value utxo) is))) else None)"
proof (induction "is" arbitrary: acc)
  case (Cons i "is")
  show ?case
  proof (cases "find_utxo i utxo")
    case None
    then show ?thesis by (simp add: find_utxo_None [THEN iffD1])
  next
    case (Some u)
    then have "\<exists>u \<in> set utxo. utxo_matches i u" using find_utxo_Some by blast
    moreover have "spent_value utxo i = unat (out_value (utxo_output u))" using Some by (simp add: spent_value_def)
    ultimately show ?thesis using Cons Some by (simp add: add_to_total_eq)
  qed
qed simp

lemma find_key_iff [simp]: "find_key r keys \<longleftrightarrow> r \<in> set keys"
  by (induction keys) auto

lemma all_receivers_known_iff [simp]:
  "all_receivers_known outs ids \<longleftrightarrow> (\<forall>out \<in> set outs. out_receiverID out \<in> set ids)"
  by (induction outs) auto

lemma checkSpendingConditions_iff:
  "checkSpendingConditions t utxo ids \<longleftrightarrow>
    (if inputs t = [] then outputs t = []
     else (\<forall>i \<in> set (inputs t). \<exists>u \<in> set utxo. utxo_matches i u)
        \<and> total_spent utxo t mod 2 ^ 32 = total_paid t mod 2 ^ 32
        \<and> (\<forall>out \<in> set (outputs t). out_receiverID out \<in> set ids))"
proof -
  have "(of_nat m :: u32) = of_nat n \<longleftrightarrow> m mod 2 ^ 32 = n mod 2 ^ 32" for m n
    by (simp add: word_of_nat_eq_iff take_bit_eq_mod)
  then show ?thesis
    by (simp add: checkSpendingConditions_def totalInputValue_eq totalOutputValue_eq total_spent_def total_paid_def Let_def)
qed

lemma coin_input_matches: "utxo_matches i u \<longleftrightarrow> i = coin_input u"
  by (cases i) (auto simp: utxo_matches_def coin_input_def)

lemma spent_value_coin:
  assumes "coins_distinct l" and "u \<in> set l"
  shows "spent_value l (coin_input u) = coin_value u"
proof -
  obtain v where v: "find_utxo (coin_input u) l = Some v"
    using assms(2) find_utxo_None [of "coin_input u" l] by (auto simp: coin_input_matches)
  then have "v \<in> set l" "coin_input v = coin_input u" using find_utxo_Some [OF v] by (auto simp: coin_input_matches)
  then have "v = u" using assms by (auto simp: coins_distinct_def distinct_map inj_on_def)
  then show ?thesis using v by (simp add: spent_value_def coin_value_def)
qed

lemma spending_conditions_mono:
  assumes "checkSpendingConditions t l ids" and "set l \<subseteq> set l'" and "coins_distinct l'"
  shows "checkSpendingConditions t l' ids"
proof -
  have "spent_value l i = spent_value l' i" if i: "\<exists>u \<in> set l. utxo_matches i u" for i
  proof -
    obtain u where u: "find_utxo i l = Some u" using i find_utxo_None [of i l] by auto
    then have "u \<in> set l" "i = coin_input u" using find_utxo_Some [OF u] by (auto simp: coin_input_matches)
    then show ?thesis using spent_value_coin [OF assms(3)] assms(2) u by (auto simp: spent_value_def coin_value_def)
  qed
  then have "total_spent l t = total_spent l' t" if "\<forall>i \<in> set (inputs t). \<exists>u \<in> set l. utxo_matches i u"
    using that by (auto simp: total_spent_def intro!: arg_cong [where f = sum_list])
  then show ?thesis using assms(1,2) by (auto simp: checkSpendingConditions_iff split: if_splits) blast
qed

section \<open>Lemmas on the conversions\<close>

lemma has_key_complete: "key_complete key \<Longrightarrow> has_key key"
  by (auto simp: key_complete_def has_key_def KEY_LEN_def)

lemma has_key_empty [simp]: "\<not> has_key \<lparr>S0 = [], S1 = []\<rparr>"
  by (simp add: has_key_def)

lemma key_writable_text:
  assumes "key_writable key"
  shows "\<exists>str. ascii str \<and> (if has_key key then SigKey_to_string key = Inr str \<and> SigKey_from_string str = Inr key \<and> str \<noteq> []
                            else key = \<lparr>S0 = [], S1 = []\<rparr>)"
proof (cases "key = \<lparr>S0 = [], S1 = []\<rparr>")
  case False
  then have k: "key_complete key" "list_all ascii (S0 key)" "list_all ascii (S1 key)"
    using assms by (auto simp: key_writable_def)
  then obtain str where str: "SigKey_to_string key = Inr str" "ascii str" using SigKey_to_string_total by blast
  moreover have "SigKey_from_string str = Inr key" by (rule SigKey_round_trip [OF k(1) str(1)])
  moreover from this have "str \<noteq> []"
    by (auto simp: SigKey_from_string_def json_parse_def json_read_def skip_bom_def scan_def parse_loop.simps(1))
  ultimately show ?thesis using has_key_complete [OF k(1)] by auto
qed (auto intro: exI [of _ "[]"])

lemma signature_text:
  assumes "list_all (\<lambda>s. length s = 32) sig"
  shows "\<exists>str. signature_to_json sig = Inr str \<and> ascii str \<and> json_to_string str = Inr sig"
proof -
  have "list_all (\<lambda>s. length s \<le> 32) sig" using assms by (simp add: list_all_iff)
  then show ?thesis using signature_to_json_total signature_round_trip [OF assms] by blast
qed

lemma Transaction_to_string_eq:
  assumes "inputs t \<noteq> []" and "outputs t \<noteq> []" and "rmap Input_to_string (inputs t) = Inr ins"
    and "rmap Output_to_string (outputs t) = Inr outs" and "signature_to_json (senderSig t) = Inr sig"
    and "if has_key (tx_public_key t) then SigKey_to_string (tx_public_key t) = Inr key else True"
  shows "Transaction_to_string t = json_dump (tx_as_json t ins outs sig
     (if has_key (tx_public_key t) then [(''publicKey'', JString key)] else []))"
  using assms by (simp add: Transaction_to_string_def tx_as_json_def push_all)

lemma ucast_u16_u64 [simp]: "ucast (ucast (w :: u16) :: u64) = w" "ucast (ucast (w :: u16) :: u32) = w"
  by (rule bit_word_eqI, simp add: bit_simps)+

lemma Transaction_round_trip:
  assumes "storable t" and "tx_public_key t0 = \<lparr>S0 = [], S1 = []\<rparr>"
  shows "\<exists>s. Transaction_to_string t = Inr s \<and> ascii s \<and> Transaction_from_string t0 s = Inr t"
proof -
  obtain ins where ins: "rmap Input_to_string (inputs t) = Inr ins" "rmap Input_from_string ins = Inr (inputs t)"
    using input_codec.all_round_trip [of "inputs t"] by (auto simp: list_all_iff)
  obtain outs where outs: "rmap Output_to_string (outputs t) = Inr outs" "rmap Output_from_string outs = Inr (outputs t)"
    using output_codec.all_round_trip [of "outputs t"] by (auto simp: list_all_iff)
  have "list_all ascii ins" by (rule rmap_Inr_all [OF ins(1) Input_to_string_ascii])
  have "list_all ascii outs" by (rule rmap_Inr_all [OF outs(1) Output_to_string_ascii])
  obtain sig where sig: "signature_to_json (senderSig t) = Inr sig" "ascii sig" "json_to_string sig = Inr (senderSig t)"
    using assms(1) signature_text [of "senderSig t"] by (auto simp: storable_def)
  obtain key where key: "ascii key" "if has_key (tx_public_key t)
      then SigKey_to_string (tx_public_key t) = Inr key \<and> SigKey_from_string key = Inr (tx_public_key t) \<and> key \<noteq> []
      else tx_public_key t = \<lparr>S0 = [], S1 = []\<rparr>"
    using assms(1) key_writable_text [of "tx_public_key t"] by (auto simp: storable_def)
  let ?k = "if has_key (tx_public_key t) then [(''publicKey'', JString key)] else []"
  let ?j = "tx_as_json t ins outs sig ?k"
  have j: "json_ascii ?j" "json_ok ?j" "json_norm ?j = ?j"
    using \<open>list_all ascii ins\<close> \<open>list_all ascii outs\<close> sig(2) key(1)
    by (simp_all add: tx_as_json_def list_all_iff)
  then obtain s where s: "json_dump ?j = Inr s" "ascii s" using json_dump_ascii by blast
  have p: "json_parse s = Inr ?j" using json_parse_json_dump [OF s(1) j(2)] j(3) by simp
  have "Transaction_from_string t0 s = Inr t"
    using assms(2) ins(2) outs(2) sig(3) key(2) unfolding Transaction_from_string_def p
    by (cases "has_key (tx_public_key t)") (simp_all add: tx_as_json_def json_contains_def rmap_map)
  then show ?thesis
    using s Transaction_to_string_eq [of t ins outs sig key] ins outs sig key(2) assms(1)
    by (auto simp: storable_def split: if_splits)
qed


lemma transaction_proto_round_trip:
  assumes "key_writable (tx_public_key t)" and "inputs t0 = []" and "outputs t0 = []"
    and "tx_public_key t0 = \<lparr>S0 = [], S1 = []\<rparr>"
  shows "\<exists>p. toProtoTransaction t chat_Transaction_empty = Inr p \<and> fromProtoTransaction t0 p = Inr t"
proof -
  obtain key where "if has_key (tx_public_key t)
      then SigKey_to_string (tx_public_key t) = Inr key \<and> SigKey_from_string key = Inr (tx_public_key t) \<and> key \<noteq> []
      else tx_public_key t = \<lparr>S0 = [], S1 = []\<rparr>"
    using key_writable_text [OF assms(1)] by blast
  moreover have "map (\<lambda>i. Input (in_txID i) (in_outputIndex i)) is = is" for "is" by (simp add: map_idI)
  moreover have "map (\<lambda>out. Output (out_value out) (out_receiverID out)) outs = outs" for outs by (simp add: map_idI)
  ultimately show ?thesis
    using assms by (cases "has_key (tx_public_key t)")
      (simp_all add: toProtoTransaction_def fromProtoTransaction_def chat_Transaction_empty_def o_def)
qed

lemma any_differs_iff:
  "length xs = length ys \<Longrightarrow> any_differs neq xs ys \<longleftrightarrow> (\<exists>i < length xs. neq (xs ! i) (ys ! i))"
proof (induction neq xs ys rule: any_differs.induct)
  case (1 neq x xs y ys)
  then show ?case by (auto simp: Ex_less_Suc2)
qed auto

interpretation transaction_codec: text_codec storable Transaction_to_string "Transaction_from_string new_Transaction"
proof
  fix t s
  assume "storable t"
  then have r: "\<exists>s. Transaction_to_string t = Inr s \<and> ascii s \<and> Transaction_from_string new_Transaction s = Inr t"
    by (rule Transaction_round_trip) (simp add: new_Transaction_def)
  then show "\<exists>s. Transaction_to_string t = Inr s" by blast
  assume "Transaction_to_string t = Inr s"
  with r show "Transaction_from_string new_Transaction s = Inr t" by auto
qed

section \<open>Properties of transactions\<close>




text \<open>
  One unspent output can be counted twice inside a transaction: the spending conditions accept
  a transaction that lists the same input twice and pays out twice its value.
\<close>

theorem spending_conditions_count_duplicates:
  "checkSpendingConditions \<lparr>inputs = [Input 1 0, Input 1 0], outputs = [Output 10 7], senderSig = [], senderID = 4,
     tx_ID = 9, tx_public_key = \<lparr>S0 = [], S1 = []\<rparr>\<rparr> [UTXO 1 0 (Output 5 4)] [7]"
  by (simp add: checkSpendingConditions_def totalOutputValue_def add_to_total_def)

text \<open>
  A transaction that is stored as text is read back unchanged: for every transaction with inputs,
  outputs, 32-byte signature entries and a complete or absent key, \<^verbatim>\<open>to_string\<close> succeeds and
  \<^verbatim>\<open>from_string\<close> on a fresh object gives the transaction. (The same object is nested: the inputs and
  outputs are JSON texts inside JSON strings.)
\<close>

theorem transaction_string_round_trip:
  assumes "storable t" and "tx_public_key t0 = \<lparr>S0 = [], S1 = []\<rparr>"
  shows "\<exists>s. Transaction_to_string t = Inr s \<and> Transaction_from_string t0 s = Inr t"
  using Transaction_round_trip [OF assms] by blast

theorem transaction_string_round_trip_witness:
  "\<exists>s. Transaction_to_string (example_spend\<lparr>senderSig := [replicate 32 CHR ''s'']\<rparr>) = Inr s
     \<and> Transaction_from_string example_spend s = Inr (example_spend\<lparr>senderSig := [replicate 32 CHR ''s'']\<rparr>)"
  by (rule transaction_string_round_trip) (simp_all add: storable_def key_writable_def example_spend_def)

text \<open>
  A transaction survives the conversion to its protocol-buffer message and back, the key being
  sent as text and left out when it is empty.
\<close>

theorem transaction_message_round_trip:
  assumes "key_writable (tx_public_key t)" and "inputs t0 = []" and "outputs t0 = []"
    and "tx_public_key t0 = \<lparr>S0 = [], S1 = []\<rparr>"
  shows "\<exists>p. toProtoTransaction t chat_Transaction_empty = Inr p \<and> fromProtoTransaction t0 p = Inr t"
  using assms by (rule transaction_proto_round_trip)

theorem transaction_message_round_trip_witness:
  "\<exists>p. toProtoTransaction example_spend chat_Transaction_empty = Inr p
     \<and> fromProtoTransaction (example_spend\<lparr>inputs := [], outputs := []\<rparr>) p = Inr example_spend"
  by (rule transaction_message_round_trip) (simp_all add: key_writable_def example_spend_def)

text \<open>
  A transaction without inputs cannot be stored and read back: \<^verbatim>\<open>to_string\<close> writes no
  \<^verbatim>\<open>inputs\<close> member, and \<^verbatim>\<open>from_string\<close> throws the JSON library's out-of-range exception on the text.
\<close>

theorem transaction_without_inputs_unreadable:
  assumes "inputs t = []" and "outputs t \<noteq> []" and "list_all (\<lambda>s. length s = 32) (senderSig t)"
    and "key_writable (tx_public_key t)"
  shows "\<exists>s. Transaction_to_string t = Inr s \<and> Transaction_from_string t0 s = Inl (Json_out_of_range 403)"
proof -
  obtain outs where outs: "rmap Output_to_string (outputs t) = Inr outs"
    using output_codec.all_round_trip [of "outputs t"] by (auto simp: list_all_iff)
  have "list_all ascii outs" by (rule rmap_Inr_all [OF outs Output_to_string_ascii])
  obtain sig where sig: "signature_to_json (senderSig t) = Inr sig" "ascii sig"
    using signature_text [OF assms(3)] by blast
  obtain key where key: "ascii key" "if has_key (tx_public_key t)
      then SigKey_to_string (tx_public_key t) = Inr key \<and> SigKey_from_string key = Inr (tx_public_key t) \<and> key \<noteq> []
      else tx_public_key t = \<lparr>S0 = [], S1 = []\<rparr>"
    using key_writable_text [OF assms(4)] by blast
  let ?j = "JObject ([(''outputs'', JArray (map JString outs))]
     @ (if has_key (tx_public_key t) then [(''publicKey'', JString key)] else [])
     @ [(''senderID'', JUnsigned (ucast (senderID t))), (''senderSig'', JString sig),
        (''txID'', JUnsigned (ucast (tx_ID t)))])"
  have t: "Transaction_to_string t = json_dump ?j"
    using assms(1,2) outs sig key(2) by (simp add: Transaction_to_string_def push_all)
  have j: "json_ascii ?j" "json_ok ?j" "json_norm ?j = ?j"
    using \<open>list_all ascii outs\<close> sig(2) key(1) by (simp_all add: list_all_iff)
  then obtain s where s: "json_dump ?j = Inr s" using json_dump_ascii by blast
  have "json_parse s = Inr ?j" using json_parse_json_dump [OF s j(2)] j(3) by simp
  then have "Transaction_from_string t0 s = Inl (Json_out_of_range 403)"
    by (simp add: Transaction_from_string_def)
  then show ?thesis using t s by auto
qed

theorem transaction_without_inputs_unreadable_witness:
  "\<exists>s. Transaction_to_string (example_spend\<lparr>inputs := []\<rparr>) = Inr s
     \<and> Transaction_from_string example_spend s = Inl (Json_out_of_range 403)"
  by (rule transaction_without_inputs_unreadable) (simp_all add: key_writable_def example_spend_def)

text \<open>
  What \<^verbatim>\<open>operator==\<close> compares: because the inequality of outputs asks for both fields to differ, two
  transactions count as equal as soon as corresponding outputs agree in their value or in their
  receiver; all other fields are compared exactly.
\<close>

theorem transaction_eq_outputs_weak:
  "Transaction_eq t1 t2 \<longleftrightarrow> inputs t1 = inputs t2 \<and> senderSig t1 = senderSig t2 \<and> senderID t1 = senderID t2
     \<and> tx_ID t1 = tx_ID t2 \<and> tx_public_key t1 = tx_public_key t2
     \<and> list_all2 (\<lambda>o1 o2. out_value o1 = out_value o2 \<or> out_receiverID o1 = out_receiverID o2) (outputs t1) (outputs t2)"
  by (auto simp: Transaction_eq_def any_differs_iff list_all2_conv_all_nth output_neq_def list_eq_iff_nth_eq)

text \<open>
  The digest does not identify the transaction: the numbers are written without separators, so
  different transactions have the same digest, and neither the sender nor the key enters it at all.
\<close>

theorem transaction_digest_ambiguous:
  "Transaction_getDigest \<lparr>inputs = [Input 23 4], outputs = [], senderSig = [], senderID = a, tx_ID = 1, tx_public_key = k\<rparr>
   = Transaction_getDigest \<lparr>inputs = [Input 3 4], outputs = [], senderSig = [], senderID = b, tx_ID = 12, tx_public_key = l\<rparr>"
  by (simp add: Transaction_getDigest_def getStringDigest_def show_nat_step)

end
