(* ===== verification/Header.thy ===== *)
theory Header
  imports Transaction
begin

text \<open>
  The class \<^verbatim>\<open>Header\<close> of \<^verbatim>\<open>include/blockchain/header.h\<close> and \<^verbatim>\<open>lib/blockchain/header.cc\<close>: the digest of
  the previous block and the Merkle root of the transactions. The loop that folds the transaction
  hashes level by level is a terminating function; it is shown to compute the root of the balanced
  tree over the hashes, to bind the sequence of hashes up to collisions of the hash function, and to
  give the same root when the last of an odd number of transactions is repeated.
\<close>

section \<open>The class\<close>

record Header =
  prevBlockDigest :: string
  merkleRoot :: string

section \<open>The Merkle root\<close>

text \<open>
  The inner loop with step two: the list is even when it runs (an odd one would read past its end),
  so the last equation is never reached with an element left.
\<close>

fun hash_pairs :: "string list \<Rightarrow> string list" where
  "hash_pairs (a # b # hashes) = hash (a @ b) # hash_pairs hashes"
| "hash_pairs _ = []"

text \<open>One iteration of the outer loop, with the last hash repeated when their number is odd.\<close>

definition merkle_level :: "string list \<Rightarrow> string list" where
  "merkle_level hashes =
     (let hashes = (if length hashes mod 2 \<noteq> 0 then hashes @ [last hashes] else hashes) in hash_pairs hashes)"

lemma length_hash_pairs: "length (hash_pairs hashes) = length hashes div 2"
  by (induction hashes rule: hash_pairs.induct) simp_all

lemma length_merkle_level [simp]: "length (merkle_level hashes) = (length hashes + 1) div 2"
  by (simp add: merkle_level_def Let_def length_hash_pairs) presburger

function merkle_loop :: "string list \<Rightarrow> string list" where
  "merkle_loop hashes = (if 1 < length hashes then merkle_loop (merkle_level hashes) else hashes)"
  by auto
termination by (relation "measure length") auto

declare merkle_loop.simps [simp del]

definition calculateMerkleRoot :: "Transaction list \<Rightarrow> Header \<Rightarrow> Header" where
  "calculateMerkleRoot transactions h =
    (if transactions = [] then h\<lparr>merkleRoot := []\<rparr>
     else h\<lparr>merkleRoot := merkle_loop (map Transaction_getDigest transactions) ! 0\<rparr>)"

definition Header_getID :: "Header \<Rightarrow> string" where
  "Header_getID h = hash (prevBlockDigest h @ merkleRoot h)"

section \<open>Conversions\<close>

definition Header_to_string :: "Header \<Rightarrow> string res" where
  "Header_to_string h =
     rbind (json_set JNull ''prevBlockDigest'' (JString (prevBlockDigest h))) (\<lambda>j.
     rbind (json_set j ''merkleRoot'' (JString (merkleRoot h))) json_dump)"

definition Header_from_string :: "Header \<Rightarrow> string \<Rightarrow> Header res" where
  "Header_from_string h0 s = rbind (json_parse s) (\<lambda>j.
     rbind (json_at j ''prevBlockDigest'') (\<lambda>jp. rbind (get_string jp) (\<lambda>prev.
     rbind (json_at j ''merkleRoot'') (\<lambda>jm. rbind (get_string jm) (\<lambda>root.
       Inr (h0\<lparr>prevBlockDigest := prev, merkleRoot := root\<rparr>))))))"

datatype chat_Header = Chat_Header (ch_prevblockdigest: string) (ch_merkleroot: string)

definition toProtoHeader :: "Header \<Rightarrow> chat_Header" where
  "toProtoHeader h = Chat_Header (prevBlockDigest h) (merkleRoot h)"

definition Header_of_proto :: "chat_Header \<Rightarrow> Header" where
  "Header_of_proto p = \<lparr>prevBlockDigest = ch_prevblockdigest p, merkleRoot = ch_merkleroot p\<rparr>"

section \<open>The Merkle tree, from the root down\<close>

text \<open>
  Reference definition: the root of a tree of height \<open>k\<close> over at most \<open>2 ^ k\<close> hashes. The left half
  is filled first; a tree whose right half is empty repeats its left half there.
\<close>

fun tree_root :: "nat \<Rightarrow> string list \<Rightarrow> string" where
  "tree_root 0 hs = hs ! 0"
| "tree_root (Suc k) hs =
     (if length hs \<le> 2 ^ k then let r = tree_root k hs in hash (r @ r)
      else hash (tree_root k (take (2 ^ k) hs) @ tree_root k (drop (2 ^ k) hs)))"

fun height :: "nat \<Rightarrow> nat" where
  "height n = (if n \<le> 1 then 0 else Suc (height ((n + 1) div 2)))"

declare height.simps [simp del]

text \<open>The texts the loop hashes on the way to the root.\<close>

fun pair_texts :: "string list \<Rightarrow> string list" where
  "pair_texts (a # b # hashes) = (a @ b) # pair_texts hashes"
| "pair_texts [a] = [a @ a]"
| "pair_texts [] = []"

function hashed_texts :: "string list \<Rightarrow> string list" where
  "hashed_texts hashes = (if 1 < length hashes then pair_texts hashes @ hashed_texts (merkle_level hashes) else [])"
  by auto
termination by (relation "measure length") auto

declare hashed_texts.simps [simp del]

section \<open>Lemmas on the levels\<close>

lemma height_power: "1 \<le> n \<Longrightarrow> n \<le> 2 ^ height n"
proof (induction n rule: height.induct)
  case (1 n)
  show ?case
  proof (cases "n \<le> 1")
    case False
    then have "(n + 1) div 2 \<le> 2 ^ height ((n + 1) div 2)" using 1 by simp
    then show ?thesis using False by (subst height.simps) simp
  qed (simp add: height.simps)
qed

lemma height_minimal: "n \<le> 2 ^ k \<Longrightarrow> height n \<le> k"
proof (induction k arbitrary: n)
  case 0
  then show ?case by (simp add: height.simps)
next
  case (Suc k)
  then have "height ((n + 1) div 2) \<le> k" by (intro Suc.IH) simp
  then show ?case by (subst height.simps) simp
qed

lemma height_least: "height n = (LEAST k. n \<le> 2 ^ k)"
proof (rule Least_equality [symmetric])
  show "n \<le> 2 ^ height n" using height_power [of n] by (cases "n = 0") auto
qed (rule height_minimal)

lemma merkle_level_simps [simp]:
  "merkle_level [] = []" "merkle_level [a] = [hash (a @ a)]"
  "merkle_level (a # b # hs) = hash (a @ b) # merkle_level hs"
  by (simp_all add: merkle_level_def Let_def)

lemma merkle_level_map: "merkle_level hs = map hash (pair_texts hs)"
  by (induction hs rule: pair_texts.induct) simp_all

lemma merkle_level_append: "even (length xs) \<Longrightarrow> merkle_level (xs @ ys) = merkle_level xs @ merkle_level ys"
  by (induction xs rule: pair_texts.induct) simp_all

lemma merkle_level_take: "merkle_level (take (2 * n) hs) = take n (merkle_level hs)"
proof (induction hs arbitrary: n rule: pair_texts.induct)
  case (1 a b hashes)
  then show ?case by (cases n) simp_all
next
  case (2 a)
  then show ?case by (cases n) simp_all
qed simp

lemma merkle_level_drop: "merkle_level (drop (2 * n) hs) = drop n (merkle_level hs)"
proof (induction hs arbitrary: n rule: pair_texts.induct)
  case (1 a b hashes)
  then show ?case by (cases n) simp_all
next
  case (2 a)
  then show ?case by (cases n) simp_all
qed simp

lemma tree_root_level:
  "hs \<noteq> [] \<Longrightarrow> length hs \<le> 2 ^ Suc k \<Longrightarrow> tree_root (Suc k) hs = tree_root k (merkle_level hs)"
proof (induction k arbitrary: hs)
  case 0
  then consider a where "hs = [a]" | a b where "hs = [a, b]"
    by (cases hs rule: pair_texts.cases) auto
  then show ?case by cases (simp_all add: Let_def)
next
  case (Suc k)
  have lev: "length (merkle_level hs) \<le> 2 ^ k \<longleftrightarrow> length hs \<le> 2 ^ Suc k" by auto
  show ?case
  proof (cases "length hs \<le> 2 ^ Suc k")
    case True
    then have "tree_root (Suc (Suc k)) hs = (let r = tree_root k (merkle_level hs) in hash (r @ r))"
      using Suc.IH [OF Suc.prems(1) True] by (simp add: Let_def)
    also have "\<dots> = tree_root (Suc k) (merkle_level hs)"
      using True lev by (simp add: Let_def)
    finally show ?thesis .
  next
    case False
    have "tree_root (Suc k) (take (2 ^ Suc k) hs) = tree_root k (take (2 ^ k) (merkle_level hs))"
      using Suc.prems Suc.IH [of "take (2 ^ Suc k) hs"] merkle_level_take [of "2 ^ k" hs] by simp
    moreover have "tree_root (Suc k) (drop (2 ^ Suc k) hs) = tree_root k (drop (2 ^ k) (merkle_level hs))"
      using Suc.prems Suc.IH [of "drop (2 ^ Suc k) hs"] merkle_level_drop [of "2 ^ k" hs] False by simp
    moreover have "tree_root (Suc (Suc k)) hs
        = hash (tree_root (Suc k) (take (2 ^ Suc k) hs) @ tree_root (Suc k) (drop (2 ^ Suc k) hs))"
      using False by (simp only: tree_root.simps(2) [of "Suc k"] if_False)
    moreover have "tree_root (Suc k) (merkle_level hs)
        = hash (tree_root k (take (2 ^ k) (merkle_level hs)) @ tree_root k (drop (2 ^ k) (merkle_level hs)))"
      using False lev by (simp only: tree_root.simps(2) [of k] if_False)
    ultimately show ?thesis by simp
  qed
qed

lemma merkle_loop_tree: "hs \<noteq> [] \<Longrightarrow> merkle_loop hs = [tree_root (height (length hs)) hs]"
proof (induction hs rule: merkle_loop.induct)
  case (1 hs)
  show ?case
  proof (cases "1 < length hs")
    case True
    moreover from True have "merkle_level hs \<noteq> []" by (cases hs rule: pair_texts.cases) auto
    moreover have "height (length hs) = Suc (height ((length hs + 1) div 2))"
      using True by (subst height.simps) simp
    moreover from this have "length hs \<le> 2 ^ Suc (height ((length hs + 1) div 2))"
      using height_power [of "length hs"] True by simp
    ultimately show ?thesis
      using 1 tree_root_level [of hs] by (subst merkle_loop.simps) simp
  next
    case False
    with 1 obtain a where "hs = [a]" by (cases hs rule: pair_texts.cases) auto
    then show ?thesis by (simp add: merkle_loop.simps height.simps)
  qed
qed

lemma merkle_level_duplicate: "odd (length hs) \<Longrightarrow> merkle_level (hs @ [last hs]) = merkle_level hs"
proof -
  assume "odd (length hs)"
  then have "length hs mod 2 \<noteq> 0" and "(length hs + 1) mod 2 = 0" by presburger+
  then show ?thesis by (simp add: merkle_level_def)
qed

lemma merkle_loop_duplicate:
  "odd (length hs) \<Longrightarrow> 1 < length hs \<Longrightarrow> merkle_loop (hs @ [last hs]) = merkle_loop hs"
  using merkle_level_duplicate [of hs] merkle_loop.simps [of hs] merkle_loop.simps [of "hs @ [last hs]"] by auto

lemma pair_texts_inj:
  assumes "length xs = length ys" and "list_all (\<lambda>h. length h = 64) xs" and "list_all (\<lambda>h. length h = 64) ys"
    and "pair_texts xs = pair_texts ys"
  shows "xs = ys"
  using assms
proof (induction xs arbitrary: ys rule: pair_texts.induct)
  case (1 a b xs)
  then obtain c d zs where "ys = c # d # zs" by (cases ys rule: pair_texts.cases) auto
  then show ?case using 1 by auto
next
  case (2 a)
  then obtain c where "ys = [c]" by (cases ys rule: pair_texts.cases) auto
  then show ?case using 2 by simp
qed simp

lemma map_hash_collision:
  assumes "map hash xs = map hash ys" and "xs \<noteq> ys"
  shows "\<exists>x \<in> set xs. \<exists>y \<in> set ys. x \<noteq> y \<and> hash x = hash y"
  using assms by (induction xs arbitrary: ys) fastforce+

lemma merkle_loop_binding:
  assumes "length xs = length ys" and "list_all (\<lambda>h. length h = 64) xs" and "list_all (\<lambda>h. length h = 64) ys"
    and "merkle_loop xs = merkle_loop ys" and "xs \<noteq> ys"
  shows "\<exists>x \<in> set (hashed_texts xs). \<exists>y \<in> set (hashed_texts ys). x \<noteq> y \<and> hash x = hash y"
  using assms
proof (induction xs arbitrary: ys rule: merkle_loop.induct)
  case (1 xs)
  show ?case
  proof (cases "1 < length xs")
    case True
    then have h: "hashed_texts xs = pair_texts xs @ hashed_texts (merkle_level xs)"
      "hashed_texts ys = pair_texts ys @ hashed_texts (merkle_level ys)"
      using 1 by (simp_all add: hashed_texts.simps [of xs] hashed_texts.simps [of ys])
    show ?thesis
    proof (cases "merkle_level xs = merkle_level ys")
      case True
      then have "\<exists>x \<in> set (pair_texts xs). \<exists>y \<in> set (pair_texts ys). x \<noteq> y \<and> hash x = hash y"
        using 1 pair_texts_inj [of xs ys] by (intro map_hash_collision) (auto simp: merkle_level_map)
      then show ?thesis using h by auto
    next
      case False
      have "list_all (\<lambda>h. length h = 64) (merkle_level zs)" for zs by (simp add: merkle_level_map list_all_iff)
      moreover have "merkle_loop (merkle_level xs) = merkle_loop (merkle_level ys)"
        using "1.prems" True merkle_loop.simps [of xs] merkle_loop.simps [of ys] by simp
      ultimately have "\<exists>x \<in> set (hashed_texts (merkle_level xs)). \<exists>y \<in> set (hashed_texts (merkle_level ys)). x \<noteq> y \<and> hash x = hash y"
        using "1.IH" [OF True, of "merkle_level ys"] "1.prems"(1) False by simp
      then show ?thesis using h by auto
    qed
  next
    case False
    then show ?thesis using 1 merkle_loop.simps [of xs] merkle_loop.simps [of ys] by simp
  qed
qed

section \<open>Lemmas on the conversions\<close>

definition header_as_json :: "Header \<Rightarrow> json" where
  "header_as_json h = JObject [(''merkleRoot'', JString (merkleRoot h)), (''prevBlockDigest'', JString (prevBlockDigest h))]"

definition header_writable :: "Header \<Rightarrow> bool" where
  "header_writable h \<longleftrightarrow> ascii (prevBlockDigest h) \<and> ascii (merkleRoot h)"

lemma Header_to_string_eq: "Header_to_string h = json_dump (header_as_json h)"
  by (simp add: Header_to_string_def header_as_json_def)

lemma Header_to_string_total: "header_writable h \<Longrightarrow> \<exists>s. Header_to_string h = Inr s \<and> ascii s"
  unfolding Header_to_string_eq by (rule json_dump_ascii) (simp add: header_as_json_def header_writable_def)

lemma Header_round_trip: "Header_to_string h = Inr s \<Longrightarrow> Header_from_string h0 s = Inr h"
  using json_parse_json_dump [of "header_as_json h" s]
  by (simp add: Header_to_string_eq Header_from_string_def) (simp add: header_as_json_def)

lemma Header_of_toProto [simp]: "Header_of_proto (toProtoHeader h) = h"
  by (simp add: Header_of_proto_def toProtoHeader_def)

interpretation header_codec: text_codec header_writable Header_to_string "Header_from_string \<lparr>prevBlockDigest = [], merkleRoot = []\<rparr>"
  by unfold_locales (use Header_to_string_total Header_round_trip in blast)+

lemma merkleRoot_tree:
  "merkleRoot (calculateMerkleRoot ts h)
   = (if ts = [] then [] else tree_root (height (length ts)) (map Transaction_getDigest ts))"
  by (simp add: calculateMerkleRoot_def merkle_loop_tree)

lemma merkle_hash_or_digest: "ts \<noteq> [] \<Longrightarrow> length (merkleRoot (calculateMerkleRoot ts h)) = 64"
proof -
  have "hs \<noteq> [] \<Longrightarrow> list_all (\<lambda>h. length h = 64) hs \<Longrightarrow> length (tree_root k hs) = 64" for k hs
    by (cases k) (auto simp: Let_def list_all_length)
  then show "ts \<noteq> [] \<Longrightarrow> length (merkleRoot (calculateMerkleRoot ts h)) = 64"
    by (simp add: merkleRoot_tree list_all_iff Transaction_getDigest_def)
qed

section \<open>Properties of the Merkle root\<close>

text \<open>
  C17. The level-by-level loop ends and computes the root of the balanced Merkle tree over the
  transaction digests: the tree of the smallest height that has room for them, in which an empty
  right half repeats the left one. Without transactions the root is the empty string.
\<close>

theorem merkle_root_is_tree_root:
  "merkleRoot (calculateMerkleRoot ts h)
     = (if ts = [] then [] else tree_root (height (length ts)) (map Transaction_getDigest ts))
   \<and> prevBlockDigest (calculateMerkleRoot ts h) = prevBlockDigest h
   \<and> height (length ts) = (LEAST k. length ts \<le> 2 ^ k)"
  by (simp add: merkleRoot_tree height_least) (simp add: calculateMerkleRoot_def)

text \<open>
  C34. The root binds the transactions: two lists of the same number of transactions with the same
  Merkle root have the same digests in the same order, or the two computations hash two different
  texts to the same value.
\<close>

theorem merkle_root_binds_transactions:
  assumes "length ts = length us"
    and "merkleRoot (calculateMerkleRoot ts h) = merkleRoot (calculateMerkleRoot us h')"
  shows "map Transaction_getDigest ts = map Transaction_getDigest us
       \<or> (\<exists>x \<in> set (hashed_texts (map Transaction_getDigest ts)). \<exists>y \<in> set (hashed_texts (map Transaction_getDigest us)).
            x \<noteq> y \<and> hash x = hash y)"
proof (cases "ts = []")
  case False
  then have "us \<noteq> []" using assms(1) by auto
  then have "merkle_loop (map Transaction_getDigest ts) = merkle_loop (map Transaction_getDigest us)"
    using assms(2) False by (simp add: calculateMerkleRoot_def merkle_loop_tree)
  then show ?thesis
    using merkle_loop_binding [of "map Transaction_getDigest ts" "map Transaction_getDigest us"] assms(1)
    by (auto simp: list_all_iff Transaction_getDigest_def)
qed (use assms(1) in simp)

theorem merkle_root_binds_transactions_witness:
  "map Transaction_getDigest [example_spend, example_spend\<lparr>senderID := 5\<rparr>] = map Transaction_getDigest [example_spend, example_spend]"
  using merkle_root_binds_transactions [of "[example_spend, example_spend\<lparr>senderID := 5\<rparr>]" "[example_spend, example_spend]"
      "\<lparr>prevBlockDigest = [], merkleRoot = []\<rparr>" "\<lparr>prevBlockDigest = [], merkleRoot = []\<rparr>"]
  by (auto simp: Transaction_getDigest_def getStringDigest_def hashed_texts.simps calculateMerkleRoot_def)

text \<open>
  The root does not determine the number of transactions: repeating the last of an odd number of
  transactions (at least three) leaves it unchanged, because the loop repeats the last hash itself.
\<close>

theorem merkle_root_repeated_last:
  assumes "odd (length ts)" and "1 < length ts"
  shows "calculateMerkleRoot (ts @ [last ts]) h = calculateMerkleRoot ts h"
proof -
  have "last (map Transaction_getDigest ts) = Transaction_getDigest (last ts)"
    using assms(2) by (intro last_map) auto
  then show ?thesis
    using assms merkle_loop_duplicate [of "map Transaction_getDigest ts"]
    by (auto simp: calculateMerkleRoot_def)
qed

theorem merkle_root_repeated_last_witness:
  "\<forall>h. calculateMerkleRoot [example_spend, addInput (Input 2 0) example_spend, new_Transaction, new_Transaction] h
     = calculateMerkleRoot [example_spend, addInput (Input 2 0) example_spend, new_Transaction] h"
  using merkle_root_repeated_last [of "[example_spend, addInput (Input 2 0) example_spend, new_Transaction]"] by simp

end
