(* ===== verification/Block.thy ===== *)
theory Block
  imports Header Interfaces
begin

text \<open>
  The class \<^verbatim>\<open>Block\<close> of \<^verbatim>\<open>include/blockchain/block.h\<close> and \<^verbatim>\<open>lib/blockchain/block.cc\<close>. A block is built
  while it is mutable, becomes immutable when its Merkle root is calculated, and is then signed,
  stored and sent; every operation called in the wrong phase throws. The lemmas cover the life cycle
  as a state machine, what an accepted block guarantees about the coins it moves, signing, and the
  conversions to text and to protocol buffers.
\<close>

section \<open>The class\<close>

record BlockSignature =
  bs_signature :: "string list"
  bs_public_key :: SigKey
  bs_validator_id :: u16
  bs_round :: u16

record Block =
  block_header :: Header
  txs :: "Transaction list"
  validatorSigs :: "BlockSignature list"
  validator_sig :: "string list"
  validator_id :: u16
  validator_next_public_key :: SigKey
  block_id :: u64
  block_empty :: bool
  block_mutable :: bool

text \<open>
  The two constructors. The validator's identifier is uninitialised there; it is read only after
  \<^verbatim>\<open>sign\<close> or a conversion has set it, and zero stands for its content.
\<close>

definition new_Block :: "u64 \<Rightarrow> string \<Rightarrow> Block" where
  "new_Block id0 prev = \<lparr>block_header = \<lparr>prevBlockDigest = prev, merkleRoot = []\<rparr>, txs = [], validatorSigs = [],
     validator_sig = [], validator_id = 0, validator_next_public_key = \<lparr>S0 = [], S1 = []\<rparr>, block_id = id0,
     block_empty = False, block_mutable = True\<rparr>"

definition empty_Block :: Block where
  "empty_Block = (new_Block 0 [])\<lparr>block_empty := True\<rparr>"

section \<open>Building a block\<close>

definition addTransaction :: "Transaction \<Rightarrow> Block \<Rightarrow> Block res" where
  "addTransaction tx b =
    (if block_mutable b then Inr (b\<lparr>txs := txs b @ [tx]\<rparr>)
     else Inl (Runtime_error ''Cannot add transaction to an immutable block.''))"

definition finalize :: "Block \<Rightarrow> Block res" where
  "finalize b =
    (if \<not> block_mutable b then Inl (Runtime_error ''Cannot finalize immutable block.'')
     else Inr (b\<lparr>block_mutable := False, block_header := calculateMerkleRoot (txs b) (block_header b)\<rparr>))"

section \<open>Verifying a block\<close>

text \<open>
  The loop of \<^verbatim>\<open>verify\<close>: the set of all inputs and their number, which is an \<^verbatim>\<open>int\<close>; no value when a
  transaction fails its spending conditions.
\<close>

fun verify_loop :: "Transaction list \<Rightarrow> UTXOlist \<Rightarrow> u32 list \<Rightarrow> Input set \<Rightarrow> u32 \<Rightarrow> (Input set \<times> u32) option" where
  "verify_loop [] utxolist receiverIDs all_inputs number_of_inputs = Some (all_inputs, number_of_inputs)"
| "verify_loop (t # ts) utxolist receiverIDs all_inputs number_of_inputs =
     (if \<not> checkSpendingConditions t utxolist receiverIDs then None
      else verify_loop ts utxolist receiverIDs (all_inputs \<union> set (inputs t))
             (add_to_total number_of_inputs (of_nat (length (inputs t)))))"

definition verify :: "Block \<Rightarrow> UTXOlist \<Rightarrow> u32 list \<Rightarrow> bool" where
  "verify b utxolist receiverIDs = (case verify_loop (txs b) utxolist receiverIDs {} 0 of
       None \<Rightarrow> False
     | Some (all_inputs, number_of_inputs) \<Rightarrow>
         if (scast number_of_inputs :: u64) \<noteq> of_nat (card all_inputs) then False else True)"

fun none_in :: "Input list \<Rightarrow> Input list \<Rightarrow> bool" where
  "none_in [] new_inputs = True"
| "none_in (i # ins) new_inputs = (if i \<in> set new_inputs then False else none_in ins new_inputs)"

fun consistent_with :: "Transaction list \<Rightarrow> Input list \<Rightarrow> bool" where
  "consistent_with [] new_inputs = True"
| "consistent_with (t # ts) new_inputs = (if \<not> none_in (inputs t) new_inputs then False else consistent_with ts new_inputs)"

definition verifyTxConsist :: "Block \<Rightarrow> Transaction \<Rightarrow> bool" where
  "verifyTxConsist b new_tx = consistent_with (txs b) (inputs new_tx)"

section \<open>Signing\<close>

definition Block_getDigest :: "Block \<Rightarrow> string res" where
  "Block_getDigest b =
    (if block_mutable b then Inl (Runtime_error ''Cannot digest mutable block.'')
     else let input_str = Header_getID (block_header b) @ show_nat (unat (validator_id b)) in
       rbind (if has_key (validator_next_public_key b)
              then rbind (SigKey_to_string (validator_next_public_key b)) (\<lambda>key. Inr (input_str @ key))
              else Inr input_str) (\<lambda>str. Inr (hash str)))"

text \<open>The constant overload calls itself.\<close>

partial_function (option) Block_getDigest_const :: "Block \<Rightarrow> string res option" where
  "Block_getDigest_const b = Block_getDigest_const b"

text \<open>
  \<^verbatim>\<open>sign\<close> stores the identifier and the next key before it forms the digest, so they stay changed when
  the digest throws: the block is returned beside the result.
\<close>

definition Block_sign :: "SigKey \<Rightarrow> u16 \<Rightarrow> SigKey \<Rightarrow> Block \<Rightarrow> Block \<times> unit res" where
  "Block_sign signing_key vid next_public_key b =
    (if block_mutable b then (b, Inl (Runtime_error ''Cannot sign mutable block.''))
     else let b = b\<lparr>validator_id := vid, validator_next_public_key := next_public_key\<rparr> in
       case Block_getDigest b of
         Inl e \<Rightarrow> (b, Inl e)
       | Inr digest_str \<Rightarrow> (case Sign digest_str signing_key of
             Inl e \<Rightarrow> (b\<lparr>validator_sig := []\<rparr>, Inl e)
           | Inr sig \<Rightarrow> (b\<lparr>validator_sig := sig\<rparr>, Inr ())))"

definition verifySignature :: "Block \<Rightarrow> SigKey \<Rightarrow> bool res" where
  "verifySignature b pub = rbind (Block_getDigest b) (\<lambda>digest_str.
     rbind (Verify digest_str (validator_sig b) pub) (\<lambda>r. Inr (r = 1)))"

definition addValidatorSignature :: "BlockSignature \<Rightarrow> Block \<Rightarrow> Block" where
  "addValidatorSignature sig b = b\<lparr>validatorSigs := validatorSigs b @ [sig]\<rparr>"

definition removeSignatures :: "Block \<Rightarrow> Block" where
  "removeSignatures b = b\<lparr>validator_sig := [], validator_id := 0,
     validator_next_public_key := \<lparr>S0 = [], S1 = []\<rparr>, validatorSigs := []\<rparr>"

section \<open>Comparison\<close>

definition block_less :: "Block \<Rightarrow> Block \<Rightarrow> bool" where
  "block_less l r = (if block_empty l \<and> block_empty r then False else block_id l < block_id r)"

definition block_greater :: "Block \<Rightarrow> Block \<Rightarrow> bool" where
  "block_greater l r = (if block_empty l \<and> block_empty r then False else block_id r < block_id l)"

definition sig_neq :: "BlockSignature \<Rightarrow> BlockSignature \<Rightarrow> bool" where
  "sig_neq l r = (if bs_validator_id l \<noteq> bs_validator_id r then True
     else if bs_signature l \<noteq> bs_signature r then True
     else if bs_round l \<noteq> bs_round r then True
     else bs_public_key l \<noteq> bs_public_key r)"

definition Block_eq :: "Block \<Rightarrow> Block \<Rightarrow> bool" where
  "Block_eq l r =
    (if block_id l \<noteq> block_id r then False
     else if block_header l \<noteq> block_header r then False
     else if length (txs l) \<noteq> length (txs r) then False
     else if any_differs (\<lambda>t u. \<not> Transaction_eq t u) (txs l) (txs r) then False
     else if validator_sig l \<noteq> validator_sig r then False
     else if validator_id l \<noteq> validator_id r then False
     else if validator_next_public_key l \<noteq> validator_next_public_key r then False
     else if length (validatorSigs l) \<noteq> length (validatorSigs r) then False
     else if any_differs sig_neq (validatorSigs l) (validatorSigs r) then False
     else True)"

section \<open>JSON text\<close>

text \<open>The braced initialiser of one validator signature: an object with four members.\<close>

definition BlockSignature_json :: "BlockSignature \<Rightarrow> json res" where
  "BlockSignature_json sig =
     rbind (json_set JNull ''validator_id'' (JUnsigned (ucast (bs_validator_id sig)))) (\<lambda>j.
     rbind (signature_to_json (bs_signature sig)) (\<lambda>s. rbind (json_set j ''signature'' (JString s)) (\<lambda>j.
     rbind (json_set j ''round'' (JUnsigned (ucast (bs_round sig)))) (\<lambda>j.
     rbind (SigKey_to_string (bs_public_key sig)) (\<lambda>key. json_set j ''public_key'' (JString key))))))"

definition Block_to_string :: "Block \<Rightarrow> string res" where
  "Block_to_string b =
     rbind (Header_to_string (block_header b)) (\<lambda>h. rbind (json_set JNull ''header'' (JString h)) (\<lambda>j.
     rbind (json_set j ''blockID'' (JUnsigned (block_id b))) (\<lambda>j.
     rbind (rfold (\<lambda>tx j. rbind (Transaction_to_string tx)
              (\<lambda>s. json_update j ''transactions'' (\<lambda>e. json_push_back e (JString s)))) (txs b) j) (\<lambda>j.
     rbind (signature_to_json (validator_sig b)) (\<lambda>sig. rbind (json_set j ''validatorSig'' (JString sig)) (\<lambda>j.
     rbind (json_set j ''validatorID'' (JUnsigned (ucast (validator_id b)))) (\<lambda>j.
     rbind (SigKey_to_string (validator_next_public_key b)) (\<lambda>key. rbind (json_set j ''publicKey'' (JString key)) (\<lambda>j.
     rbind (rfold (\<lambda>sig j. rbind (BlockSignature_json sig)
              (\<lambda>el. json_update j ''validatorSigs'' (\<lambda>e. json_push_back e el))) (validatorSigs b) j)
       json_dump)))))))))"

definition BlockSignature_of_json :: "json \<Rightarrow> BlockSignature res" where
  "BlockSignature_of_json el =
     rbind (json_at el ''validator_id'') (\<lambda>jv. rbind (get_arith jv) (\<lambda>vid.
     rbind (json_at el ''signature'') (\<lambda>js. rbind (get_string js) (\<lambda>s. rbind (json_to_string s) (\<lambda>sig.
     rbind (json_at el ''round'') (\<lambda>jr. rbind (get_arith jr) (\<lambda>rnd.
     rbind (json_at el ''public_key'') (\<lambda>jk. rbind (get_string jk) (\<lambda>k. rbind (SigKey_from_string k) (\<lambda>key.
       Inr \<lparr>bs_signature = sig, bs_public_key = key, bs_validator_id = vid, bs_round = rnd\<rparr>))))))))))"

definition Block_from_string :: "Block \<Rightarrow> string \<Rightarrow> Block res" where
  "Block_from_string b0 s = rbind (json_parse s) (\<lambda>j.
     rbind (json_at j ''header'') (\<lambda>jh. rbind (get_string jh) (\<lambda>hs. rbind (Header_from_string (block_header b0) hs) (\<lambda>h.
     rbind (json_at j ''blockID'') (\<lambda>ji. rbind (get_u64 ji) (\<lambda>id1.
     rbind (json_at j ''transactions'') (\<lambda>jt.
     rbind (rmap (\<lambda>el. rbind (get_string el) (Transaction_from_string new_Transaction)) (json_elements jt)) (\<lambda>ts.
     rbind (json_at j ''validatorSig'') (\<lambda>js. rbind (get_string js) (\<lambda>ss. rbind (json_to_string ss) (\<lambda>sig.
     rbind (json_at j ''validatorID'') (\<lambda>jv. rbind (get_arith jv) (\<lambda>vid.
     rbind (json_at j ''publicKey'') (\<lambda>jk. rbind (get_string jk) (\<lambda>ks. rbind (SigKey_from_string ks) (\<lambda>key.
     rbind (if json_contains j ''validatorSigs''
            then rbind (json_at j ''validatorSigs'') (\<lambda>jl. rmap BlockSignature_of_json (json_elements jl))
            else Inr []) (\<lambda>sigs.
       Inr (b0\<lparr>block_header := h, block_id := id1, txs := ts, validator_sig := sig, validator_id := vid,
               validator_next_public_key := key, validatorSigs := sigs, block_empty := False,
               block_mutable := False\<rparr>))))))))))))))))))"

section \<open>Protocol buffers\<close>

record chat_Block =
  cb_header :: chat_Header
  cb_blockid :: u64
  cb_transaction :: "chat_Transaction list"
  cb_validatorsig :: "string list"
  cb_validatorid :: u32
  cb_publickey :: string

definition chat_Block_empty :: chat_Block where
  "chat_Block_empty = \<lparr>cb_header = Chat_Header [] [], cb_blockid = 0, cb_transaction = [], cb_validatorsig = [],
     cb_validatorid = 0, cb_publickey = []\<rparr>"

definition toProtoBlock :: "Block \<Rightarrow> chat_Block \<Rightarrow> chat_Block res" where
  "toProtoBlock b p =
    (if block_mutable b then Inl (Runtime_error ''Cannot convert mutable block.'')
     else rbind (rmap (\<lambda>t. toProtoTransaction t chat_Transaction_empty) (txs b)) (\<lambda>ts.
       rbind (SigKey_to_string (validator_next_public_key b)) (\<lambda>key.
         Inr (p\<lparr>cb_header := toProtoHeader (block_header b), cb_transaction := cb_transaction p @ ts,
                cb_validatorsig := cb_validatorsig p @ validator_sig b, cb_validatorid := ucast (validator_id b),
                cb_publickey := key, cb_blockid := block_id b\<rparr>))))"

definition fromProtoBlock :: "Block \<Rightarrow> chat_Block \<Rightarrow> Block res" where
  "fromProtoBlock b0 p =
     rbind (rmap (fromProtoTransaction new_Transaction) (cb_transaction p)) (\<lambda>ts.
     rbind (SigKey_from_string (cb_publickey p)) (\<lambda>key.
       Inr (b0\<lparr>block_header := Header_of_proto (cb_header p), block_id := cb_blockid p, txs := txs b0 @ ts,
               validator_sig := cb_validatorsig p, validator_id := ucast (cb_validatorid p),
               validator_next_public_key := key, block_mutable := False, block_empty := False\<rparr>)))"

text \<open>The constructor from a message starts from an object without transactions.\<close>

definition Block_of_proto :: "chat_Block \<Rightarrow> Block res" where
  "Block_of_proto p = fromProtoBlock (new_Block (cb_blockid p) []) p"

section \<open>Lemmas on verification\<close>

text \<open>All inputs of a block, in order.\<close>

definition block_inputs :: "Block \<Rightarrow> Input list" where
  "block_inputs b = concat (map inputs (txs b))"

lemma ucast_of_nat_u64 [simp]: "(ucast (of_nat n :: u64) :: u32) = of_nat n"
  by (rule bit_word_eqI) (simp add: bit_simps)

lemma verify_loop_eq:
  "verify_loop ts utxo ids A n =
    (if \<forall>t \<in> set ts. checkSpendingConditions t utxo ids
     then Some (A \<union> set (concat (map inputs ts)), n + of_nat (length (concat (map inputs ts)))) else None)"
  by (induction ts arbitrary: A n) (auto simp: add_to_total_eq add.assoc)

lemma scast_of_small: "n < 2 ^ 31 \<Longrightarrow> (scast (of_nat n :: u32) :: u64) = of_nat n"
proof -
  assume "n < 2 ^ 31"
  then have "sint (of_nat n :: u32) = int n"
    by (simp add: sint_uint signed_take_bit_int_eq_self unsigned_of_nat take_bit_nat_eq_self)
  then show ?thesis by (simp add: scast_eq)
qed

lemma verify_iff:
  assumes "length (block_inputs b) < 2 ^ 31"
  shows "verify b utxo ids \<longleftrightarrow> (\<forall>t \<in> set (txs b). checkSpendingConditions t utxo ids) \<and> distinct (block_inputs b)"
proof -
  have "card (set (block_inputs b)) < 2 ^ 31" using assms card_length le_less_trans by blast
  then have "(of_nat (length (block_inputs b)) :: u64) = of_nat (card (set (block_inputs b)))
      \<longleftrightarrow> card (set (block_inputs b)) = length (block_inputs b)"
    using assms by (simp add: word_of_nat_eq_iff take_bit_nat_eq_self) linarith
  then show ?thesis
    using scast_of_small [OF assms]
    by (auto simp: verify_def verify_loop_eq block_inputs_def [symmetric] card_distinct distinct_card)
qed

lemma none_in_iff: "none_in is new \<longleftrightarrow> set is \<inter> set new = {}"
  by (induction "is") auto

lemma verifyTxConsist_iff: "verifyTxConsist b t \<longleftrightarrow> set (block_inputs b) \<inter> set (inputs t) = {}"
proof -
  have "consistent_with ts new \<longleftrightarrow> set (concat (map inputs ts)) \<inter> set new = {}" for ts new
    by (induction ts) (auto simp: none_in_iff)
  then show ?thesis by (simp add: verifyTxConsist_def block_inputs_def)
qed

text \<open>Two different inputs never refer to the same unspent output.\<close>

lemma utxo_matches_unique: "utxo_matches i u \<Longrightarrow> utxo_matches j u \<Longrightarrow> i = j"
  by (cases i; cases j) (simp add: utxo_matches_def)

lemma spent_value_Cons:
  "spent_value (u # us) i = (if utxo_matches i u then unat (out_value (utxo_output u)) else spent_value us i)"
  by (auto simp: spent_value_def utxo_matches_def)

lemma spent_at_most_available:
  "distinct is \<Longrightarrow> sum_list (map (spent_value utxo) is) \<le> sum_list (map (\<lambda>u. unat (out_value (utxo_output u))) utxo)"
proof (induction utxo arbitrary: "is")
  case Nil
  then show ?case by (simp add: spent_value_def sum_list_triv)
next
  case (Cons u us)
  let ?v = "unat (out_value (utxo_output u))"
  have "sum_list (map (spent_value (u # us)) is) \<le> ?v + sum_list (map (spent_value us) is)"
  proof (cases "\<exists>i \<in> set is. utxo_matches i u")
    case True
    then obtain i xs ys where "is": "is = xs @ i # ys" and m: "utxo_matches i u" by (auto dest: split_list)
    then have "i \<notin> set xs \<union> set ys" using Cons.prems by simp
    then have "\<forall>j \<in> set xs \<union> set ys. \<not> utxo_matches j u"
      using utxo_matches_unique [OF m] by blast
    then have e: "map (spent_value (u # us)) xs = map (spent_value us) xs" "map (spent_value (u # us)) ys = map (spent_value us) ys"
      by (simp_all add: spent_value_Cons)
    have "spent_value (u # us) i = ?v" using m by (simp add: spent_value_Cons)
    then show ?thesis unfolding "is" map_append list.map e by simp
  next
    case False
    then have e: "map (spent_value (u # us)) is = map (spent_value us) is" by (simp add: spent_value_Cons)
    show ?thesis unfolding e by simp
  qed
  with Cons.IH [OF Cons.prems] show ?case by simp
qed

lemma sum_total_spent: "sum_list (map (total_spent utxo) (txs b)) = sum_list (map (spent_value utxo) (block_inputs b))"
proof -
  have "sum_list (map (total_spent utxo) ts) = sum_list (map (spent_value utxo) (concat (map inputs ts)))" for ts
    by (induction ts) (simp_all add: total_spent_def)
  then show ?thesis by (simp add: block_inputs_def)
qed

section \<open>Lemmas on signing\<close>

lemma Block_getDigest_never: "Block_getDigest_const b \<noteq> Some r"
proof
  assume "Block_getDigest_const b = Some r"
  then show False
    by (rule Block_getDigest_const.raw_induct [where P = "\<lambda>_ _. False", rotated])
qed

lemma SigKey_to_string_complete:
  "SigKey_to_string key = Inl e \<Longrightarrow> key_complete key \<Longrightarrow> list_all ascii (S0 key) \<Longrightarrow> list_all ascii (S1 key) \<Longrightarrow> False"
  using SigKey_to_string_total [of key] by auto

lemma Block_getDigest_total:
  assumes "\<not> block_mutable b" and "key_writable (validator_next_public_key b)"
  shows "\<exists>d. Block_getDigest b = Inr d \<and> length d = 64"
proof -
  obtain str where "if has_key (validator_next_public_key b) then SigKey_to_string (validator_next_public_key b) = Inr str else True"
    using key_writable_text [OF assms(2)] by (auto split: if_splits)
  then show ?thesis using assms(1) by (cases "has_key (validator_next_public_key b)") (simp_all add: Block_getDigest_def)
qed

lemma Block_getDigest_sig [simp]:
  "Block_getDigest (b\<lparr>validator_sig := s\<rparr>) = Block_getDigest b"
  "Block_getDigest (b\<lparr>txs := ts\<rparr>) = Block_getDigest b"
  "Block_getDigest (b\<lparr>validatorSigs := l\<rparr>) = Block_getDigest b"
  by (simp_all add: Block_getDigest_def cong: if_cong)

lemma Block_sign_verifies:
  assumes "\<not> block_mutable b" and "key_pair priv pub" and "key_writable next_key"
  shows "\<exists>b'. Block_sign priv vid next_key b = (b', Inr ()) \<and> verifySignature b' pub = Inr True"
proof -
  let ?b = "b\<lparr>validator_id := vid, validator_next_public_key := next_key\<rparr>"
  obtain d where d: "Block_getDigest ?b = Inr d" using Block_getDigest_total [of ?b] assms by auto
  obtain sig where "Sign d priv = Inr sig" "Verify d sig pub = Inr 1"
    using lamport.sign_then_verify [OF assms(2)] by blast
  then show ?thesis using d assms(1) by (simp add: Block_sign_def verifySignature_def)
qed

section \<open>The life cycle\<close>

text \<open>
  The calls that change a block. A call that throws leaves the block as it is, except \<^verbatim>\<open>sign\<close>.
\<close>

inductive block_step :: "Block \<Rightarrow> Block \<Rightarrow> bool" where
  add: "addTransaction tx b = Inr b' \<Longrightarrow> block_step b b'"
| fin: "finalize b = Inr b' \<Longrightarrow> block_step b b'"
| sig: "Block_sign key vid next_key b = (b', r) \<Longrightarrow> block_step b b'"
| add_sig: "block_step b (addValidatorSignature s b)"
| remove: "block_step b (removeSignatures b)"

inductive_cases block_stepE: "block_step b b'"

text \<open>The header of an immutable block carries the root of its transactions, and only such a block is signed.\<close>

definition block_consistent :: "Block \<Rightarrow> bool" where
  "block_consistent b \<longleftrightarrow>
    (if block_mutable b then merkleRoot (block_header b) = [] \<and> validator_sig b = []
     else block_header b = calculateMerkleRoot (txs b) (block_header b))"

definition same_content :: "Block \<Rightarrow> Block \<Rightarrow> bool" where
  "same_content b0 b \<longleftrightarrow> txs b = txs b0 \<and> block_header b = block_header b0 \<and> block_id b = block_id b0 \<and> \<not> block_mutable b"

lemma calculateMerkleRoot_idem [simp]:
  "calculateMerkleRoot ts (calculateMerkleRoot ts h) = calculateMerkleRoot ts h"
  by (simp add: calculateMerkleRoot_def)

lemma Block_sign_keeps:
  assumes "Block_sign key vid next_key b = (b', r)"
  shows "txs b' = txs b \<and> block_header b' = block_header b \<and> block_id b' = block_id b
     \<and> block_mutable b' = block_mutable b \<and> (block_mutable b \<longrightarrow> b' = b)"
  using assms by (auto simp: Block_sign_def Let_def split: if_splits sum.splits)

interpretation block_life: invariant_system "\<lambda>b. \<exists>i p. b = new_Block i p" block_step block_consistent
proof
  fix b b' assume "block_step b b'" and "block_consistent b"
  then show "block_consistent b'"
    by (cases rule: block_stepE)
      (auto simp: block_consistent_def addTransaction_def finalize_def addValidatorSignature_def removeSignatures_def
        dest!: Block_sign_keeps split: if_splits)
qed (auto simp: block_consistent_def new_Block_def)

interpretation block_frozen: invariant_system "same_content b0" block_step "same_content b0" for b0
proof
  fix b b' assume "block_step b b'" and "same_content b0 b"
  then show "same_content b0 b'"
    by (cases rule: block_stepE)
      (auto simp: same_content_def addTransaction_def finalize_def addValidatorSignature_def removeSignatures_def
        dest!: Block_sign_keeps split: if_splits)
qed

interpretation block_identity: invariant_system "\<lambda>b. b = new_Block i p" block_step
  "\<lambda>b. block_id b = i \<and> prevBlockDigest (block_header b) = p" for i p
proof
  fix b b' assume "block_step b b'" and "block_id b = i \<and> prevBlockDigest (block_header b) = p"
  then show "block_id b' = i \<and> prevBlockDigest (block_header b') = p"
    by (cases rule: block_stepE)
      (auto simp: addTransaction_def finalize_def addValidatorSignature_def removeSignatures_def calculateMerkleRoot_def
        dest!: Block_sign_keeps split: if_splits)
qed (simp add: new_Block_def)

section \<open>Lemmas on the conversions\<close>

definition key_storable :: "SigKey \<Rightarrow> bool" where
  "key_storable key \<longleftrightarrow> key_complete key \<and> list_all ascii (S0 key) \<and> list_all ascii (S1 key)"

definition sig_storable :: "BlockSignature \<Rightarrow> bool" where
  "sig_storable sig \<longleftrightarrow> list_all (\<lambda>s. length s = 32) (bs_signature sig) \<and> key_storable (bs_public_key sig)"

definition block_storable :: "Block \<Rightarrow> bool" where
  "block_storable b \<longleftrightarrow> \<not> block_mutable b \<and> \<not> block_empty b \<and> header_writable (block_header b)
     \<and> txs b \<noteq> [] \<and> list_all storable (txs b) \<and> list_all (\<lambda>s. length s = 32) (validator_sig b)
     \<and> key_storable (validator_next_public_key b) \<and> list_all sig_storable (validatorSigs b)"

lemma key_storable_text:
  "key_storable key \<Longrightarrow> \<exists>str. SigKey_to_string key = Inr str \<and> ascii str \<and> SigKey_from_string str = Inr key"
  using SigKey_to_string_total [of key] SigKey_round_trip [of key] by (auto simp: key_storable_def)

lemma BlockSignature_round_trip:
  assumes "sig_storable sig"
  shows "\<exists>j. BlockSignature_json sig = Inr j \<and> json_ascii j \<and> json_ok j \<and> json_norm j = j \<and> BlockSignature_of_json j = Inr sig"
proof -
  obtain s where s: "signature_to_json (bs_signature sig) = Inr s" "ascii s" "json_to_string s = Inr (bs_signature sig)"
    using assms signature_text by (auto simp: sig_storable_def)
  obtain k where "SigKey_to_string (bs_public_key sig) = Inr k" "ascii k" "SigKey_from_string k = Inr (bs_public_key sig)"
    using assms key_storable_text by (auto simp: sig_storable_def)
  with s show ?thesis by (simp add: BlockSignature_json_def BlockSignature_of_json_def)
qed

lemma BlockSignatures_round_trip:
  "list_all sig_storable sigs \<Longrightarrow> \<exists>js. rmap BlockSignature_json sigs = Inr js
     \<and> list_all (\<lambda>j. json_ascii j \<and> json_ok j \<and> json_norm j = j) js \<and> rmap BlockSignature_of_json js = Inr sigs"
proof (induction sigs)
  case (Cons sig sigs)
  then obtain js where "rmap BlockSignature_json sigs = Inr js"
    "list_all (\<lambda>j. json_ascii j \<and> json_ok j \<and> json_norm j = j) js" "rmap BlockSignature_of_json js = Inr sigs" by auto
  moreover obtain j where "BlockSignature_json sig = Inr j" "json_ascii j" "json_ok j" "json_norm j = j"
    "BlockSignature_of_json j = Inr sig" using Cons.prems BlockSignature_round_trip by auto
  ultimately show ?case by (intro exI [of _ "j # js"]) simp
qed simp

text \<open>The JSON value of a block, from the texts of its parts.\<close>

definition block_as_json :: "Block \<Rightarrow> string \<Rightarrow> string list \<Rightarrow> string \<Rightarrow> string \<Rightarrow> json list \<Rightarrow> json" where
  "block_as_json b h ts sig key sigs = JObject ([(''blockID'', JUnsigned (block_id b)), (''header'', JString h),
      (''publicKey'', JString key), (''transactions'', JArray (map JString ts)),
      (''validatorID'', JUnsigned (ucast (validator_id b))), (''validatorSig'', JString sig)]
     @ (if sigs = [] then [] else [(''validatorSigs'', JArray sigs)]))"

lemma Transaction_to_string_ascii: "storable t \<Longrightarrow> Transaction_to_string t = Inr s \<Longrightarrow> ascii s"
  using Transaction_round_trip [of t new_Transaction] by (auto simp: new_Transaction_def)

lemma Block_to_string_eq:
  assumes "Header_to_string (block_header b) = Inr h" and "txs b \<noteq> []" and "rmap Transaction_to_string (txs b) = Inr ts"
    and "signature_to_json (validator_sig b) = Inr sig" and "SigKey_to_string (validator_next_public_key b) = Inr key"
    and "rmap BlockSignature_json (validatorSigs b) = Inr sigs"
  shows "Block_to_string b = json_dump (block_as_json b h ts sig key sigs)"
proof (cases "validatorSigs b = []")
  case True
  then show ?thesis using assms by (simp add: Block_to_string_def block_as_json_def push_all)
next
  case False
  then have "sigs \<noteq> []" using assms(6) by (auto dest: rmap_Inr_length)
  then show ?thesis using assms False by (simp add: Block_to_string_def block_as_json_def push_all)
qed

lemma Block_round_trip:
  assumes "block_storable b"
  shows "\<exists>s. Block_to_string b = Inr s \<and> ascii s \<and> Block_from_string b0 s = Inr b"
proof -
  obtain h where h: "Header_to_string (block_header b) = Inr h" "ascii h"
    "\<And>h0. Header_from_string h0 h = Inr (block_header b)"
    using assms Header_to_string_total Header_round_trip by (fastforce simp: block_storable_def)
  obtain ts where ts: "rmap Transaction_to_string (txs b) = Inr ts"
    "rmap (Transaction_from_string new_Transaction) ts = Inr (txs b)"
    using assms transaction_codec.all_round_trip [of "txs b"] by (auto simp: block_storable_def)
  have asc: "list_all ascii ts"
    using ts(1) by (rule rmap_Inr_all) (use assms Transaction_to_string_ascii in \<open>auto simp: block_storable_def list_all_iff\<close>)
  obtain sig where sig: "signature_to_json (validator_sig b) = Inr sig" "ascii sig" "json_to_string sig = Inr (validator_sig b)"
    using assms signature_text by (auto simp: block_storable_def)
  obtain key where key: "SigKey_to_string (validator_next_public_key b) = Inr key" "ascii key"
    "SigKey_from_string key = Inr (validator_next_public_key b)"
    using assms key_storable_text by (auto simp: block_storable_def)
  obtain sigs where sigs: "rmap BlockSignature_json (validatorSigs b) = Inr sigs"
    "list_all (\<lambda>j. json_ascii j \<and> json_ok j \<and> json_norm j = j) sigs"
    "rmap BlockSignature_of_json sigs = Inr (validatorSigs b)"
    using assms BlockSignatures_round_trip by (auto simp: block_storable_def)
  let ?j = "block_as_json b h ts sig key sigs"
  have "map json_norm sigs = sigs" using sigs(2) by (intro map_idI) (simp add: list_all_iff)
  then have j: "json_ascii ?j" "json_ok ?j" "json_norm ?j = ?j"
    using asc h(2) sig(2) key(2) sigs(2) by (simp_all add: block_as_json_def list_all_iff)
  then obtain s where s: "json_dump ?j = Inr s" "ascii s" using json_dump_ascii by blast
  have p: "json_parse s = Inr ?j" using json_parse_json_dump [OF s(1) j(2)] j(3) by simp
  have "validatorSigs b = [] \<longleftrightarrow> sigs = []" using rmap_Inr_length [OF sigs(1)] by auto
  then have "Block_from_string b0 s = Inr b"
    using assms h(3) ts(2) sig(3) key(3) sigs(3) unfolding Block_from_string_def p
    by (cases "sigs = []") (simp_all add: block_as_json_def json_contains_def rmap_map block_storable_def)
  then show ?thesis
    using s Block_to_string_eq [OF h(1) _ ts(1) sig(1) key(1) sigs(1)] assms by (auto simp: block_storable_def)
qed

interpretation block_codec: text_codec block_storable Block_to_string "Block_from_string b0" for b0
proof
  fix b s
  assume b: "block_storable b"
  then show "\<exists>s. Block_to_string b = Inr s" using Block_round_trip by blast
  assume "Block_to_string b = Inr s"
  with Block_round_trip [OF b, of b0] show "Block_from_string b0 s = Inr b" by auto
qed

lemma Block_proto_round_trip:
  assumes "\<not> block_mutable b" and "\<not> block_empty b" and "list_all (\<lambda>t. key_writable (tx_public_key t)) (txs b)"
    and "key_storable (validator_next_public_key b)"
  shows "\<exists>p. toProtoBlock b chat_Block_empty = Inr p
    \<and> (\<forall>b0. fromProtoBlock b0 p = Inr (b\<lparr>txs := txs b0 @ txs b, validatorSigs := validatorSigs b0\<rparr>))"
proof -
  have "list_all (\<lambda>t. key_writable (tx_public_key t)) us \<Longrightarrow>
    \<exists>ps. rmap (\<lambda>t. toProtoTransaction t chat_Transaction_empty) us = Inr ps \<and> rmap (fromProtoTransaction new_Transaction) ps = Inr us" for us
  proof (induction us)
    case (Cons t us)
    then obtain ps p where "rmap (\<lambda>t. toProtoTransaction t chat_Transaction_empty) us = Inr ps"
      "rmap (fromProtoTransaction new_Transaction) ps = Inr us" "toProtoTransaction t chat_Transaction_empty = Inr p"
      "fromProtoTransaction new_Transaction p = Inr t"
      using transaction_proto_round_trip [of t new_Transaction] by (auto simp: new_Transaction_def)
    then show ?case by (intro exI [of _ "p # ps"]) simp
  qed simp
  then obtain ps where "rmap (\<lambda>t. toProtoTransaction t chat_Transaction_empty) (txs b) = Inr ps"
      "rmap (fromProtoTransaction new_Transaction) ps = Inr (txs b)" using assms(3) by blast
  moreover obtain key where "SigKey_to_string (validator_next_public_key b) = Inr key"
    "SigKey_from_string key = Inr (validator_next_public_key b)" using key_storable_text [OF assms(4)] by blast
  ultimately show ?thesis
    using assms(1,2) by (simp add: toProtoBlock_def fromProtoBlock_def chat_Block_empty_def)
qed

section \<open>Example\<close>

text \<open>A key pair, and an immutable block with one transaction.\<close>

definition demo_private :: SigKey where
  "demo_private = \<lparr>S0 = replicate KEY_LEN ''a'', S1 = replicate KEY_LEN ''b''\<rparr>"

definition demo_public :: SigKey where
  "demo_public = \<lparr>S0 = replicate KEY_LEN (hash ''a''), S1 = replicate KEY_LEN (hash ''b'')\<rparr>"

definition demo_block :: Block where
  "demo_block = (new_Block 3 ''genesis'')\<lparr>txs := [example_spend], block_mutable := False,
     block_header := calculateMerkleRoot [example_spend] \<lparr>prevBlockDigest = ''genesis'', merkleRoot = []\<rparr>,
     validator_next_public_key := demo_public\<rparr>"

lemma demo_key_pair: "key_pair demo_private demo_public"
  by (simp add: key_pair_def key_complete_def demo_private_def demo_public_def)

lemma demo_public_storable: "key_storable demo_public"
  by (simp add: key_storable_def key_complete_def demo_public_def list_all_iff plain_ascii)

lemma demo_block_mutable [simp]: "\<not> block_mutable demo_block" "\<not> block_empty demo_block"
  by (simp_all add: demo_block_def new_Block_def)

lemma demo_block_txs [simp]: "txs demo_block = [example_spend]" "block_inputs demo_block = [Input 1 0]"
  by (simp_all add: demo_block_def example_spend_def block_inputs_def)

lemma demo_block_steps:
  "finalize ((new_Block 3 ''genesis'')\<lparr>txs := [example_spend]\<rparr>) = Inr (demo_block\<lparr>validator_next_public_key := \<lparr>S0 = [], S1 = []\<rparr>\<rparr>)"
  by (simp add: finalize_def new_Block_def demo_block_def)

lemma example_spend_checked: "checkSpendingConditions example_spend [UTXO 1 0 (Output 5 4)] [7, 8]"
  by (simp add: example_spend_def checkSpendingConditions_iff total_spent_def total_paid_def spent_value_def utxo_matches_def)

lemma demo_block_storable: "block_storable demo_block"
  using demo_public_storable
  by (simp add: block_storable_def header_writable_def storable_def example_spend_def demo_block_def new_Block_def
      calculateMerkleRoot_def merkle_loop.simps Transaction_getDigest_def key_writable_def plain_ascii)

section \<open>Properties of blocks\<close>



text \<open>
  The check made before a transaction joins a block is the right one: when the block verifies, the
  transaction meets the spending conditions with pairwise different inputs, and \<^verbatim>\<open>verifyTxConsist\<close>
  accepts it, the block with the transaction added verifies; when \<^verbatim>\<open>verifyTxConsist\<close> refuses it, the
  extended block is rejected.
\<close>

theorem consistent_transaction_keeps_block_valid:
  assumes "verify b utxo ids" and "checkSpendingConditions t utxo ids" and "distinct (inputs t)"
    and "length (block_inputs b) + length (inputs t) < 2 ^ 31" and "addTransaction t b = Inr b'"
  shows "verify b' utxo ids \<longleftrightarrow> verifyTxConsist b t"
proof -
  have b': "b' = b\<lparr>txs := txs b @ [t]\<rparr>" using assms(5) by (auto simp: addTransaction_def split: if_splits)
  then have ins: "block_inputs b' = block_inputs b @ inputs t" by (simp add: block_inputs_def)
  have "\<forall>u \<in> set (txs b). checkSpendingConditions u utxo ids" "distinct (block_inputs b)"
    using assms(1,4) verify_iff [of b utxo ids] by auto
  then have "\<forall>u \<in> set (txs b'). checkSpendingConditions u utxo ids" using assms(2) b' by simp
  then show ?thesis
    using verify_iff [of b' utxo ids] ins assms(3,4) \<open>distinct (block_inputs b)\<close> by (simp add: verifyTxConsist_iff)
qed

theorem consistent_transaction_keeps_block_valid_witness:
  "\<exists>b'. addTransaction example_spend (new_Block 3 ''genesis'') = Inr b' \<and> verify b' [UTXO 1 0 (Output 5 4)] [7, 8]"
proof -
  obtain b' where b': "addTransaction example_spend (new_Block 3 ''genesis'') = Inr b'"
    by (simp add: addTransaction_def new_Block_def)
  have "verify b' [UTXO 1 0 (Output 5 4)] [7, 8] \<longleftrightarrow> verifyTxConsist (new_Block 3 ''genesis'') example_spend"
    using b' example_spend_checked
    by (intro consistent_transaction_keeps_block_valid)
      (simp_all add: verify_def new_Block_def block_inputs_def example_spend_def)
  then show ?thesis using b' by (simp add: verifyTxConsist_def new_Block_def)
qed



text \<open>
  C19. A signed block verifies: signing an immutable block with a private key and announcing a next
  key that is complete (or none) succeeds and changes neither header nor transactions, and
  \<^verbatim>\<open>verifySignature\<close> accepts the block with the matching public key.
\<close>

theorem signed_block_verifies:
  assumes "\<not> block_mutable b" and "key_pair priv pub" and "key_writable next_key"
  shows "\<exists>b'. Block_sign priv vid next_key b = (b', Inr ()) \<and> verifySignature b' pub = Inr True
            \<and> txs b' = txs b \<and> block_header b' = block_header b"
  using Block_sign_verifies [OF assms, of vid] Block_sign_keeps by metis

theorem signed_block_verifies_witness:
  "\<exists>b'. Block_sign demo_private 2 demo_public demo_block = (b', Inr ()) \<and> verifySignature b' demo_public = Inr True
      \<and> txs b' = txs demo_block \<and> block_header b' = block_header demo_block"
  by (rule signed_block_verifies) (use demo_key_pair demo_public_storable in \<open>simp_all add: key_writable_def key_storable_def\<close>)

text \<open>
  Neither \<^verbatim>\<open>verify\<close> nor \<^verbatim>\<open>verifySignature\<close> compares the Merkle root with the transactions: a correctly
  signed block whose transactions have all been removed still passes both.
\<close>

theorem stripped_block_still_accepted:
  assumes "verifySignature b pub = Inr True"
  shows "verifySignature (b\<lparr>txs := []\<rparr>) pub = Inr True \<and> verify (b\<lparr>txs := []\<rparr>) utxo ids"
  using assms by (simp add: verifySignature_def verify_def)

theorem stripped_block_still_accepted_witness:
  "\<exists>b'. Block_sign demo_private 2 demo_public demo_block = (b', Inr ()) \<and> txs b' = [example_spend]
     \<and> verifySignature (b'\<lparr>txs := []\<rparr>) demo_public = Inr True \<and> verify (b'\<lparr>txs := []\<rparr>) [] []"
proof -
  obtain b' where b: "Block_sign demo_private 2 demo_public demo_block = (b', Inr ())" "verifySignature b' demo_public = Inr True"
    using Block_sign_verifies [OF demo_block_mutable(1) demo_key_pair, of demo_public] demo_public_storable
    by (auto simp: key_writable_def key_storable_def)
  with Block_sign_keeps [OF b(1)] show ?thesis using stripped_block_still_accepted [OF b(2)] by auto
qed

text \<open>
  A stored block is read back unchanged: for every immutable block with at least one transaction,
  storable transactions, 32-byte signature entries and complete keys, \<^verbatim>\<open>to_string\<close> succeeds and
  \<^verbatim>\<open>from_string\<close> on any object gives the block, the signatures of the validators included.
\<close>

theorem block_string_round_trip:
  assumes "block_storable b"
  shows "\<exists>s. Block_to_string b = Inr s \<and> Block_from_string b0 s = Inr b"
  using Block_round_trip [OF assms] by blast

theorem block_string_round_trip_witness:
  "\<exists>s. Block_to_string demo_block = Inr s \<and> Block_from_string empty_Block s = Inr demo_block"
  by (rule block_string_round_trip [OF demo_block_storable])

text \<open>
  A block sent as a protocol-buffer message arrives without the signatures the other validators
  added to it, and reading it into an object that already has transactions appends to them.
\<close>

theorem block_message_round_trip:
  assumes "\<not> block_mutable b" and "\<not> block_empty b" and "list_all (\<lambda>t. key_writable (tx_public_key t)) (txs b)"
    and "key_storable (validator_next_public_key b)"
  shows "\<exists>p. toProtoBlock b chat_Block_empty = Inr p
    \<and> (\<forall>b0. fromProtoBlock b0 p = Inr (b\<lparr>txs := txs b0 @ txs b, validatorSigs := validatorSigs b0\<rparr>))"
  by (rule Block_proto_round_trip [OF assms])

theorem block_message_round_trip_witness:
  "\<exists>p. toProtoBlock demo_block chat_Block_empty = Inr p
    \<and> fromProtoBlock demo_block p = Inr (demo_block\<lparr>txs := [example_spend, example_spend]\<rparr>)"
proof -
  have "validatorSigs demo_block = []" "validator_next_public_key demo_block = demo_public"
    by (simp_all add: demo_block_def new_Block_def)
  then show ?thesis
    using block_message_round_trip [of demo_block] demo_public_storable
    by (auto simp: example_spend_def key_writable_def)
qed

text \<open>
  The constant overload of \<^verbatim>\<open>getDigest\<close> never returns: it calls itself, for every block.
\<close>

theorem const_digest_never_returns: "Block_getDigest_const b = None"
  using Block_getDigest_never [of b] by (cases "Block_getDigest_const b") auto

end
