(* ===== verification/Message.thy ===== *)
theory Message
  imports Block
begin

text \<open>
  The class \<^verbatim>\<open>Message\<close> of \<^verbatim>\<open>include/blockchain/message.h\<close> and \<^verbatim>\<open>lib/blockchain/message.cc\<close>: the consensus
  messages the validators exchange, and their conversion to and from protocol buffers.
\<close>

section \<open>The class\<close>

datatype MsgType = ECHO | SEND | READY

text \<open>
  The type is a member without initialiser: no value stands for its indeterminate content, and reading
  it then is undefined.
\<close>

record Message =
  msg_type :: "MsgType option"
  msg_block :: Block
  msg_sender_id :: u64
  msg_round :: u32
  msg_empty :: bool

definition new_Message :: "MsgType \<Rightarrow> Block \<Rightarrow> u64 \<Rightarrow> u16 \<Rightarrow> Message" where
  "new_Message t b sender rnd = \<lparr>msg_type = Some t, msg_block = b, msg_sender_id = sender, msg_round = ucast rnd,
     msg_empty = False\<rparr>"

definition getType :: "Message \<Rightarrow> MsgType res" where
  "getType m = (case msg_type m of None \<Rightarrow> Inl (Undefined_behaviour ''uninitialised message type'') | Some t \<Rightarrow> Inr t)"

definition setType :: "MsgType \<Rightarrow> Message \<Rightarrow> Message" where
  "setType t m = m\<lparr>msg_type := Some t\<rparr>"

text \<open>Both getters return \<^verbatim>\<open>int\<close>: the sender is cut to 32 bits.\<close>

definition getSenderId :: "Message \<Rightarrow> u32" where
  "getSenderId m = ucast (msg_sender_id m)"

definition getRound :: "Message \<Rightarrow> u32" where
  "getRound m = msg_round m"

fun Msgtype2String :: "MsgType \<Rightarrow> string" where
  "Msgtype2String SEND = ''SEND''"
| "Msgtype2String ECHO = ''ECHO''"
| "Msgtype2String READY = ''READY''"

section \<open>Protocol buffers\<close>

record chat_Message =
  cm_type :: u32
  cm_sender_id :: u64
  cm_round :: u32
  cm_block :: chat_Block

definition toProtoMessage :: "Message \<Rightarrow> chat_Message res" where
  "toProtoMessage m = rbind (getType m) (\<lambda>t. rbind (toProtoBlock (msg_block m) chat_Block_empty) (\<lambda>p.
     Inr \<lparr>cm_type = (case t of ECHO \<Rightarrow> 0 | SEND \<Rightarrow> 1 | READY \<Rightarrow> 2), cm_sender_id = msg_sender_id m,
          cm_round = msg_round m, cm_block = p\<rparr>))"

definition Message_of_proto :: "chat_Message \<Rightarrow> Message res" where
  "Message_of_proto p = rbind (fromProtoBlock empty_Block (cm_block p)) (\<lambda>b.
     Inr \<lparr>msg_type = (if cm_type p = 0 then Some ECHO else if cm_type p = 1 then Some SEND
                       else if cm_type p = 2 then Some READY else None),
          msg_block = b, msg_sender_id = cm_sender_id p, msg_round = cm_round p, msg_empty = False\<rparr>)"

section \<open>Lemmas\<close>

text \<open>A block that can be sent: immutable, with keys that have a text.\<close>

definition sendable :: "Block \<Rightarrow> bool" where
  "sendable b \<longleftrightarrow> \<not> block_mutable b \<and> \<not> block_empty b \<and> list_all (\<lambda>t. key_writable (tx_public_key t)) (txs b)
     \<and> key_storable (validator_next_public_key b)"

lemma toProtoMessage_round_trip:
  assumes "msg_type m = Some t" and "sendable (msg_block m)"
  shows "\<exists>p. toProtoMessage m = Inr p
    \<and> Message_of_proto p = Inr (m\<lparr>msg_block := (msg_block m)\<lparr>validatorSigs := []\<rparr>, msg_empty := False\<rparr>)"
proof -
  obtain p where "toProtoBlock (msg_block m) chat_Block_empty = Inr p"
    and "fromProtoBlock empty_Block p = Inr ((msg_block m)\<lparr>txs := txs empty_Block @ txs (msg_block m),
           validatorSigs := validatorSigs empty_Block\<rparr>)"
    using assms(2) Block_proto_round_trip [of "msg_block m"] unfolding sendable_def by blast
  then show ?thesis
    using assms(1) by (cases t) (simp_all add: toProtoMessage_def Message_of_proto_def getType_def empty_Block_def new_Block_def)
qed

section \<open>Properties of messages\<close>

text \<open>
  A consensus message arrives as it was sent: type, sender, round and block survive the conversion
  to the wire format and back; only the signatures collected from other validators stay behind.
\<close>

theorem message_round_trip:
  assumes "sendable b"
  shows "\<exists>p. toProtoMessage (new_Message t b sender rnd) = Inr p
            \<and> Message_of_proto p = Inr (new_Message t (b\<lparr>validatorSigs := []\<rparr>) sender rnd)"
  using toProtoMessage_round_trip [of "new_Message t b sender rnd" t] assms by (simp add: new_Message_def)

theorem message_round_trip_witness:
  "\<exists>p. toProtoMessage (new_Message READY demo_block 2 3) = Inr p
      \<and> Message_of_proto p = Inr (new_Message READY demo_block 2 3)"
proof -
  have "sendable demo_block" "demo_block\<lparr>validatorSigs := []\<rparr> = demo_block"
    using demo_public_storable by (simp_all add: sendable_def demo_block_def new_Block_def example_spend_def key_writable_def)
  then show ?thesis using message_round_trip [of demo_block READY 2 3] by simp
qed

text \<open>
  A type outside the protocol is not rejected: the constructor accepts the message and leaves the
  type uninitialised, so that reading it is undefined.
\<close>

theorem unknown_message_type_undefined:
  assumes "Message_of_proto p = Inr m"
  shows "getType m = Inl (Undefined_behaviour ''uninitialised message type'') \<longleftrightarrow> cm_type p \<notin> {0, 1, 2}"
  using assms by (auto simp: Message_of_proto_def getType_def split: if_splits)

theorem unknown_message_type_undefined_witness:
  "\<exists>p m. Message_of_proto p = Inr m \<and> cm_type p = 7 \<and> getType m = Inl (Undefined_behaviour ''uninitialised message type'')"
proof -
  have "sendable demo_block"
    using demo_public_storable by (simp add: sendable_def demo_block_def new_Block_def example_spend_def key_writable_def)
  then obtain p where "toProtoMessage (new_Message READY demo_block 2 3) = Inr p"
    "Message_of_proto p = Inr (new_Message READY (demo_block\<lparr>validatorSigs := []\<rparr>) 2 3)"
    using toProtoMessage_round_trip [of "new_Message READY demo_block 2 3" READY] by (auto simp: new_Message_def)
  then have m: "Message_of_proto (p\<lparr>cm_type := 7\<rparr>) = Inr ((new_Message READY (demo_block\<lparr>validatorSigs := []\<rparr>) 2 3)\<lparr>msg_type := None\<rparr>)"
    by (auto simp: Message_of_proto_def new_Message_def)
  show ?thesis using unknown_message_type_undefined [OF m] m by fastforce
qed

end
