(* ===== verification/Settings.thy ===== *)
theory Settings
  imports Json_Parse
begin

text \<open>
  The class \<^verbatim>\<open>Settings\<close> of \<^verbatim>\<open>include/config/settings.h\<close> and \<^verbatim>\<open>lib/config/settings.cc\<close>: the validators with
  their addresses, the leader, the wallets, and the process's own identifiers, read from a JSON file.
  The validators are a \<^verbatim>\<open>std::map\<close>, an association list sorted by identifier, whose \<^verbatim>\<open>operator[]\<close>
  inserts a zero entry for an unknown identifier.
\<close>

section \<open>The classes\<close>

record AddressInfo =
  ai_id :: u32
  ai_address :: string
  ai_port :: u32
  ai_faulty :: bool

record Settings =
  leader_id :: u32
  validators :: "(u32 \<times> AddressInfo) list"
  wallets :: "u32 list"
  my_validator_id :: u32
  my_wallet_id :: u32

text \<open>A value-initialised entry.\<close>

definition no_AddressInfo :: AddressInfo where
  "no_AddressInfo = \<lparr>ai_id = 0, ai_address = [], ai_port = 0, ai_faulty = False\<rparr>"

fun vmap_put :: "u32 \<Rightarrow> AddressInfo \<Rightarrow> (u32 \<times> AddressInfo) list \<Rightarrow> (u32 \<times> AddressInfo) list" where
  "vmap_put k v [] = [(k, v)]"
| "vmap_put k v ((k', v') # kvs) =
     (if k = k' then (k, v) # kvs
      else if k < k' then (k, v) # (k', v') # kvs
      else (k', v') # vmap_put k v kvs)"

text \<open>\<^verbatim>\<open>validators_[id]\<close>: the entry, and the settings with the entry created.\<close>

definition validator_at :: "u32 \<Rightarrow> Settings \<Rightarrow> AddressInfo \<times> Settings" where
  "validator_at vid s = (case map_of (validators s) vid of
       Some v \<Rightarrow> (v, s)
     | None \<Rightarrow> (no_AddressInfo, s\<lparr>validators := vmap_put vid no_AddressInfo (validators s)\<rparr>))"

section \<open>Constructors and JSON\<close>

definition new_Settings :: "AddressInfo list \<Rightarrow> u32 \<Rightarrow> u32 list \<Rightarrow> u32 \<Rightarrow> u32 \<Rightarrow> Settings" where
  "new_Settings vals leader ws my_val my_wallet =
     \<lparr>leader_id = leader, validators = foldl (\<lambda>m v. vmap_put (ai_id v) v m) [] vals, wallets = ws,
      my_validator_id = my_val, my_wallet_id = my_wallet\<rparr>"

definition AddressInfo_of_json :: "json \<Rightarrow> AddressInfo res" where
  "AddressInfo_of_json el =
     rbind (json_at el ''id'') (\<lambda>ji. rbind (get_arith ji) (\<lambda>vid.
     rbind (json_at el ''address'') (\<lambda>ja. rbind (get_string ja) (\<lambda>addr.
     rbind (json_at el ''port'') (\<lambda>jp. rbind (get_arith jp) (\<lambda>port.
     rbind (json_at el ''faulty'') (\<lambda>jf. rbind (get_bool jf) (\<lambda>faulty.
       Inr \<lparr>ai_id = vid, ai_address = addr, ai_port = port, ai_faulty = faulty\<rparr>))))))))"

definition Settings_from_json :: "json \<Rightarrow> Settings \<Rightarrow> Settings res" where
  "Settings_from_json j s =
     rbind (json_at j ''leaderID'') (\<lambda>jl. rbind (get_arith jl) (\<lambda>leader.
     rbind (json_at j ''validators'') (\<lambda>jv.
     rbind (rfold (\<lambda>el m. rbind (AddressInfo_of_json el) (\<lambda>v. Inr (vmap_put (ai_id v) v m))) (json_elements jv) []) (\<lambda>vals.
     rbind (json_at j ''wallets'') (\<lambda>jw. rbind (rmap get_arith (json_elements jw)) (\<lambda>ws.
     rbind (json_at j ''myValidatorID'') (\<lambda>jm. rbind (get_arith jm) (\<lambda>my_val.
     rbind (json_at j ''myWalletID'') (\<lambda>jmw. rbind (get_arith jmw) (\<lambda>my_wallet.
       Inr (s\<lparr>leader_id := leader, validators := vals, wallets := ws, my_validator_id := my_val,
              my_wallet_id := my_wallet\<rparr>)))))))))))"

definition AddressInfo_json :: "AddressInfo \<Rightarrow> json res" where
  "AddressInfo_json v =
     rbind (json_set JNull ''id'' (JUnsigned (ucast (ai_id v)))) (\<lambda>j.
     rbind (json_set j ''address'' (JString (ai_address v))) (\<lambda>j.
     rbind (json_set j ''port'' (JInteger (scast (ai_port v)))) (\<lambda>j.
     json_set j ''faulty'' (JBool (ai_faulty v)))))"

definition Settings_to_json :: "json \<Rightarrow> Settings \<Rightarrow> json res" where
  "Settings_to_json j s =
     rbind (json_set j ''leaderID'' (JUnsigned (ucast (leader_id s)))) (\<lambda>j.
     rbind (rfold (\<lambda>kv j. rbind (AddressInfo_json (snd kv))
              (\<lambda>el. json_update j ''validators'' (\<lambda>e. json_push_back e el))) (validators s) j) (\<lambda>j.
     rbind (json_set j ''wallets'' (JArray (map (\<lambda>w. JUnsigned (ucast w)) (wallets s)))) (\<lambda>j.
     rbind (json_set j ''myValidatorID'' (JUnsigned (ucast (my_validator_id s)))) (\<lambda>j.
     json_set j ''myWalletID'' (JUnsigned (ucast (my_wallet_id s)))))))"

text \<open>The constructor from a file: \<open>content\<close> is what the file holds, nothing when it does not open.\<close>

definition Settings_of_file :: "string \<Rightarrow> string option \<Rightarrow> Settings res" where
  "Settings_of_file settings_file content = (case content of
       None \<Rightarrow> Inl (Runtime_error (''Could not open settings file: '' @ settings_file))
     | Some str \<Rightarrow> rbind (json_read str) (\<lambda>(j, _).
         Settings_from_json j \<lparr>leader_id = 0, validators = [], wallets = [], my_validator_id = 0, my_wallet_id = 0\<rparr>))"

section \<open>Queries\<close>

definition to_address :: "string \<Rightarrow> u32 \<Rightarrow> string" where
  "to_address ip_addr port = ip_addr @ '':'' @ show_nat (unat port)"

definition getLeaderInfo :: "Settings \<Rightarrow> AddressInfo \<times> Settings" where
  "getLeaderInfo s = validator_at (leader_id s) s"

definition getValidatorInfo :: "u32 \<Rightarrow> Settings \<Rightarrow> AddressInfo \<times> Settings" where
  "getValidatorInfo vid s = validator_at vid s"

definition getValidators :: "Settings \<Rightarrow> AddressInfo list" where
  "getValidators s = map snd (validators s)"

definition getValidatorAdresses :: "Settings \<Rightarrow> string list" where
  "getValidatorAdresses s = map (\<lambda>kv. to_address (ai_address (snd kv)) (ai_port (snd kv))) (validators s)"

definition getLeaderAddress :: "Settings \<Rightarrow> string \<times> Settings" where
  "getLeaderAddress s = (let (leader, s) = getLeaderInfo s in (to_address (ai_address leader) (ai_port leader), s))"

definition getTotalNumberOfValidators :: "Settings \<Rightarrow> u32" where
  "getTotalNumberOfValidators s = of_nat (length (validators s))"

definition getNumberOfFaultyValidators :: "Settings \<Rightarrow> u32" where
  "getNumberOfFaultyValidators s = foldl (\<lambda>faulty kv. if ai_faulty (snd kv) then faulty + 1 else faulty) 0 (validators s)"

definition getMyValidatorInfo :: "Settings \<Rightarrow> AddressInfo" where
  "getMyValidatorInfo s = (case map_of (validators s) (my_validator_id s) of None \<Rightarrow> no_AddressInfo | Some v \<Rightarrow> v)"

definition getMyValidatorAddress :: "Settings \<Rightarrow> string" where
  "getMyValidatorAddress s = (let v = getMyValidatorInfo s in to_address (ai_address v) (ai_port v))"

section \<open>The invariant\<close>

text \<open>The validators are sorted by distinct identifiers, each stored under its own.\<close>

definition settings_ok :: "Settings \<Rightarrow> bool" where
  "settings_ok s \<longleftrightarrow> sorted_wrt (<) (map fst (validators s)) \<and> (\<forall>(k, v) \<in> set (validators s). ai_id v = k)"

lemma map_of_vmap_put: "map_of (vmap_put k v m) = (map_of m)(k \<mapsto> v)"
  by (induction m rule: vmap_put.induct) (auto simp: fun_eq_iff)

lemma keys_vmap_put: "set (map fst (vmap_put k v m)) = insert k (set (map fst m))"
  by (induction k v m rule: vmap_put.induct) auto

lemma sorted_vmap_put: "sorted_wrt (<) (map fst m) \<Longrightarrow> sorted_wrt (<) (map fst (vmap_put k v m))"
proof (induction k v m rule: vmap_put.induct)
  case (2 k v k' v' kvs)
  then show ?case using keys_vmap_put [of k v kvs] by auto
qed simp

lemma set_vmap_put: "set (vmap_put k v m) \<subseteq> insert (k, v) (set m)"
  by (induction k v m rule: vmap_put.induct) auto

lemma length_vmap_put: "map_of m k = None \<Longrightarrow> length (vmap_put k v m) = Suc (length m)"
  by (induction k v m rule: vmap_put.induct) (auto split: if_splits)

lemma vmap_put_last: "\<forall>k' \<in> set (map fst m). k' < k \<Longrightarrow> vmap_put k v m = m @ [(k, v)]"
  by (induction m rule: vmap_put.induct) (auto simp: less_not_sym)

lemma new_Settings_ok: "settings_ok (new_Settings vals leader ws my_val my_wallet)"
proof -
  have "sorted_wrt (<) (map fst m) \<and> (\<forall>(k, v) \<in> set m. ai_id v = k) \<Longrightarrow>
      (let m' = foldl (\<lambda>m v. vmap_put (ai_id v) v m) m vals in sorted_wrt (<) (map fst m') \<and> (\<forall>(k, v) \<in> set m'. ai_id v = k))" for m
  proof (induction vals arbitrary: m)
    case (Cons v vals)
    have "sorted_wrt (<) (map fst (vmap_put (ai_id v) v m)) \<and> (\<forall>(k, v) \<in> set (vmap_put (ai_id v) v m). ai_id v = k)"
      using Cons.prems sorted_vmap_put set_vmap_put [of "ai_id v" v m] by fastforce
    from Cons.IH [OF this] show ?case by simp
  qed simp
  from this [of "[]"] show ?thesis by (simp add: settings_ok_def new_Settings_def Let_def)
qed

lemma faulty_count: "getNumberOfFaultyValidators s = of_nat (length (filter (\<lambda>kv. ai_faulty (snd kv)) (validators s)))"
proof -
  have "foldl (\<lambda>faulty kv. if ai_faulty (snd kv) then faulty + 1 else faulty) a m
      = a + of_nat (length (filter (\<lambda>kv. ai_faulty (snd kv)) m))" for a :: u32 and m :: "(u32 \<times> AddressInfo) list"
    by (induction m arbitrary: a) simp_all
  then show ?thesis by (simp add: getNumberOfFaultyValidators_def)
qed

lemma AddressInfo_round_trip: "\<exists>el. AddressInfo_json v = Inr el \<and> AddressInfo_of_json el = Inr v"
  by (simp add: AddressInfo_json_def AddressInfo_of_json_def json_at_def get_arith_def get_string_def get_bool_def json_update_def)

lemma read_validators:
  assumes "sorted_wrt (<) (map fst (m0 @ m))" and "\<forall>(k, v) \<in> set m. ai_id v = k" and "rmap AddressInfo_json (map snd m) = Inr els"
  shows "rfold (\<lambda>el m. rbind (AddressInfo_of_json el) (\<lambda>v. Inr (vmap_put (ai_id v) v m))) els m0 = Inr (m0 @ m)"
  using assms
proof (induction m arbitrary: m0 els)
  case (Cons kv m)
  obtain k v where kv: "kv = (k, v)" by (cases kv)
  obtain el where el: "AddressInfo_json v = Inr el" "AddressInfo_of_json el = Inr v" using AddressInfo_round_trip by blast
  then obtain els' where e: "els = el # els'" "rmap AddressInfo_json (map snd m) = Inr els'" using Cons.prems(3) kv by auto
  have "vmap_put k v m0 = m0 @ [(k, v)]"
    using Cons.prems(1) kv by (intro vmap_put_last) (auto simp: sorted_wrt_append)
  then show ?case using Cons.IH [of "m0 @ [(k, v)]" els'] Cons.prems e el kv by simp
qed simp

section \<open>Properties of the settings\<close>

text \<open>
  Settings written as JSON are read back unchanged, when there is at least one validator and the
  validators are stored under their identifiers, as both constructors store them. Without validators
  the member \<^verbatim>\<open>validators\<close> is missing and reading throws.
\<close>

theorem settings_json_round_trip:
  assumes "settings_ok s"
  shows "\<exists>j. Settings_to_json JNull s = Inr j
    \<and> Settings_from_json j s0 = (if validators s = [] then Inl (Json_out_of_range 403) else Inr s)"
proof -
  obtain els where els: "rmap AddressInfo_json (map snd (validators s)) = Inr els"
    using rmap_Inr_exists [of "map snd (validators s)" AddressInfo_json] AddressInfo_round_trip by blast
  then have els': "rmap (\<lambda>kv. AddressInfo_json (snd kv)) (validators s) = Inr els" by (simp add: rmap_map)
  have r: "rfold (\<lambda>el m. rbind (AddressInfo_of_json el) (\<lambda>v. Inr (vmap_put (ai_id v) v m))) els [] = Inr (validators s)"
    using read_validators [of "[]" "validators s" els] assms els by (simp add: settings_ok_def)
  have w: "rmap get_arith (map (\<lambda>w :: u32. JUnsigned (ucast w)) ws) = Inr ws" for ws
    by (simp add: rmap_map rmap_all_Inr [where g = id] get_arith_def)
  show ?thesis
  proof (cases "validators s = []")
    case True
    then show ?thesis by (simp add: Settings_to_json_def Settings_from_json_def json_at_def json_update_def get_arith_def)
  next
    case False
    have "Settings_to_json JNull s = Inr (JObject [(''leaderID'', JUnsigned (ucast (leader_id s))),
       (''myValidatorID'', JUnsigned (ucast (my_validator_id s))), (''myWalletID'', JUnsigned (ucast (my_wallet_id s))),
       (''validators'', JArray els), (''wallets'', JArray (map (\<lambda>w. JUnsigned (ucast w)) (wallets s)))])"
      using False els' by (simp add: Settings_to_json_def push_all [where f = "\<lambda>x. x"])
    then show ?thesis using False r w by (simp add: Settings_from_json_def)
  qed
qed

theorem settings_json_round_trip_witness:
  "\<exists>j. Settings_to_json JNull (new_Settings [\<lparr>ai_id = 4, ai_address = ''h'', ai_port = 80, ai_faulty = False\<rparr>] 4 [7] 4 7) = Inr j
     \<and> Settings_from_json j (new_Settings [] 0 [] 0 0)
       = Inr (new_Settings [\<lparr>ai_id = 4, ai_address = ''h'', ai_port = 80, ai_faulty = False\<rparr>] 4 [7] 4 7)"
  using settings_json_round_trip [OF new_Settings_ok, of "[\<lparr>ai_id = 4, ai_address = ''h'', ai_port = 80, ai_faulty = False\<rparr>]" 4 "[7]" 4 7]
  by (simp add: new_Settings_def)

text \<open>
  Asking for a validator that is not configured changes the configuration: the entry is created
  with an empty address, and the total number of validators, from which the thresholds of the
  protocol are computed, grows by one.
\<close>

theorem unknown_validator_added:
  assumes "map_of (validators s) vid = None"
  shows "getValidatorInfo vid s = (no_AddressInfo, s\<lparr>validators := vmap_put vid no_AddressInfo (validators s)\<rparr>)
    \<and> getTotalNumberOfValidators (snd (getValidatorInfo vid s)) = getTotalNumberOfValidators s + 1
    \<and> getNumberOfFaultyValidators (snd (getValidatorInfo vid s)) = getNumberOfFaultyValidators s"
proof -
  have "length (filter (\<lambda>kv. ai_faulty (snd kv)) (vmap_put vid no_AddressInfo m)) = length (filter (\<lambda>kv. ai_faulty (snd kv)) m)"
    if "map_of m vid = None" for m
    using that by (induction vid no_AddressInfo m rule: vmap_put.induct) (auto simp: no_AddressInfo_def split: if_splits)
  then show ?thesis
    using assms by (simp add: getValidatorInfo_def validator_at_def getTotalNumberOfValidators_def length_vmap_put faulty_count)
qed

theorem unknown_validator_added_witness:
  "getTotalNumberOfValidators (snd (getValidatorInfo 9 (new_Settings [] 0 [] 0 0))) = 1"
  using unknown_validator_added [of "new_Settings [] 0 [] 0 0" 9] by (simp add: new_Settings_def getTotalNumberOfValidators_def)

end
