(* ===== verification/Node.thy ===== *)
theory Node
  imports Message Settings Interfaces
begin

text \<open>
  The classes \<^verbatim>\<open>Node\<close>, \<^verbatim>\<open>LeaderNode\<close> and \<^verbatim>\<open>FaultNode\<close> of \<^verbatim>\<open>include/bracha/node.h\<close> and \<^verbatim>\<open>lib/bracha/node.cc\<close>: a
  validator's part of the reliable broadcast of blocks. Messages are read in batches and counted per
  block; the thresholds on the counts decide when a node answers and when it delivers. Every
  message is signed with a one-time key and announces the next one.
\<close>

section \<open>The runtime\<close>

text \<open>
  What the standard library and the machine decide: the random device, the order in which an
  \<^verbatim>\<open>unordered_map\<close> is traversed, and what reading a map's key through a reference gives after its
  entry was erased (the C++ standard leaves it undefined).
\<close>

record runtime =
  rt_random :: urandom
  rt_order :: "(string \<times> u64) list \<Rightarrow> (string \<times> u64) list"
  rt_freed :: "string \<Rightarrow> string res"

section \<open>The class\<close>

text \<open>
  \<open>outbox\<close> is the sequence of messages handed to \<^verbatim>\<open>grpcClient_.Broadcast\<close>, \<open>random_calls\<close> counts the
  reads of the random device.
\<close>

record Node =
  node_id :: u16
  node_port :: u16
  is_lead :: bool
  is_faulty :: bool
  num_nodes :: u16
  num_faulty :: u16
  blk_list :: "string \<rightharpoonup> Block"
  send_this_round :: string
  ready_this_round :: "(string \<times> u64) list"
  echo_this_round :: "(string \<times> u64) list"
  ready_sent :: "string set"
  node_utxolist :: UTXOlist
  node_wallet_ids :: "u32 list"
  voted_hash :: string
  should_broadcast :: bool
  my_current_private_key :: SigKey
  my_current_public_key :: SigKey
  my_next_key_pair :: signature_state
  val_sig_keys :: "u16 \<rightharpoonup> SigKey"
  verified_blocks :: "string set"
  node_blocks :: "string \<rightharpoonup> Block"
  accepted_blocks :: "string list"
  outbox :: "Message list"
  random_calls :: nat

definition no_key :: SigKey where
  "no_key = \<lparr>S0 = [], S1 = []\<rparr>"

text \<open>\<^verbatim>\<open>my_next_key_pair_.KeyGen()\<close>.\<close>

definition node_KeyGen :: "runtime \<Rightarrow> Node \<Rightarrow> Node res" where
  "node_KeyGen rt nd = (case KeyGen (rt_random rt) (random_calls nd) (my_next_key_pair nd) of
     (kp, r) \<Rightarrow> rbind r (\<lambda>_. Inr (nd\<lparr>my_next_key_pair := kp, random_calls := random_calls nd + 2 * KEY_LEN\<rparr>)))"

text \<open>
  The constructor. Asking the settings for the port creates an entry for an unknown identifier before
  the validators are counted.
\<close>

definition new_Node :: "runtime \<Rightarrow> u16 \<Rightarrow> Settings \<Rightarrow> bool \<Rightarrow> Node res" where
  "new_Node rt id0 settings lead = (let (info, settings) = getValidatorInfo (ucast id0) settings in
     rbind (node_KeyGen rt
       \<lparr>node_id = id0, node_port = ucast (ai_port info), is_lead = lead, is_faulty = False, num_nodes = 0, num_faulty = 0,
        blk_list = Map.empty, send_this_round = [], ready_this_round = [], echo_this_round = [], ready_sent = {},
        node_utxolist = [], node_wallet_ids = [], voted_hash = [], should_broadcast = True,
        my_current_private_key = no_key, my_current_public_key = no_key,
        my_next_key_pair = \<lparr>public_key = no_key, private_key = no_key\<rparr>, val_sig_keys = Map.empty,
        verified_blocks = {}, node_blocks = Map.empty, accepted_blocks = [], outbox = [], random_calls = 0\<rparr>)
       (\<lambda>nd. Inr (nd\<lparr>num_nodes := ucast (getTotalNumberOfValidators settings),
                    num_faulty := ucast (getNumberOfFaultyValidators settings)\<rparr>)))"

definition new_LeaderNode :: "runtime \<Rightarrow> u64 \<Rightarrow> Settings \<Rightarrow> Node res" where
  "new_LeaderNode rt id0 settings = new_Node rt (ucast id0) settings True"

definition new_FaultNode :: "runtime \<Rightarrow> u64 \<Rightarrow> Settings \<Rightarrow> Node res" where
  "new_FaultNode rt id0 settings = rbind (new_Node rt (ucast id0) settings False) (\<lambda>nd. Inr (nd\<lparr>is_faulty := True\<rparr>))"

definition node_setUTXOlists :: "UTXOlist \<Rightarrow> u32 list \<Rightarrow> Node \<Rightarrow> Node" where
  "node_setUTXOlists utxolist wallet_ids nd = nd\<lparr>node_utxolist := utxolist, node_wallet_ids := wallet_ids\<rparr>"

definition node_clearUTXOlists :: "Node \<Rightarrow> Node" where
  "node_clearUTXOlists nd = nd\<lparr>node_utxolist := []\<rparr>"

text \<open>
  The copy and the move constructor do not initialise \<^verbatim>\<open>n_\<close> and \<^verbatim>\<open>f_\<close>: \<open>n\<close> and \<open>f\<close> are whatever the memory holds. The new node
  has a client with queues of its own.
\<close>

definition copy_Node :: "u16 \<Rightarrow> u16 \<Rightarrow> Node \<Rightarrow> Node" where
  "copy_Node n f other = other\<lparr>num_nodes := n, num_faulty := f, outbox := []\<rparr>"

definition destroy_Node :: "Node \<Rightarrow> Node" where
  "destroy_Node nd = nd\<lparr>should_broadcast := False, ready_this_round := [], echo_this_round := [], send_this_round := []\<rparr>"

definition isLeader :: "Node \<Rightarrow> bool" where
  "isLeader nd = is_lead nd"

definition getVotedHash :: "Node \<Rightarrow> string" where
  "getVotedHash nd = voted_hash nd"

definition isConsensus :: "Node \<Rightarrow> bool" where
  "isConsensus nd \<longleftrightarrow> \<not> should_broadcast nd"

section \<open>Receiving\<close>

text \<open>
  The signature is checked against the key the sender announced last; the first message of a sender is
  accepted. The announced next key is stored in both cases. The keys are printed, which reads their
  first entries.
\<close>

definition checkBlockSig :: "Block \<Rightarrow> Node \<Rightarrow> (bool \<times> Node) res" where
  "checkBlockSig b nd = rbind (Block_getDigest b) (\<lambda>block_digest.
     rbind (case val_sig_keys nd (validator_id b) of
              None \<Rightarrow> Inr 1
            | Some key \<Rightarrow> rbind (Verify block_digest (validator_sig b) key)
                (\<lambda>valid. rbind (print_SigKey key) (\<lambda>_. Inr valid))) (\<lambda>valid.
     let nd = nd\<lparr>val_sig_keys := (val_sig_keys nd)(validator_id b \<mapsto> validator_next_public_key b)\<rparr> in
     rbind (print_SigKey (validator_next_public_key b)) (\<lambda>_. Inr (valid = 1, nd))))"

text \<open>\<^verbatim>\<open>map[hash]++\<close>, or one when the hash is new.\<close>

fun count_up :: "string \<Rightarrow> (string \<times> u64) list \<Rightarrow> (string \<times> u64) list" where
  "count_up h [] = [(h, 1)]"
| "count_up h ((h', k) # m) = (if h = h' then (h', k + 1) # m else (h', k) # count_up h m)"

definition block_hash :: "Block \<Rightarrow> string" where
  "block_hash b = Header_getID (block_header b)"

definition save_block :: "Block \<Rightarrow> u32 \<Rightarrow> Node \<Rightarrow> Node" where
  "save_block b rnd nd =
     (let h = block_hash b;
          sig = \<lparr>bs_signature = validator_sig b,
                 bs_public_key = (case val_sig_keys nd (validator_id b) of None \<Rightarrow> no_key | Some key \<Rightarrow> key),
                 bs_validator_id = validator_id b, bs_round = ucast rnd\<rparr>;
          stored = (case node_blocks nd h of None \<Rightarrow> b | Some b' \<Rightarrow> b')
      in nd\<lparr>node_blocks := (node_blocks nd)(h \<mapsto> addValidatorSignature sig stored),
            blk_list := (case blk_list nd h of None \<Rightarrow> (blk_list nd)(h \<mapsto> b) | Some _ \<Rightarrow> blk_list nd)\<rparr>)"

definition count_message :: "MsgType \<Rightarrow> string \<Rightarrow> Node \<Rightarrow> Node" where
  "count_message t h nd = (case t of
       SEND \<Rightarrow> nd\<lparr>send_this_round := h\<rparr>
     | ECHO \<Rightarrow> nd\<lparr>echo_this_round := count_up h (echo_this_round nd)\<rparr>
     | READY \<Rightarrow> nd\<lparr>ready_this_round := count_up h (ready_this_round nd)\<rparr>)"

text \<open>The body of the loop over the messages; the log line at its start reads the message type.\<close>

definition recv_message :: "Message \<Rightarrow> Node \<Rightarrow> Node res" where
  "recv_message msg nd = (let b = msg_block msg; h = block_hash b in
     rbind (getType msg) (\<lambda>t. rbind (checkBlockSig b nd) (\<lambda>(valid, nd).
       if \<not> valid then Inr nd
       else if h \<notin> verified_blocks nd \<and> \<not> verify b (node_utxolist nd) (node_wallet_ids nd) then Inr nd
       else Inr (count_message t h (save_block b (getRound msg)
                  (nd\<lparr>verified_blocks := insert h (verified_blocks nd)\<rparr>))))))"

definition updateRecvMessages :: "Message list \<Rightarrow> Node \<Rightarrow> Node res" where
  "updateRecvMessages msg_list nd = rfold recv_message msg_list (nd\<lparr>send_this_round := []\<rparr>)"

section \<open>Sending\<close>

text \<open>\<^verbatim>\<open>assert\<close> fails on zero only: the verdict -1 of \<^verbatim>\<open>Verify\<close> passes.\<close>

definition signBlock :: "runtime \<Rightarrow> Block \<Rightarrow> Node \<Rightarrow> (Block \<times> Node) res" where
  "signBlock rt b nd =
     (let priv = private_key (my_next_key_pair nd); pub = public_key (my_next_key_pair nd);
          nd = nd\<lparr>my_current_private_key := priv, my_current_public_key := pub\<rparr> in
      rbind (node_KeyGen rt nd) (\<lambda>nd. let next_pub = public_key (my_next_key_pair nd) in
      rbind (print_SigKey pub) (\<lambda>_. rbind (print_SigKey next_pub) (\<lambda>_.
      case Block_sign priv (node_id nd) next_pub b of (b, r) \<Rightarrow> rbind r (\<lambda>_.
      rbind (Block_getDigest b) (\<lambda>digest. rbind (Verify digest (validator_sig b) pub) (\<lambda>v.
        if v = 0 then Inl (Assertion_failed ''signBlock'') else Inr (b, nd))))))))"

definition broadcastMessage :: "runtime \<Rightarrow> MsgType \<Rightarrow> Block \<Rightarrow> u16 \<Rightarrow> Node \<Rightarrow> Node res" where
  "broadcastMessage rt t b rnd nd = rbind (signBlock rt b nd) (\<lambda>(b, nd).
     Inr (nd\<lparr>outbox := outbox nd @ [new_Message t b (ucast (node_id nd)) rnd]\<rparr>))"

section \<open>The rounds\<close>

definition echo_quorum :: "u16 \<Rightarrow> u16 \<Rightarrow> nat \<Rightarrow> bool" where
  "echo_quorum n f nb_recv \<longleftrightarrow> nb_recv \<ge> (unat n + unat f + 1) div 2"

definition ready_quorum :: "u16 \<Rightarrow> nat \<Rightarrow> bool" where
  "ready_quorum f nb_recv \<longleftrightarrow> nb_recv \<ge> unat f + 1"

definition delivery_quorum :: "u16 \<Rightarrow> nat \<Rightarrow> bool" where
  "delivery_quorum f nb_recv \<longleftrightarrow> nb_recv > 2 * unat f + 1"

text \<open>\<^verbatim>\<open>blk_list_[hash]\<close>: a missing entry is an empty block.\<close>

definition listed_block :: "Node \<Rightarrow> string \<Rightarrow> Block" where
  "listed_block nd h = (case blk_list nd h of None \<Rightarrow> empty_Block | Some b \<Rightarrow> b)"

definition send_ready :: "runtime \<Rightarrow> string \<Rightarrow> u16 \<Rightarrow> Node \<Rightarrow> Node res" where
  "send_ready rt h rnd nd = rbind (broadcastMessage rt READY (listed_block nd h) rnd nd)
     (\<lambda>nd. Inr (nd\<lparr>ready_sent := insert h (ready_sent nd)\<rparr>))"

definition echo_round :: "runtime \<Rightarrow> string \<times> u64 \<Rightarrow> Node \<Rightarrow> Node res" where
  "echo_round rt hk nd = (case hk of (h, k) \<Rightarrow>
     if echo_quorum (num_nodes nd) (num_faulty nd) (unat k) \<and> h \<notin> ready_sent nd then send_ready rt h 2 nd else Inr nd)"

definition deliver :: "runtime \<Rightarrow> string \<Rightarrow> Node \<Rightarrow> Node res" where
  "deliver rt h nd =
     (let nd = nd\<lparr>should_broadcast := False, voted_hash := h,
                  echo_this_round := filter (\<lambda>hk. fst hk \<noteq> h) (echo_this_round nd),
                  ready_this_round := filter (\<lambda>hk. fst hk \<noteq> h) (ready_this_round nd)\<rparr> in
      rbind (rt_freed rt h) (\<lambda>h'. Inr (nd\<lparr>accepted_blocks := accepted_blocks nd @ [h']\<rparr>)))"

text \<open>The loop over the READY counts, left after the first delivery.\<close>

fun ready_loop :: "runtime \<Rightarrow> (string \<times> u64) list \<Rightarrow> Node \<Rightarrow> Node res" where
  "ready_loop rt [] nd = Inr nd"
| "ready_loop rt ((h, k) # l) nd =
     rbind (if ready_quorum (num_faulty nd) (unat k) \<and> h \<notin> ready_sent nd then send_ready rt h 3 nd else Inr nd)
       (\<lambda>nd. if delivery_quorum (num_faulty nd) (unat k) then deliver rt h nd else ready_loop rt l nd)"

definition broadcastRound :: "runtime \<Rightarrow> Node \<Rightarrow> Node res" where
  "broadcastRound rt nd = (let nd = nd\<lparr>should_broadcast := True\<rparr> in
     rbind (if send_this_round nd \<noteq> []
            then rbind (broadcastMessage rt ECHO (listed_block nd (send_this_round nd)) 1 nd)
                   (\<lambda>nd. Inr (nd\<lparr>send_this_round := []\<rparr>))
            else Inr nd) (\<lambda>nd.
     rbind (rfold (echo_round rt) (rt_order rt (echo_this_round nd)) nd) (\<lambda>nd.
     ready_loop rt (rt_order rt (ready_this_round nd)) nd)))"

section \<open>Running the protocol\<close>

text \<open>
  The loop of \<^verbatim>\<open>RunProtocol\<close> on the batches of messages the server hands over, one per wake-up; with no
  batch left it waits.
\<close>

fun protocol_loop :: "runtime \<Rightarrow> Message list list \<Rightarrow> Node \<Rightarrow> Node res" where
  "protocol_loop rt [] nd = Inr nd"
| "protocol_loop rt (msg_list # batches) nd =
     (if should_broadcast nd
      then rbind (updateRecvMessages msg_list nd) (\<lambda>nd. rbind (broadcastRound rt nd) (protocol_loop rt batches))
      else Inr nd)"

definition RunProtocol :: "runtime \<Rightarrow> bool \<Rightarrow> Message list list \<Rightarrow> Node \<Rightarrow> Node res" where
  "RunProtocol rt broadcast batches nd = protocol_loop rt batches (nd\<lparr>should_broadcast := broadcast\<rparr>)"

text \<open>\<^verbatim>\<open>LeaderNode::RunProtocol\<close> repeats the loop of its base class.\<close>

fun LeaderNode_loop :: "runtime \<Rightarrow> Message list list \<Rightarrow> Node \<Rightarrow> Node res" where
  "LeaderNode_loop rt [] nd = Inr nd"
| "LeaderNode_loop rt (msg_list # batches) nd =
     (if should_broadcast nd
      then rbind (updateRecvMessages msg_list nd) (\<lambda>nd. rbind (broadcastRound rt nd) (LeaderNode_loop rt batches))
      else Inr nd)"

definition LeaderNode_RunProtocol :: "runtime \<Rightarrow> bool \<Rightarrow> Message list list \<Rightarrow> Node \<Rightarrow> Node res" where
  "LeaderNode_RunProtocol rt broadcast batches nd = LeaderNode_loop rt batches (nd\<lparr>should_broadcast := broadcast\<rparr>)"

lemma LeaderNode_loop_eq: "LeaderNode_loop rt batches nd = protocol_loop rt batches nd"
proof (induction batches arbitrary: nd)
  case (Cons msg_list batches)
  then have "LeaderNode_loop rt batches = protocol_loop rt batches" by (simp add: fun_eq_iff)
  then show ?case by simp
qed simp

lemma LeaderNode_RunProtocol_eq: "LeaderNode_RunProtocol rt broadcast batches nd = RunProtocol rt broadcast batches nd"
  by (simp add: LeaderNode_RunProtocol_def RunProtocol_def LeaderNode_loop_eq)

definition Propose :: "runtime \<Rightarrow> Block \<Rightarrow> Node \<Rightarrow> Node res" where
  "Propose rt bx nd = broadcastMessage rt SEND bx 0 nd"

definition getReceivedBlock :: "string \<Rightarrow> Node \<Rightarrow> Block" where
  "getReceivedBlock h nd = (case node_blocks nd h of None \<Rightarrow> empty_Block | Some b \<Rightarrow> b)"

text \<open>\<^verbatim>\<open>blocks_[hash]\<close> creates an empty block for a hash it does not know.\<close>

definition getConsensusBlocks :: "bool \<Rightarrow> Node \<Rightarrow> Block list \<times> Node" where
  "getConsensusBlocks erase nd =
     (let blocks = map (\<lambda>h. getReceivedBlock h nd) (accepted_blocks nd);
          nd = nd\<lparr>node_blocks := (\<lambda>h. if h \<in> set (accepted_blocks nd) then Some (getReceivedBlock h nd) else node_blocks nd h)\<rparr>
      in (blocks, if erase then nd\<lparr>accepted_blocks := [], should_broadcast := False\<rparr> else nd))"

section \<open>Faulty nodes\<close>

datatype ByzantineBehavior = NONE | CRASH | DELAY_SEND | PARTIAL_SEND | WRONG_ORDER | IMPERSONATE

fun byzantineBehavior2String :: "ByzantineBehavior \<Rightarrow> string res" where
  "byzantineBehavior2String CRASH = Inr ''crash''"
| "byzantineBehavior2String DELAY_SEND = Inr ''delay_send''"
| "byzantineBehavior2String PARTIAL_SEND = Inr ''partial_send''"
| "byzantineBehavior2String WRONG_ORDER = Inr ''wrong_order''"
| "byzantineBehavior2String IMPERSONATE = Inr ''impersonate''"
| "byzantineBehavior2String NONE = Inl (Invalid_argument ''unexpected Byzantine Behavior value'')"

text \<open>A faulty node overrides \<^verbatim>\<open>broadcastRound\<close> with an empty body: it reads messages and answers nothing.\<close>

fun faulty_loop :: "Message list list \<Rightarrow> Node \<Rightarrow> Node res" where
  "faulty_loop [] nd = Inr nd"
| "faulty_loop (msg_list # batches) nd =
     (if should_broadcast nd then rbind (updateRecvMessages msg_list nd) (faulty_loop batches) else Inr nd)"

definition FaultNode_RunProtocol :: "ByzantineBehavior \<Rightarrow> Message list list \<Rightarrow> Node \<Rightarrow> Node res" where
  "FaultNode_RunProtocol behaviour batches nd = rbind (byzantineBehavior2String behaviour) (\<lambda>_.
     faulty_loop batches (nd\<lparr>should_broadcast := (behaviour \<noteq> CRASH)\<rparr>))"

section \<open>What sending changes\<close>

lemma node_KeyGen_Inr:
  assumes "node_KeyGen rt nd = Inr nd'"
  shows "\<exists>kp. nd' = nd\<lparr>my_next_key_pair := kp, random_calls := random_calls nd + 2 * KEY_LEN\<rparr>
            \<and> key_pair (private_key kp) (public_key kp)"
  using assms by (auto simp: node_KeyGen_def split: prod.splits dest: KeyGen_key_pair(2))

lemma signBlock_Inr:
  assumes "signBlock rt b nd = Inr (b', nd')"
  shows "\<exists>kp. nd' = nd\<lparr>my_current_private_key := private_key (my_next_key_pair nd),
               my_current_public_key := public_key (my_next_key_pair nd), my_next_key_pair := kp,
               random_calls := random_calls nd + 2 * KEY_LEN\<rparr>
            \<and> key_pair (private_key kp) (public_key kp)
            \<and> Block_sign (private_key (my_next_key_pair nd)) (node_id nd) (public_key kp) b = (b', Inr ())"
  using assms by (auto simp: signBlock_def Let_def split: prod.splits if_splits dest!: node_KeyGen_Inr) blast

lemma Block_sign_Inr: "Block_sign key vid next_key b = (b', Inr ()) \<Longrightarrow> \<not> block_mutable b \<and> block_hash b' = block_hash b"
  by (auto simp: Block_sign_def block_hash_def Let_def split: if_splits sum.splits)

lemma broadcastMessage_Inr:
  assumes "broadcastMessage rt t b rnd nd = Inr nd'"
  shows "\<exists>kp b'. nd' = nd\<lparr>my_current_private_key := private_key (my_next_key_pair nd),
               my_current_public_key := public_key (my_next_key_pair nd), my_next_key_pair := kp,
               random_calls := random_calls nd + 2 * KEY_LEN, outbox := outbox nd @ [new_Message t b' (ucast (node_id nd)) rnd]\<rparr>
            \<and> key_pair (private_key kp) (public_key kp) \<and> \<not> block_mutable b \<and> block_hash b' = block_hash b"
  using assms by (fastforce simp: broadcastMessage_def dest: signBlock_Inr Block_sign_Inr)

text \<open>The fields the protocol decides on, which sending leaves alone.\<close>

definition same_counts :: "Node \<Rightarrow> Node \<Rightarrow> bool" where
  "same_counts nd nd' \<longleftrightarrow> blk_list nd' = blk_list nd \<and> ready_this_round nd' = ready_this_round nd
     \<and> echo_this_round nd' = echo_this_round nd \<and> num_nodes nd' = num_nodes nd \<and> num_faulty nd' = num_faulty nd
     \<and> accepted_blocks nd' = accepted_blocks nd \<and> should_broadcast nd' = should_broadcast nd
     \<and> val_sig_keys nd' = val_sig_keys nd \<and> voted_hash nd' = voted_hash nd"

lemma same_counts_refl [simp]: "same_counts nd nd"
  by (simp add: same_counts_def)

lemma same_counts_trans: "same_counts a b \<Longrightarrow> same_counts b c \<Longrightarrow> same_counts a c"
  by (simp add: same_counts_def)

lemma broadcastMessage_same: "broadcastMessage rt t b rnd nd = Inr nd' \<Longrightarrow> same_counts nd nd' \<and> ready_sent nd' = ready_sent nd
   \<and> send_this_round nd' = send_this_round nd"
  by (auto simp: same_counts_def dest!: broadcastMessage_Inr)

lemma send_ready_same:
  "send_ready rt h rnd nd = Inr nd' \<Longrightarrow> same_counts nd nd' \<and> ready_sent nd' = insert h (ready_sent nd)"
  by (auto simp: send_ready_def same_counts_def dest!: broadcastMessage_Inr)

lemma echo_round_same:
  assumes "echo_round rt hk nd = Inr nd'"
  shows "same_counts nd nd' \<and> ready_sent nd' = (if echo_quorum (num_nodes nd) (num_faulty nd) (unat (snd hk))
           then insert (fst hk) (ready_sent nd) else ready_sent nd)"
  using assms by (cases hk) (auto simp: echo_round_def dest: send_ready_same split: if_splits)

lemma echo_rounds_same:
  assumes "rfold (echo_round rt) hks nd = Inr nd'"
  shows "same_counts nd nd' \<and> ready_sent nd' = ready_sent nd
     \<union> {h. \<exists>k. (h, k) \<in> set hks \<and> echo_quorum (num_nodes nd) (num_faulty nd) (unat k)}"
  using assms
proof (induction hks arbitrary: nd)
  case (Cons hk hks)
  then obtain nd1 where e: "echo_round rt hk nd = Inr nd1" and r: "rfold (echo_round rt) hks nd1 = Inr nd'" by auto
  have "num_nodes nd1 = num_nodes nd" "num_faulty nd1 = num_faulty nd"
    using echo_round_same [OF e] by (auto simp: same_counts_def)
  then show ?case
    using echo_round_same [OF e] Cons.IH [OF r] same_counts_trans [of nd nd1 nd'] by (cases hk) auto
qed simp

text \<open>What the loop over the READY counts does, on every path.\<close>

lemma ready_loop_same:
  assumes "ready_loop rt hks nd = Inr nd'"
  shows "num_faulty nd' = num_faulty nd
    \<and> ready_sent nd' \<subseteq> ready_sent nd \<union> {h. \<exists>k. (h, k) \<in> set hks \<and> ready_quorum (num_faulty nd) (unat k)}
    \<and> (if \<exists>(h, k) \<in> set hks. delivery_quorum (num_faulty nd) (unat k)
       then \<not> should_broadcast nd' \<and> (\<exists>k h'. (voted_hash nd', k) \<in> set hks \<and> delivery_quorum (num_faulty nd) (unat k)
              \<and> rt_freed rt (voted_hash nd') = Inr h' \<and> accepted_blocks nd' = accepted_blocks nd @ [h'])
       else should_broadcast nd' = should_broadcast nd \<and> accepted_blocks nd' = accepted_blocks nd \<and> voted_hash nd' = voted_hash nd)"
  using assms
proof (induction hks arbitrary: nd)
  case (Cons hk hks)
  obtain h k where hk: "hk = (h, k)" by (cases hk)
  then obtain nd1 where
    r: "(if ready_quorum (num_faulty nd) (unat k) \<and> h \<notin> ready_sent nd then send_ready rt h 3 nd else Inr nd) = Inr nd1"
    and l: "(if delivery_quorum (num_faulty nd1) (unat k) then deliver rt h nd1 else ready_loop rt hks nd1) = Inr nd'"
    using Cons.prems by auto
  have s: "same_counts nd nd1" "ready_sent nd1 \<subseteq> (if ready_quorum (num_faulty nd) (unat k) then insert h (ready_sent nd) else ready_sent nd)"
    using r by (auto dest: send_ready_same split: if_splits)
  then have nf: "num_faulty nd1 = num_faulty nd" "accepted_blocks nd1 = accepted_blocks nd"
    "should_broadcast nd1 = should_broadcast nd" "voted_hash nd1 = voted_hash nd" by (simp_all add: same_counts_def)
  show ?case
  proof (cases "delivery_quorum (num_faulty nd) (unat k)")
    case True
    then obtain h' where "rt_freed rt h = Inr h'" "nd' = nd1\<lparr>should_broadcast := False, voted_hash := h,
                  echo_this_round := filter (\<lambda>hk. fst hk \<noteq> h) (echo_this_round nd1),
                  ready_this_round := filter (\<lambda>hk. fst hk \<noteq> h) (ready_this_round nd1),
                  accepted_blocks := accepted_blocks nd1 @ [h']\<rparr>"
      using l nf by (auto simp: deliver_def)
    then show ?thesis using True nf s(2) hk by (auto split: if_splits)
  next
    case False
    then have "ready_loop rt hks nd1 = Inr nd'" using l nf by simp
    note ih = Cons.IH [OF this]
    have "x \<in> ready_sent nd \<or> x = h \<and> ready_quorum (num_faulty nd) (unat k)" if "x \<in> ready_sent nd1" for x
      using s(2) that by (auto split: if_splits)
    then have "ready_sent nd' \<subseteq> ready_sent nd \<union> {h. \<exists>k. (h, k) \<in> set (hk # hks) \<and> ready_quorum (num_faulty nd) (unat k)}"
      using ih nf hk by fastforce
    moreover have "(\<exists>(h, k) \<in> set (hk # hks). delivery_quorum (num_faulty nd) (unat k))
        \<longleftrightarrow> (\<exists>(h, k) \<in> set hks. delivery_quorum (num_faulty nd) (unat k))" using False hk by auto
    ultimately show ?thesis using ih nf by (auto split: if_splits)
  qed
qed simp

section \<open>The invariant of a node\<close>

text \<open>The blocks a node has sent READY for, in the order of the messages.\<close>

definition ready_hashes :: "Node \<Rightarrow> string list" where
  "ready_hashes nd = map (\<lambda>m. block_hash (msg_block m)) (filter (\<lambda>m. msg_type m = Some READY) (outbox nd))"

definition node_inv :: "Node \<Rightarrow> bool" where
  "node_inv nd \<longleftrightarrow> (\<forall>h b. blk_list nd h = Some b \<longrightarrow> block_hash b = h)
     \<and> distinct (ready_hashes nd) \<and> set (ready_hashes nd) = ready_sent nd
     \<and> key_pair (private_key (my_next_key_pair nd)) (public_key (my_next_key_pair nd))"

inductive node_step :: "runtime \<Rightarrow> Node \<Rightarrow> Node \<Rightarrow> bool" for rt where
  recv: "updateRecvMessages msgs nd = Inr nd' \<Longrightarrow> node_step rt nd nd'"
| rounds: "broadcastRound rt nd = Inr nd' \<Longrightarrow> node_step rt nd nd'"
| propose: "Propose rt b nd = Inr nd' \<Longrightarrow> node_step rt nd nd'"
| utxo: "node_step rt nd (node_setUTXOlists l ids nd)"
| clear: "node_step rt nd (node_clearUTXOlists nd)"
| consensus: "getConsensusBlocks erase nd = (bs, nd') \<Longrightarrow> node_step rt nd nd'"
| start: "node_step rt nd (nd\<lparr>should_broadcast := b\<rparr>)"

lemma node_inv_update [simp]:
  "node_inv (nd\<lparr>should_broadcast := x1\<rparr>) = node_inv nd" "node_inv (nd\<lparr>send_this_round := x2\<rparr>) = node_inv nd"
  "node_inv (nd\<lparr>voted_hash := x3\<rparr>) = node_inv nd" "node_inv (nd\<lparr>echo_this_round := x4\<rparr>) = node_inv nd"
  "node_inv (nd\<lparr>ready_this_round := x5\<rparr>) = node_inv nd" "node_inv (nd\<lparr>accepted_blocks := x6\<rparr>) = node_inv nd"
  "node_inv (nd\<lparr>node_utxolist := x7\<rparr>) = node_inv nd" "node_inv (nd\<lparr>node_wallet_ids := x8\<rparr>) = node_inv nd"
  "node_inv (nd\<lparr>verified_blocks := x9\<rparr>) = node_inv nd" "node_inv (nd\<lparr>val_sig_keys := x10\<rparr>) = node_inv nd"
  "node_inv (nd\<lparr>node_blocks := x11\<rparr>) = node_inv nd"
  by (simp_all add: node_inv_def ready_hashes_def)

lemma new_Node_inv: "new_Node rt id0 settings lead = Inr nd \<Longrightarrow> node_inv nd"
  by (auto simp: new_Node_def Let_def node_inv_def ready_hashes_def split: prod.splits dest!: node_KeyGen_Inr)

lemma broadcast_hashes:
  "broadcastMessage rt t b rnd nd = Inr nd' \<Longrightarrow> ready_hashes nd' = ready_hashes nd @ (if t = READY then [block_hash b] else [])"
  by (auto simp: ready_hashes_def new_Message_def dest!: broadcastMessage_Inr)

lemma broadcast_keys:
  "broadcastMessage rt t b rnd nd = Inr nd' \<Longrightarrow>
   key_pair (private_key (my_next_key_pair nd')) (public_key (my_next_key_pair nd')) \<and> \<not> block_mutable b"
  by (auto dest!: broadcastMessage_Inr)

lemma broadcast_inv:
  assumes "broadcastMessage rt t b rnd nd = Inr nd'" and "node_inv nd" and "t \<noteq> READY"
  shows "node_inv nd'"
  using assms(2,3) broadcast_hashes [OF assms(1)] broadcast_keys [OF assms(1)] broadcastMessage_same [OF assms(1)]
  by (simp add: node_inv_def same_counts_def)

lemma send_ready_inv:
  assumes "send_ready rt h rnd nd = Inr nd'" and "node_inv nd" and "h \<notin> ready_sent nd"
  shows "node_inv nd'"
proof -
  obtain nd1 where b: "broadcastMessage rt READY (listed_block nd h) rnd nd = Inr nd1"
    and nd': "nd' = nd1\<lparr>ready_sent := insert h (ready_sent nd1)\<rparr>" using assms(1) by (auto simp: send_ready_def)
  have "\<not> block_mutable (listed_block nd h)" using broadcast_keys [OF b] by blast
  then obtain bl where "blk_list nd h = Some bl" by (cases "blk_list nd h") (auto simp: listed_block_def empty_Block_def new_Block_def)
  then have "block_hash (listed_block nd h) = h" using assms(2) by (simp add: listed_block_def node_inv_def)
  then have "ready_hashes nd' = ready_hashes nd @ [h]" using broadcast_hashes [OF b] nd' by (simp add: ready_hashes_def)
  then show ?thesis
    using assms(2,3) nd' broadcast_keys [OF b] broadcastMessage_same [OF b] by (auto simp: node_inv_def same_counts_def)
qed

lemma echo_rounds_inv: "rfold (echo_round rt) hks nd = Inr nd' \<Longrightarrow> node_inv nd \<Longrightarrow> node_inv nd'"
  by (erule rfold_Inr_induct, assumption)
    (auto simp: echo_round_def dest: send_ready_inv split: if_splits)

lemma ready_loop_inv: "ready_loop rt hks nd = Inr nd' \<Longrightarrow> node_inv nd \<Longrightarrow> node_inv nd'"
proof (induction hks arbitrary: nd)
  case (Cons hk hks)
  obtain h k where hk: "hk = (h, k)" by (cases hk)
  then obtain nd1 where
    r: "(if ready_quorum (num_faulty nd) (unat k) \<and> h \<notin> ready_sent nd then send_ready rt h 3 nd else Inr nd) = Inr nd1"
    and l: "(if delivery_quorum (num_faulty nd1) (unat k) then deliver rt h nd1 else ready_loop rt hks nd1) = Inr nd'"
    using Cons.prems by auto
  have "node_inv nd1" using r Cons.prems(2) by (auto dest: send_ready_inv split: if_splits)
  then show ?case
    using l Cons.IH by (auto simp: deliver_def Let_def split: if_splits)
qed simp

lemma broadcastRound_parts:
  assumes "broadcastRound rt nd = Inr nd'"
  obtains nd1 nd2 where "same_counts (nd\<lparr>should_broadcast := True\<rparr>) nd1" "ready_sent nd1 = ready_sent nd" "node_inv nd \<Longrightarrow> node_inv nd1"
    and "rfold (echo_round rt) (rt_order rt (echo_this_round nd)) nd1 = Inr nd2"
    and "ready_loop rt (rt_order rt (ready_this_round nd2)) nd2 = Inr nd'"
proof -
  let ?nd = "nd\<lparr>should_broadcast := True\<rparr>"
  obtain nd1 nd2 where s: "(if send_this_round ?nd \<noteq> []
            then rbind (broadcastMessage rt ECHO (listed_block ?nd (send_this_round ?nd)) 1 ?nd)
                   (\<lambda>nd. Inr (nd\<lparr>send_this_round := []\<rparr>))
            else Inr ?nd) = Inr nd1"
    and e: "rfold (echo_round rt) (rt_order rt (echo_this_round nd1)) nd1 = Inr nd2"
    and l: "ready_loop rt (rt_order rt (ready_this_round nd2)) nd2 = Inr nd'"
    using assms by (auto simp: broadcastRound_def Let_def)
  have i: "node_inv nd1" if "node_inv nd"
    using s that by (auto split: if_splits dest: broadcast_inv)
  have c: "same_counts ?nd nd1 \<and> ready_sent nd1 = ready_sent nd"
    using s by (auto simp: same_counts_def split: if_splits dest!: broadcastMessage_Inr)
  then have "echo_this_round nd1 = echo_this_round nd" by (simp add: same_counts_def)
  then show thesis using that [of nd1 nd2] c e l i by auto
qed

lemma broadcastRound_inv: "broadcastRound rt nd = Inr nd' \<Longrightarrow> node_inv nd \<Longrightarrow> node_inv nd'"
  by (erule broadcastRound_parts) (auto intro: ready_loop_inv echo_rounds_inv)

lemma checkBlockSig_Inr:
  "checkBlockSig b nd = Inr (v, nd') \<Longrightarrow>
   nd' = nd\<lparr>val_sig_keys := (val_sig_keys nd)(validator_id b \<mapsto> validator_next_public_key b)\<rparr>"
  by (auto simp: checkBlockSig_def Let_def)

lemma recv_message_inv:
  assumes "recv_message m nd = Inr nd'" and "node_inv nd"
  shows "node_inv nd'"
proof -
  have "node_inv (count_message t h n) \<longleftrightarrow> node_inv n" for t h n
    by (cases t) (simp_all add: count_message_def)
  moreover have "node_inv n \<Longrightarrow> node_inv (save_block b r n)" for b r n
    by (auto simp: save_block_def node_inv_def ready_hashes_def Let_def split: option.splits if_splits)
  ultimately show ?thesis
    using assms by (auto simp: recv_message_def Let_def split: if_splits dest!: checkBlockSig_Inr)
qed

interpretation node: invariant_system "\<lambda>nd. \<exists>id0 settings lead. new_Node rt id0 settings lead = Inr nd" "node_step rt" node_inv for rt
proof
  fix nd nd' assume "node_step rt nd nd'" and inv: "node_inv nd"
  then show "node_inv nd'"
  proof (cases rule: node_step.cases)
    case (recv msgs)
    have "node_inv (nd\<lparr>send_this_round := []\<rparr>)" using inv by simp
    then show ?thesis using recv recv_message_inv by (auto simp: updateRecvMessages_def elim: rfold_Inr_induct)
  qed (use inv in \<open>auto simp: Propose_def node_setUTXOlists_def node_clearUTXOlists_def getConsensusBlocks_def Let_def
        dest: broadcastRound_inv broadcast_inv split: if_splits\<close>)
qed (use new_Node_inv in blast)

end
