(* ===== verification/Consensus.thy ===== *)
theory Consensus
  imports Node
begin

text \<open>
  Properties of the reliable broadcast run by the nodes of \<^verbatim>\<open>lib/bracha/node.cc\<close>: rounds act on the
  thresholds only, a node with a working random device makes progress, quorums intersect, READY is
  sent once per block, and the chain of one-time keys between a sender and a receiver.
\<close>

section \<open>A node that works\<close>

text \<open>
  The random device answers, the counted blocks are listed and immutable, and the next key pair is
  complete: then every message can be signed and sent.
\<close>

definition device_works :: "runtime \<Rightarrow> bool" where
  "device_works rt \<longleftrightarrow> (\<forall>n. open_ok (rt_random rt) n) \<and> (\<forall>n. read_byte (rt_random rt) n \<noteq> None)"

definition node_works :: "Node \<Rightarrow> bool" where
  "node_works nd \<longleftrightarrow> (\<forall>h b. blk_list nd h = Some b \<longrightarrow> \<not> block_mutable b)
     \<and> fst ` set (echo_this_round nd) \<subseteq> dom (blk_list nd) \<and> fst ` set (ready_this_round nd) \<subseteq> dom (blk_list nd)
     \<and> (send_this_round nd = [] \<or> send_this_round nd \<in> dom (blk_list nd))
     \<and> key_pair (private_key (my_next_key_pair nd)) (public_key (my_next_key_pair nd))"

lemma key_pair_public:
  assumes "key_pair priv pub"
  shows "key_storable pub \<and> (\<exists>str. print_SigKey pub = Inr str)"
proof -
  have c: "length (S0 pub) = KEY_LEN" "length (S1 pub) = KEY_LEN"
    using key_pair_complete [OF assms] by (simp_all add: key_complete_def)
  moreover obtain n where "KEY_LEN = Suc n" by (simp add: KEY_LEN_def)
  ultimately obtain a as b bs where "S0 pub = a # as" "S1 pub = b # bs"
    by (metis Suc_length_conv)
  then have "\<exists>str. print_SigKey pub = Inr str" by (simp add: print_SigKey_def)
  moreover have "key_storable pub"
    using assms c by (auto simp: key_storable_def key_complete_def key_pair_def list_all_iff plain_ascii)
  ultimately show ?thesis by simp
qed

lemma key_storable_writable: "key_storable key \<Longrightarrow> key_writable key"
  by (simp add: key_storable_def key_writable_def)

lemma signBlock_total:
  assumes "device_works rt" and "\<not> block_mutable b" and "key_pair (private_key (my_next_key_pair nd)) (public_key (my_next_key_pair nd))"
  shows "\<exists>b' nd'. signBlock rt b nd = Inr (b', nd')"
proof -
  let ?nd = "nd\<lparr>my_current_private_key := private_key (my_next_key_pair nd), my_current_public_key := public_key (my_next_key_pair nd)\<rparr>"
  obtain kp where "KeyGen (rt_random rt) (random_calls nd) (my_next_key_pair nd) = (kp, Inr 1)"
    using KeyGen_total [of "rt_random rt" "random_calls nd" "my_next_key_pair nd"] assms(1) by (auto simp: device_works_def)
  then obtain nd1 where g: "node_KeyGen rt ?nd = Inr nd1" by (simp add: node_KeyGen_def)
  then obtain kp where nd1: "nd1 = ?nd\<lparr>my_next_key_pair := kp, random_calls := random_calls ?nd + 2 * KEY_LEN\<rparr>"
    and kp: "key_pair (private_key kp) (public_key kp)" using node_KeyGen_Inr by blast
  obtain b' where b': "Block_sign (private_key (my_next_key_pair nd)) (node_id nd) (public_key kp) b = (b', Inr ())"
      "verifySignature b' (public_key (my_next_key_pair nd)) = Inr True"
    using Block_sign_verifies [OF assms(2,3)] key_pair_public [OF kp] key_storable_writable by blast
  then obtain d v where "Block_getDigest b' = Inr d" "Verify d (validator_sig b') (public_key (my_next_key_pair nd)) = Inr v" "v \<noteq> 0"
    by (auto simp: verifySignature_def)
  then show ?thesis
    using g nd1 b'(1) key_pair_public [OF kp] key_pair_public [OF assms(3)] by (auto simp: signBlock_def Let_def)
qed

lemma broadcastMessage_total:
  assumes "device_works rt" and "\<not> block_mutable b" and "key_pair (private_key (my_next_key_pair nd)) (public_key (my_next_key_pair nd))"
  shows "\<exists>nd'. broadcastMessage rt t b rnd nd = Inr nd'"
  using signBlock_total [OF assms] by (auto simp: broadcastMessage_def)

lemma works_same:
  assumes "node_works nd" and "same_counts nd nd'" and "send_this_round nd' \<in> {send_this_round nd, []}"
    and "key_pair (private_key (my_next_key_pair nd')) (public_key (my_next_key_pair nd'))"
  shows "node_works nd'"
  using assms by (auto simp: node_works_def same_counts_def)

lemma listed_immutable: "node_works nd \<Longrightarrow> h \<in> dom (blk_list nd) \<Longrightarrow> \<not> block_mutable (listed_block nd h)"
  by (auto simp: node_works_def listed_block_def)

lemma broadcastMessage_works:
  assumes "device_works rt" and "node_works nd" and "h \<in> dom (blk_list nd)"
  shows "\<exists>nd'. broadcastMessage rt t (listed_block nd h) rnd nd = Inr nd' \<and> node_works nd' \<and> same_counts nd nd'
     \<and> send_this_round nd' = send_this_round nd"
proof -
  have "key_pair (private_key (my_next_key_pair nd)) (public_key (my_next_key_pair nd))" using assms(2) by (simp add: node_works_def)
  then obtain nd' where b: "broadcastMessage rt t (listed_block nd h) rnd nd = Inr nd'"
    using broadcastMessage_total [OF assms(1) listed_immutable [OF assms(2,3)]] by blast
  then show ?thesis
    using works_same [OF assms(2)] broadcastMessage_same [OF b] broadcast_keys [OF b] by (intro exI [of _ nd']) auto
qed

lemma send_ready_works:
  assumes "device_works rt" and "node_works nd" and "h \<in> dom (blk_list nd)"
  shows "\<exists>nd'. send_ready rt h rnd nd = Inr nd' \<and> node_works nd' \<and> same_counts nd nd'"
proof -
  obtain nd' where "broadcastMessage rt READY (listed_block nd h) rnd nd = Inr nd'" "node_works nd'" "same_counts nd nd'"
    using broadcastMessage_works [OF assms] by blast
  then show ?thesis by (auto simp: send_ready_def node_works_def same_counts_def)
qed

lemma maybe_ready_works:
  assumes "device_works rt" and "node_works nd" and "h \<in> dom (blk_list nd)"
  shows "\<exists>nd'. (if c then send_ready rt h rnd nd else Inr nd) = Inr nd' \<and> node_works nd' \<and> same_counts nd nd'"
  using send_ready_works [OF assms, of rnd] assms(2) by (cases c) auto

lemma echo_rounds_works:
  assumes "device_works rt" and "node_works nd" and "fst ` set hks \<subseteq> dom (blk_list nd)"
  shows "\<exists>nd'. rfold (echo_round rt) hks nd = Inr nd' \<and> node_works nd' \<and> same_counts nd nd'"
  using assms(2,3)
proof (induction hks arbitrary: nd)
  case (Cons hk hks)
  have d: "fst hk \<in> dom (blk_list nd)" using Cons.prems(2) by auto
  have "\<exists>nd1. echo_round rt hk nd = Inr nd1 \<and> node_works nd1 \<and> same_counts nd nd1"
    unfolding echo_round_def case_prod_beta by (rule maybe_ready_works [OF assms(1) Cons.prems(1) d])
  then obtain nd1 where e: "echo_round rt hk nd = Inr nd1" "node_works nd1" "same_counts nd nd1" by blast
  then have "fst ` set hks \<subseteq> dom (blk_list nd1)" using Cons.prems(2) by (simp add: same_counts_def)
  from Cons.IH [OF e(2) this] obtain nd2 where "rfold (echo_round rt) hks nd1 = Inr nd2" "node_works nd2" "same_counts nd1 nd2" by blast
  then show ?case using e same_counts_trans [OF e(3)] by simp
qed simp

lemma ready_loop_works:
  assumes "device_works rt" and "node_works nd" and "fst ` set hks \<subseteq> dom (blk_list nd)" and "\<And>h. rt_freed rt h = Inr h"
  shows "\<exists>nd'. ready_loop rt hks nd = Inr nd'"
  using assms(2,3)
proof (induction hks arbitrary: nd)
  case (Cons hk hks)
  obtain h k where hk: "hk = (h, k)" by (cases hk)
  have "h \<in> dom (blk_list nd)" using Cons.prems(2) hk by auto
  from maybe_ready_works [OF assms(1) Cons.prems(1) this] obtain nd1 where
    r: "(if ready_quorum (num_faulty nd) (unat k) \<and> h \<notin> ready_sent nd then send_ready rt h 3 nd else Inr nd) = Inr nd1"
      "node_works nd1" "same_counts nd nd1" by blast
  then have "fst ` set hks \<subseteq> dom (blk_list nd1)" using Cons.prems(2) by (simp add: same_counts_def)
  from Cons.IH [OF r(2) this] show ?case using r hk assms(4) by (auto simp: deliver_def)
qed simp

lemma broadcastRound_works:
  assumes "device_works rt" and "node_works nd" and "\<And>l. set (rt_order rt l) = set l" and "\<And>h. rt_freed rt h = Inr h"
  shows "\<exists>nd'. broadcastRound rt nd = Inr nd'"
proof -
  let ?nd = "nd\<lparr>should_broadcast := True\<rparr>"
  have w: "node_works ?nd" using assms(2) by (simp add: node_works_def)
  obtain nd1 where s: "(if send_this_round ?nd \<noteq> []
            then rbind (broadcastMessage rt ECHO (listed_block ?nd (send_this_round ?nd)) 1 ?nd)
                   (\<lambda>nd. Inr (nd\<lparr>send_this_round := []\<rparr>)) else Inr ?nd) = Inr nd1" and w1: "node_works nd1"
  proof (cases "send_this_round nd = []")
    case True
    then show ?thesis using that [of ?nd] w by simp
  next
    case False
    then have "send_this_round ?nd \<in> dom (blk_list ?nd)" using assms(2) by (auto simp: node_works_def)
    from broadcastMessage_works [OF assms(1) w this, of ECHO 1] obtain nd2 where
      "broadcastMessage rt ECHO (listed_block ?nd (send_this_round ?nd)) 1 ?nd = Inr nd2" "node_works nd2" by blast
    then show ?thesis using that [of "nd2\<lparr>send_this_round := []\<rparr>"] False by (simp add: node_works_def)
  qed
  obtain nd2 where e: "rfold (echo_round rt) (rt_order rt (echo_this_round nd1)) nd1 = Inr nd2" "node_works nd2" "same_counts nd1 nd2"
    using echo_rounds_works [OF assms(1) w1, of "rt_order rt (echo_this_round nd1)"] assms(3) w1 by (auto simp: node_works_def)
  obtain nd' where "ready_loop rt (rt_order rt (ready_this_round nd2)) nd2 = Inr nd'"
    using ready_loop_works [OF assms(1) e(2), of "rt_order rt (ready_this_round nd2)"] assms(3,4) e(2) by (auto simp: node_works_def)
  then show ?thesis using s e(1) unfolding broadcastRound_def Let_def by auto
qed

lemma broadcastRound_result:
  assumes "broadcastRound rt nd = Inr nd'" and "\<And>l. set (rt_order rt l) = set l"
  shows "ready_sent nd' \<subseteq> ready_sent nd
      \<union> {h. \<exists>k. (h, k) \<in> set (echo_this_round nd) \<and> echo_quorum (num_nodes nd) (num_faulty nd) (unat k)}
      \<union> {h. \<exists>k. (h, k) \<in> set (ready_this_round nd) \<and> ready_quorum (num_faulty nd) (unat k)}"
    and "if \<exists>(h, k) \<in> set (ready_this_round nd). delivery_quorum (num_faulty nd) (unat k)
      then \<not> should_broadcast nd' \<and> (\<exists>k h'. (voted_hash nd', k) \<in> set (ready_this_round nd) \<and> delivery_quorum (num_faulty nd) (unat k)
             \<and> rt_freed rt (voted_hash nd') = Inr h' \<and> accepted_blocks nd' = accepted_blocks nd @ [h'])
      else should_broadcast nd' \<and> accepted_blocks nd' = accepted_blocks nd \<and> voted_hash nd' = voted_hash nd"
proof -
  obtain nd1 nd2 where p: "same_counts (nd\<lparr>should_broadcast := True\<rparr>) nd1" "ready_sent nd1 = ready_sent nd"
    "rfold (echo_round rt) (rt_order rt (echo_this_round nd)) nd1 = Inr nd2"
    "ready_loop rt (rt_order rt (ready_this_round nd2)) nd2 = Inr nd'"
    using broadcastRound_parts [OF assms(1)] by metis
  have e: "same_counts nd1 nd2" "ready_sent nd2 = ready_sent nd1
     \<union> {h. \<exists>k. (h, k) \<in> set (echo_this_round nd) \<and> echo_quorum (num_nodes nd1) (num_faulty nd1) (unat k)}"
    using echo_rounds_same [OF p(3)] assms(2) by auto
  have c: "num_faulty nd1 = num_faulty nd" "num_nodes nd1 = num_nodes nd" "num_faulty nd2 = num_faulty nd"
    "ready_this_round nd2 = ready_this_round nd" "accepted_blocks nd2 = accepted_blocks nd" "should_broadcast nd2" "voted_hash nd2 = voted_hash nd"
    using p(1) e(1) by (simp_all add: same_counts_def)
  note r = ready_loop_same [OF p(4), unfolded assms(2) c]
  show "ready_sent nd' \<subseteq> ready_sent nd
      \<union> {h. \<exists>k. (h, k) \<in> set (echo_this_round nd) \<and> echo_quorum (num_nodes nd) (num_faulty nd) (unat k)}
      \<union> {h. \<exists>k. (h, k) \<in> set (ready_this_round nd) \<and> ready_quorum (num_faulty nd) (unat k)}"
    using r e(2) p(2) c by auto
  show "if \<exists>(h, k) \<in> set (ready_this_round nd). delivery_quorum (num_faulty nd) (unat k)
      then \<not> should_broadcast nd' \<and> (\<exists>k h'. (voted_hash nd', k) \<in> set (ready_this_round nd) \<and> delivery_quorum (num_faulty nd) (unat k)
             \<and> rt_freed rt (voted_hash nd') = Inr h' \<and> accepted_blocks nd' = accepted_blocks nd @ [h'])
      else should_broadcast nd' \<and> accepted_blocks nd' = accepted_blocks nd \<and> voted_hash nd' = voted_hash nd"
    using r c by (simp split: if_splits)
qed

lemma count_message_fields [simp]:
  "val_sig_keys (count_message t h nd) = val_sig_keys nd" "verified_blocks (count_message t h nd) = verified_blocks nd"
  "node_id (count_message t h nd) = node_id nd" "num_nodes (count_message t h nd) = num_nodes nd" "num_faulty (count_message t h nd) = num_faulty nd"
  "ready_sent (count_message t h nd) = ready_sent nd" "my_next_key_pair (count_message t h nd) = my_next_key_pair nd"
  "node_utxolist (count_message t h nd) = node_utxolist nd" "node_wallet_ids (count_message t h nd) = node_wallet_ids nd"
  "accepted_blocks (count_message t h nd) = accepted_blocks nd" "outbox (count_message t h nd) = outbox nd"
  "blk_list (count_message t h nd) = blk_list nd"
  "send_this_round (count_message t h nd) = (if t = SEND then h else send_this_round nd)"
  "echo_this_round (count_message t h nd) = (if t = ECHO then count_up h (echo_this_round nd) else echo_this_round nd)"
  "ready_this_round (count_message t h nd) = (if t = READY then count_up h (ready_this_round nd) else ready_this_round nd)"
  by (simp_all add: count_message_def split: MsgType.split)

lemma save_block_fields [simp]:
  "val_sig_keys (save_block b r nd) = val_sig_keys nd" "verified_blocks (save_block b r nd) = verified_blocks nd"
  "node_id (save_block b r nd) = node_id nd" "num_nodes (save_block b r nd) = num_nodes nd" "num_faulty (save_block b r nd) = num_faulty nd"
  "ready_sent (save_block b r nd) = ready_sent nd" "my_next_key_pair (save_block b r nd) = my_next_key_pair nd"
  "node_utxolist (save_block b r nd) = node_utxolist nd" "node_wallet_ids (save_block b r nd) = node_wallet_ids nd"
  "accepted_blocks (save_block b r nd) = accepted_blocks nd" "outbox (save_block b r nd) = outbox nd"
  "blk_list (save_block b r nd) = (case blk_list nd (block_hash b) of
      None \<Rightarrow> (blk_list nd)(block_hash b \<mapsto> b) | Some _ \<Rightarrow> blk_list nd)"
  "send_this_round (save_block b r nd) = send_this_round nd" "echo_this_round (save_block b r nd) = echo_this_round nd"
  "ready_this_round (save_block b r nd) = ready_this_round nd"
  by (simp_all add: save_block_def Let_def)

lemma updateRecv_keeps:
  "updateRecvMessages ms nd = Inr nd' \<Longrightarrow> node_utxolist nd' = node_utxolist nd \<and> accepted_blocks nd' = accepted_blocks nd"
  unfolding updateRecvMessages_def
  by (erule rfold_Inr_induct [where P = "\<lambda>n. node_utxolist n = node_utxolist nd \<and> accepted_blocks n = accepted_blocks nd"])
    (auto simp: recv_message_def Let_def split: if_splits dest!: checkBlockSig_Inr)

lemma protocol_loop_append:
  "protocol_loop rt (batches @ later) nd = rbind (protocol_loop rt batches nd) (protocol_loop rt later)"
proof (induction batches arbitrary: nd)
  case (Cons ms batches)
  have "protocol_loop rt later nd = Inr nd" if "\<not> should_broadcast nd" using that by (cases later) simp_all
  moreover have "rbind (broadcastRound rt n) (protocol_loop rt (batches @ later))
      = rbind (rbind (broadcastRound rt n) (protocol_loop rt batches)) (protocol_loop rt later)" for n
    by (cases "broadcastRound rt n") (simp_all add: Cons)
  ultimately show ?case by (cases "updateRecvMessages ms nd") simp_all
qed simp

lemma protocol_loop_accepts:
  assumes "protocol_loop rt batches nd = Inr nd'" and "\<And>l. set (rt_order rt l) = set l" and "should_broadcast nd"
  shows "if should_broadcast nd' then accepted_blocks nd' = accepted_blocks nd else \<exists>h. accepted_blocks nd' = accepted_blocks nd @ [h]"
  using assms(1,3)
proof (induction batches arbitrary: nd)
  case (Cons ms batches)
  then obtain nd1 nd2 where u: "updateRecvMessages ms nd = Inr nd1" and b: "broadcastRound rt nd1 = Inr nd2" and l: "protocol_loop rt batches nd2 = Inr nd'"
    by auto
  have acc: "accepted_blocks nd1 = accepted_blocks nd" using updateRecv_keeps [OF u] by simp
  note r = broadcastRound_result(2) [OF b assms(2)]
  show ?case
  proof (cases "should_broadcast nd2")
    case True
    then have "accepted_blocks nd2 = accepted_blocks nd" using r acc by (auto split: if_splits)
    then show ?thesis using Cons.IH [OF l True] by (simp split: if_splits)
  next
    case False
    then have "nd' = nd2" using l by (cases batches) simp_all
    then show ?thesis using False r acc by (auto split: if_splits)
  qed
qed simp

section \<open>Keys\<close>

lemma key_storable_print: "key_storable key \<Longrightarrow> \<exists>str. print_SigKey key = Inr str"
proof -
  assume "key_storable key"
  then have "length (S0 key) = KEY_LEN" "length (S1 key) = KEY_LEN" by (simp_all add: key_storable_def key_complete_def)
  moreover obtain n where "KEY_LEN = Suc n" by (simp add: KEY_LEN_def)
  ultimately obtain a as b bs where "S0 key = a # as" "S1 key = b # bs" by (metis Suc_length_conv)
  then show ?thesis by (simp add: print_SigKey_def)
qed

lemma checkBlockSig_accepts:
  assumes "verifySignature b key = Inr True" and "val_sig_keys nd (validator_id b) = Some key" and "key_complete key"
    and "key_storable (validator_next_public_key b)"
  shows "checkBlockSig b nd = Inr (True, nd\<lparr>val_sig_keys := (val_sig_keys nd)(validator_id b \<mapsto> validator_next_public_key b)\<rparr>)"
proof -
  obtain n where n: "KEY_LEN = Suc n" by (simp add: KEY_LEN_def)
  obtain str where "print_SigKey key = Inr str"
    using assms(3) n unfolding key_complete_def print_SigKey_def by (cases "S0 key"; cases "S1 key") auto
  moreover obtain str' where "print_SigKey (validator_next_public_key b) = Inr str'" using key_storable_print [OF assms(4)] by blast
  ultimately show ?thesis using assms(1,2) by (auto simp: verifySignature_def checkBlockSig_def Let_def)
qed

lemma Block_sign_fields: "Block_sign key vid next_key b = (b', Inr ()) \<Longrightarrow> validator_id b' = vid \<and> validator_next_public_key b' = next_key"
  by (auto simp: Block_sign_def Let_def split: if_splits sum.splits)

lemma signBlock_chain:
  assumes "signBlock rt b nd = Inr (b', nd')" and "key_pair (private_key (my_next_key_pair nd)) (public_key (my_next_key_pair nd))"
  shows "verifySignature b' (public_key (my_next_key_pair nd)) = Inr True \<and> validator_id b' = node_id nd
    \<and> validator_next_public_key b' = public_key (my_next_key_pair nd')
    \<and> key_pair (private_key (my_next_key_pair nd')) (public_key (my_next_key_pair nd'))"
proof -
  obtain kp where kp: "key_pair (private_key kp) (public_key kp)" "my_next_key_pair nd' = kp"
    and s: "Block_sign (private_key (my_next_key_pair nd)) (node_id nd) (public_key kp) b = (b', Inr ())"
    using signBlock_Inr [OF assms(1)] by auto
  have "verifySignature b' (public_key (my_next_key_pair nd)) = Inr True"
    using Block_sign_verifies [OF _ assms(2), of b "public_key kp" "node_id nd"] Block_sign_Inr [OF s] s
      key_pair_public [OF kp(1)] key_storable_writable by auto
  then show ?thesis using Block_sign_fields [OF s] kp by simp
qed

section \<open>Example\<close>

definition demo_runtime :: runtime where
  "demo_runtime = \<lparr>rt_random = \<lparr>open_ok = \<lambda>_. True, read_byte = \<lambda>_. Some CHR ''k''\<rparr>, rt_order = (\<lambda>l. l), rt_freed = Inr\<rparr>"

text \<open>A node among four, one of them faulty, that holds one block and has counted \<open>k\<close> READY messages for it.\<close>

definition demo_node :: "u64 \<Rightarrow> Node" where
  "demo_node k = \<lparr>node_id = 2, node_port = 80, is_lead = False, is_faulty = False, num_nodes = 4, num_faulty = 1,
     blk_list = [block_hash demo_block \<mapsto> demo_block], send_this_round = [],
     ready_this_round = [(block_hash demo_block, k)], echo_this_round = [], ready_sent = {},
     node_utxolist = [], node_wallet_ids = [], voted_hash = [], should_broadcast = True,
     my_current_private_key = no_key, my_current_public_key = no_key,
     my_next_key_pair = \<lparr>public_key = demo_public, private_key = demo_private\<rparr>, val_sig_keys = Map.empty,
     verified_blocks = {}, node_blocks = Map.empty, accepted_blocks = [], outbox = [], random_calls = 0\<rparr>"

lemma demo_runtime_simps [simp]:
  "device_works demo_runtime" "rt_order demo_runtime l = l" "rt_freed demo_runtime h = Inr h"
  by (simp_all add: demo_runtime_def device_works_def)

lemma demo_node_works: "node_works (demo_node k)"
  using demo_key_pair by (auto simp: demo_node_def node_works_def)

section \<open>Properties of the broadcast\<close>

text \<open>
  C7. A node sends READY at most once for every block: in every state reached from the constructor by
  any interleaving of received messages, rounds, proposals and calls of the validator, the READY
  messages it has sent are for pairwise different blocks, and \<^verbatim>\<open>ready_sent_\<close> is exactly the set of
  these blocks. The blocks it keeps are stored under their own hashes.
\<close>

theorem node_ready_once:
  assumes "new_Node rt id0 settings lead = Inr nd0" and "(node_step rt)\<^sup>*\<^sup>* nd0 nd"
  shows "distinct (ready_hashes nd) \<and> set (ready_hashes nd) = ready_sent nd
       \<and> (\<forall>h b. blk_list nd h = Some b \<longrightarrow> block_hash b = h)"
proof -
  have "node_inv nd" using assms by (intro node.reachable_inv [OF _ assms(2)]) blast
  then show ?thesis by (simp add: node_inv_def)
qed

theorem node_ready_once_witness:
  "\<exists>nd0 nd. new_Node demo_runtime 2 (new_Settings [] 0 [] 0 0) False = Inr nd0 \<and> (node_step demo_runtime)\<^sup>*\<^sup>* nd0 nd
     \<and> distinct (ready_hashes nd) \<and> set (ready_hashes nd) = ready_sent nd"
proof -
  let ?kp = "\<lparr>public_key = no_key, private_key = no_key\<rparr>"
  obtain kp where "KeyGen (rt_random demo_runtime) 0 ?kp = (kp, Inr 1)"
    using KeyGen_total [of "rt_random demo_runtime" 0 ?kp] by (auto simp: demo_runtime_def)
  then obtain nd0 where n: "new_Node demo_runtime 2 (new_Settings [] 0 [] 0 0) False = Inr nd0"
    by (simp add: new_Node_def node_KeyGen_def getValidatorInfo_def validator_at_def new_Settings_def Let_def)
  moreover have "(node_step demo_runtime)\<^sup>*\<^sup>* nd0 (node_setUTXOlists [] [7] nd0)" by (rule r_into_rtranclp) (rule node_step.utxo)
  ultimately show ?thesis using node_ready_once [OF n] by blast
qed

text \<open>
  C8. A round acts on thresholds only: it adds a block to those READY was sent for only when its ECHO
  count reaches \<open>(n + f + 1) div 2\<close> or its READY count reaches \<open>f + 1\<close>; and it stops with a delivery
  exactly when some READY count exceeds \<open>2 * f + 1\<close>, the block voted for being one of those.
\<close>

theorem round_follows_thresholds:
  assumes "broadcastRound rt nd = Inr nd'" and "\<And>l. set (rt_order rt l) = set l"
  shows "(\<forall>h \<in> ready_sent nd' - ready_sent nd.
            (\<exists>k. (h, k) \<in> set (echo_this_round nd) \<and> unat k \<ge> (unat (num_nodes nd) + unat (num_faulty nd) + 1) div 2)
          \<or> (\<exists>k. (h, k) \<in> set (ready_this_round nd) \<and> unat k \<ge> unat (num_faulty nd) + 1))
    \<and> (should_broadcast nd' \<longleftrightarrow> (\<forall>(h, k) \<in> set (ready_this_round nd). unat k \<le> 2 * unat (num_faulty nd) + 1))
    \<and> (\<not> should_broadcast nd' \<longrightarrow> (\<exists>k. (voted_hash nd', k) \<in> set (ready_this_round nd) \<and> unat k > 2 * unat (num_faulty nd) + 1))"
proof -
  note r = broadcastRound_result [OF assms]
  have "\<forall>h \<in> ready_sent nd' - ready_sent nd.
            (\<exists>k. (h, k) \<in> set (echo_this_round nd) \<and> unat k \<ge> (unat (num_nodes nd) + unat (num_faulty nd) + 1) div 2)
          \<or> (\<exists>k. (h, k) \<in> set (ready_this_round nd) \<and> unat k \<ge> unat (num_faulty nd) + 1)"
    using r(1) unfolding echo_quorum_def ready_quorum_def by blast
  moreover have "should_broadcast nd' \<longleftrightarrow> (\<forall>(h, k) \<in> set (ready_this_round nd). unat k \<le> 2 * unat (num_faulty nd) + 1)"
    using r(2) unfolding delivery_quorum_def by (force simp: not_less split: if_splits)
  moreover have "\<not> should_broadcast nd' \<longrightarrow> (\<exists>k. (voted_hash nd', k) \<in> set (ready_this_round nd) \<and> unat k > 2 * unat (num_faulty nd) + 1)"
    using r(2) unfolding delivery_quorum_def by (auto split: if_splits)
  ultimately show ?thesis by blast
qed

theorem round_follows_thresholds_witness:
  "\<exists>nd'. broadcastRound demo_runtime (demo_node 3) = Inr nd' \<and> should_broadcast nd'"
proof -
  obtain nd' where b: "broadcastRound demo_runtime (demo_node 3) = Inr nd'"
    using broadcastRound_works [OF demo_runtime_simps(1) demo_node_works] by auto
  show ?thesis using round_follows_thresholds [OF b] b by (simp add: demo_node_def)
qed



text \<open>
  C35. The echo threshold and agreement: any two sets of nodes that reach it have more than \<open>f\<close> nodes in
  common, hence a correct one, exactly when \<open>n + f\<close> is odd. For even \<open>n + f\<close> (four nodes of which none
  is faulty, say) two different blocks can both reach the threshold without a correct node having
  sent ECHO for both.
\<close>

theorem echo_quorums_intersect_iff:
  assumes "unat f \<le> unat n"
  shows "(\<forall>A B. A \<subseteq> {..<unat n} \<and> B \<subseteq> {..<unat n} \<and> echo_quorum n f (card A) \<and> echo_quorum n f (card B)
            \<longrightarrow> unat f < card (A \<inter> B)) \<longleftrightarrow> odd (unat n + unat f)"
proof
  assume all: "\<forall>A B. A \<subseteq> {..<unat n} \<and> B \<subseteq> {..<unat n} \<and> echo_quorum n f (card A) \<and> echo_quorum n f (card B)
            \<longrightarrow> unat f < card (A \<inter> B)"
  show "odd (unat n + unat f)"
  proof
    assume "even (unat n + unat f)"
    then obtain m where m: "unat n + unat f = 2 * m" by (elim evenE)
    let ?A = "{..<m}" let ?B = "{unat n - m..<unat n}"
    have q: "m \<le> unat n" "(unat n + unat f + 1) div 2 = m" "m - (unat n - m) = unat f" using assms m by linarith+
    have "?A \<inter> ?B = {unat n - m..<m}" using q(1) by (auto intro: less_le_trans)
    then have "card (?A \<inter> ?B) = unat f" using q(3) by simp
    moreover have "unat f < card (?A \<inter> ?B)"
      by (rule all [rule_format]) (use q(1,2) in \<open>auto simp: echo_quorum_def\<close>)
    ultimately show False by simp
  qed
next
  assume "odd (unat n + unat f)"
  then obtain m where m: "unat n + unat f = 2 * m + 1" by (elim oddE)
  show "\<forall>A B. A \<subseteq> {..<unat n} \<and> B \<subseteq> {..<unat n} \<and> echo_quorum n f (card A) \<and> echo_quorum n f (card B)
            \<longrightarrow> unat f < card (A \<inter> B)"
  proof (intro allI impI, elim conjE)
    fix A B assume s: "A \<subseteq> {..<unat n}" "B \<subseteq> {..<unat n}" and q: "echo_quorum n f (card A)" "echo_quorum n f (card B)"
    have "card A + card B = card (A \<union> B) + card (A \<inter> B)"
      using s by (intro card_Un_Int) (auto intro: finite_subset)
    moreover have "card (A \<union> B) \<le> unat n" using s card_mono [of "{..<unat n}" "A \<union> B"] by auto
    moreover have "m + 1 \<le> card A" "m + 1 \<le> card B" using q m by (simp_all add: echo_quorum_def)
    ultimately show "unat f < card (A \<inter> B)" using m by linarith
  qed
qed

theorem echo_quorums_intersect_iff_witness:
  "\<not> (\<forall>A B. A \<subseteq> {..<4 :: nat} \<and> B \<subseteq> {..<4} \<and> echo_quorum 4 0 (card A) \<and> echo_quorum 4 0 (card B) \<longrightarrow> 0 < card (A \<inter> B))"
  using echo_quorums_intersect_iff [of 0 4] by simp

text \<open>
  The chain of one-time keys works between two nodes: when a node with a valid key pair signs a
  block, the assertion on its own signature holds, and a receiver that knows the key the node announced
  last accepts the block and learns the key that the next message will be signed with.
\<close>

theorem signature_chain_accepted:
  assumes "signBlock rt b nd = Inr (b', nd')" and "key_pair (private_key (my_next_key_pair nd)) (public_key (my_next_key_pair nd))"
    and "val_sig_keys r (node_id nd) = Some (public_key (my_next_key_pair nd))"
  shows "checkBlockSig b' r = Inr (True, r\<lparr>val_sig_keys := (val_sig_keys r)(node_id nd \<mapsto> public_key (my_next_key_pair nd'))\<rparr>)
       \<and> key_pair (private_key (my_next_key_pair nd')) (public_key (my_next_key_pair nd'))"
proof -
  note c = signBlock_chain [OF assms(1,2)]
  have "key_complete (public_key (my_next_key_pair nd))" using key_pair_complete [OF assms(2)] by simp
  moreover have "key_storable (validator_next_public_key b')" using c key_pair_public by metis
  ultimately show ?thesis using checkBlockSig_accepts [of b' _ r] c assms(3) by auto
qed

theorem signature_chain_accepted_witness:
  "\<exists>b' nd'. signBlock demo_runtime demo_block (demo_node 0) = Inr (b', nd')
     \<and> checkBlockSig b' ((demo_node 0)\<lparr>val_sig_keys := [2 \<mapsto> demo_public]\<rparr>)
       = Inr (True, (demo_node 0)\<lparr>val_sig_keys := [2 \<mapsto> public_key (my_next_key_pair nd')]\<rparr>)"
proof -
  have k: "key_pair (private_key (my_next_key_pair (demo_node 0))) (public_key (my_next_key_pair (demo_node 0)))"
    using demo_key_pair by (simp add: demo_node_def)
  obtain b' nd' where s: "signBlock demo_runtime demo_block (demo_node 0) = Inr (b', nd')"
    using signBlock_total [OF demo_runtime_simps(1) demo_block_mutable(1) k] by blast
  have "node_id (demo_node 0) = 2" "public_key (my_next_key_pair (demo_node 0)) = demo_public" by (simp_all add: demo_node_def)
  then show ?thesis using signature_chain_accepted [OF s k, of "(demo_node 0)\<lparr>val_sig_keys := [2 \<mapsto> demo_public]\<rparr>"] s by auto
qed

text \<open>
  A rejected message still replaces the key: whatever the verdict on a first block was, and
  whatever key was stored for its validator before, a second block signed with the key that the first
  one announced is accepted as coming from that validator.
\<close>

theorem rejected_block_installs_key:
  assumes "checkBlockSig b nd = Inr (valid, nd1)" and "key_pair priv (validator_next_public_key b)"
    and "Block_sign priv (validator_id b) next_key c = (c', Inr ())" and "key_storable next_key"
  shows "\<exists>nd2. checkBlockSig c' nd1 = Inr (True, nd2)"
proof -
  have nd1: "val_sig_keys nd1 (validator_id b) = Some (validator_next_public_key b)"
    using checkBlockSig_Inr [OF assms(1)] by simp
  have f: "validator_id c' = validator_id b" "validator_next_public_key c' = next_key" using Block_sign_fields [OF assms(3)] by simp_all
  have "verifySignature c' (validator_next_public_key b) = Inr True"
    using Block_sign_verifies [OF _ assms(2) key_storable_writable [OF assms(4)], of c "validator_id b"]
      Block_sign_Inr [OF assms(3)] assms(3) by auto
  then show ?thesis
    using checkBlockSig_accepts [of c' "validator_next_public_key b" nd1] nd1 f assms(4) key_pair_complete [OF assms(2)] by simp
qed

theorem rejected_block_installs_key_witness:
  "\<exists>nd1 c' nd2. checkBlockSig demo_block ((demo_node 0)\<lparr>val_sig_keys := [0 \<mapsto> demo_private]\<rparr>) = Inr (False, nd1)
     \<and> Block_sign demo_private 0 demo_public demo_block = (c', Inr ()) \<and> checkBlockSig c' nd1 = Inr (True, nd2)"
proof -
  have d: "validator_id demo_block = 0" "validator_next_public_key demo_block = demo_public" "validator_sig demo_block = []"
    by (simp_all add: demo_block_def new_Block_def)
  obtain dg where "Block_getDigest demo_block = Inr dg"
    using Block_getDigest_total [OF demo_block_mutable(1)] key_storable_writable [OF demo_public_storable] d by auto
  moreover have "Verify m [] demo_private = Inr (- 1)" for m by (simp add: Verify_eq KEY_LEN_def)
  moreover obtain str where "print_SigKey demo_public = Inr str" using key_storable_print [OF demo_public_storable] by blast
  moreover obtain str' where "print_SigKey demo_private = Inr str'"
    by (auto simp: print_SigKey_def demo_private_def KEY_LEN_def numeral_eq_Suc)
  ultimately obtain nd1 where c: "checkBlockSig demo_block ((demo_node 0)\<lparr>val_sig_keys := [0 \<mapsto> demo_private]\<rparr>) = Inr (False, nd1)"
    by (simp add: checkBlockSig_def d Let_def)
  obtain c' where s: "Block_sign demo_private (validator_id demo_block) demo_public demo_block = (c', Inr ())"
    using Block_sign_verifies [OF demo_block_mutable(1) demo_key_pair key_storable_writable [OF demo_public_storable]] d by metis
  have "\<exists>nd2. checkBlockSig c' nd1 = Inr (True, nd2)"
    by (rule rejected_block_installs_key [OF c _ s demo_public_storable]) (simp add: d demo_key_pair)
  then show ?thesis using c s d by auto
qed

text \<open>
  C13. The protocol ends with its first delivery: as long as \<^verbatim>\<open>RunProtocol\<close> runs it has accepted nothing; when it
  has ended it has accepted exactly one more block, and messages that arrive later are not read any
  more. The program starts it once (\<^verbatim>\<open>ConsensusProcess\<close>), so a validator agrees on one block in its life.
\<close>

theorem protocol_ends_with_first_delivery:
  assumes "RunProtocol rt True batches nd = Inr nd'" and "\<And>l. set (rt_order rt l) = set l"
  shows "if should_broadcast nd' then accepted_blocks nd' = accepted_blocks nd
     else (\<exists>h. accepted_blocks nd' = accepted_blocks nd @ [h]) \<and> (\<forall>later. RunProtocol rt True (batches @ later) nd = Inr nd')"
proof -
  have "protocol_loop rt later nd' = Inr nd'" if "\<not> should_broadcast nd'" for later using that by (cases later) simp_all
  then show ?thesis
    using assms(1) protocol_loop_accepts [OF assms(1) [unfolded RunProtocol_def] assms(2)]
    by (auto simp: RunProtocol_def protocol_loop_append)
qed

theorem protocol_ends_with_first_delivery_witness:
  "\<exists>nd'. RunProtocol demo_runtime True [[]] (demo_node 4) = Inr nd' \<and> accepted_blocks nd' = [block_hash demo_block]
     \<and> RunProtocol demo_runtime True [[], [], []] (demo_node 4) = Inr nd'"
proof -
  let ?nd = "(demo_node 4)\<lparr>should_broadcast := True, send_this_round := []\<rparr>"
  have w: "node_works ?nd" using demo_node_works [of 4] by (simp add: node_works_def)
  then obtain nd' where b: "broadcastRound demo_runtime ?nd = Inr nd'" using broadcastRound_works [OF demo_runtime_simps(1) w] by auto
  have r: "\<not> should_broadcast nd' \<and> accepted_blocks nd' = [block_hash demo_block]"
    using broadcastRound_result(2) [OF b] by (auto simp: demo_node_def delivery_quorum_def)
  have p: "RunProtocol demo_runtime True [[]] (demo_node 4) = Inr nd'" using b by (simp add: RunProtocol_def updateRecvMessages_def)
  show ?thesis using protocol_ends_with_first_delivery [OF p] p r by auto
qed

text \<open>
  The signature stored with a block carries the wrong key: the one the signer announced for its next
  message, which replaced the key the signature was checked with just before.
\<close>

lemma saved_signature_has_next_key:
  assumes "checkBlockSig b nd = Inr (True, nd1)"
  shows "\<exists>b' sig. node_blocks (save_block b rnd nd1) (block_hash b) = Some b' \<and> last (validatorSigs b') = sig
    \<and> bs_signature sig = validator_sig b \<and> bs_public_key sig = validator_next_public_key b"
  using checkBlockSig_Inr [OF assms] by (simp add: save_block_def Let_def addValidatorSignature_def)

end
