(* ===== verification/Network.thy ===== *)
theory Network
  imports Consensus "HOL-Library.Multiset"
begin

text \<open>
  Several nodes together. A message is sent as a protocol buffer and read back by the receiver; in a
  round every node reads the messages of the round before, in an order of its own, and answers. The
  lemmas follow one block through the three rounds of the reliable broadcast: what a node knows
  about the keys of the others stays one message behind, the counters reach the number of nodes,
  and every node delivers. The last section shows that the counters count messages, not senders.
\<close>

section \<open>Transport and turns\<close>

text \<open>A message between two nodes: the client writes it, the server of the receiver reads it.\<close>

definition transmit :: "Message \<Rightarrow> Message res" where
  "transmit m = rbind (toProtoMessage m) Message_of_proto"

text \<open>The body of the loop of \<^verbatim>\<open>RunProtocol\<close>.\<close>

definition node_turn :: "runtime \<Rightarrow> Message list \<Rightarrow> Node \<Rightarrow> Node res" where
  "node_turn rt msg_list nd = rbind (updateRecvMessages msg_list nd) (broadcastRound rt)"

section \<open>Receiving a message that is accepted\<close>

text \<open>The receiver knows no key of the sender, or the one the block is signed with.\<close>

definition trusts :: "Node \<Rightarrow> Message \<Rightarrow> bool" where
  "trusts r m \<longleftrightarrow> (case val_sig_keys r (validator_id (msg_block m)) of
     None \<Rightarrow> True | Some key \<Rightarrow> key_complete key \<and> verifySignature (msg_block m) key = Inr True)"

text \<open>A signed copy of a block.\<close>

definition same_block :: "Block \<Rightarrow> Block \<Rightarrow> bool" where
  "same_block b0 b \<longleftrightarrow> block_header b = block_header b0 \<and> txs b = txs b0 \<and> block_id b = block_id b0 \<and> \<not> block_mutable b"

definition good_msg :: "MsgType \<Rightarrow> Block \<Rightarrow> Message \<Rightarrow> bool" where
  "good_msg t b0 m \<longleftrightarrow> msg_type m = Some t \<and> same_block b0 (msg_block m) \<and> key_storable (validator_next_public_key (msg_block m))"

text \<open>The node has verified the block before, or it passes now.\<close>

definition admits :: "Block \<Rightarrow> Node \<Rightarrow> bool" where
  "admits b0 nd \<longleftrightarrow> block_hash b0 \<in> verified_blocks nd \<or> verify b0 (node_utxolist nd) (node_wallet_ids nd)"

lemma same_block_hash: "same_block b0 b \<Longrightarrow> block_hash b = block_hash b0"
  by (simp add: same_block_def block_hash_def)

lemma same_block_verify: "same_block b0 b \<Longrightarrow> verify b l ids = verify b0 l ids"
  by (simp add: same_block_def verify_def)

lemma checkBlockSig_trusted:
  assumes "trusts r m" and "good_msg t b0 m"
  shows "checkBlockSig (msg_block m) r = Inr (True, r\<lparr>val_sig_keys :=
    (val_sig_keys r)(validator_id (msg_block m) \<mapsto> validator_next_public_key (msg_block m))\<rparr>)"
proof (cases "val_sig_keys r (validator_id (msg_block m))")
  case None
  have k: "key_storable (validator_next_public_key (msg_block m))" "\<not> block_mutable (msg_block m)"
    using assms(2) by (simp_all add: good_msg_def same_block_def)
  obtain d str where "Block_getDigest (msg_block m) = Inr d" "print_SigKey (validator_next_public_key (msg_block m)) = Inr str"
    using Block_getDigest_total [OF k(2) key_storable_writable [OF k(1)]] key_storable_print [OF k(1)] by blast
  then show ?thesis using None by (simp add: checkBlockSig_def Let_def)
next
  case (Some key)
  then show ?thesis using assms checkBlockSig_accepts [OF _ Some] by (simp add: trusts_def good_msg_def)
qed

definition received :: "MsgType \<Rightarrow> Message \<Rightarrow> Node \<Rightarrow> Node" where
  "received t m nd = (let b = msg_block m; h = block_hash b in
     count_message t h (save_block b (getRound m) (nd\<lparr>val_sig_keys := (val_sig_keys nd)(validator_id b \<mapsto> validator_next_public_key b),
        verified_blocks := insert h (verified_blocks nd)\<rparr>)))"

lemma recv_message_good:
  assumes "trusts r m" and "good_msg t b0 m" and "admits b0 r"
  shows "recv_message m r = Inr (received t m r)"
proof -
  have "getType m = Inr t" using assms(2) by (simp add: good_msg_def getType_def)
  moreover have "same_block b0 (msg_block m)" using assms(2) by (simp add: good_msg_def)
  ultimately show ?thesis
    using assms(3) checkBlockSig_trusted [OF assms(1,2)] same_block_hash [of b0 "msg_block m"] same_block_verify [of b0 "msg_block m"]
    by (auto simp: recv_message_def received_def admits_def Let_def)
qed

lemma received_fields [simp]:
  "val_sig_keys (received t m nd) = (val_sig_keys nd)(validator_id (msg_block m) \<mapsto> validator_next_public_key (msg_block m))"
  "verified_blocks (received t m nd) = insert (block_hash (msg_block m)) (verified_blocks nd)"
  "node_id (received t m nd) = node_id nd" "num_nodes (received t m nd) = num_nodes nd" "num_faulty (received t m nd) = num_faulty nd"
  "ready_sent (received t m nd) = ready_sent nd" "my_next_key_pair (received t m nd) = my_next_key_pair nd"
  "node_utxolist (received t m nd) = node_utxolist nd" "node_wallet_ids (received t m nd) = node_wallet_ids nd"
  "accepted_blocks (received t m nd) = accepted_blocks nd" "outbox (received t m nd) = outbox nd"
  "blk_list (received t m nd) = (case blk_list nd (block_hash (msg_block m)) of
      None \<Rightarrow> (blk_list nd)(block_hash (msg_block m) \<mapsto> msg_block m) | Some _ \<Rightarrow> blk_list nd)"
  "send_this_round (received t m nd) = (if t = SEND then block_hash (msg_block m) else send_this_round nd)"
  "echo_this_round (received t m nd) = (if t = ECHO then count_up (block_hash (msg_block m)) (echo_this_round nd) else echo_this_round nd)"
  "ready_this_round (received t m nd) = (if t = READY then count_up (block_hash (msg_block m)) (ready_this_round nd) else ready_this_round nd)"
  by (simp_all add: received_def Let_def split: option.split)


section \<open>Receiving a batch\<close>

definition sender_of :: "Message \<Rightarrow> u16" where
  "sender_of m = validator_id (msg_block m)"

definition key_of :: "Message \<Rightarrow> SigKey" where
  "key_of m = validator_next_public_key (msg_block m)"

definition receive_all :: "MsgType \<Rightarrow> Message list \<Rightarrow> Node \<Rightarrow> Node" where
  "receive_all t ms nd = foldl (\<lambda>nd m. received t m nd) nd ms"

lemma receive_all_simps [simp]:
  "receive_all t [] nd = nd" "receive_all t (m # ms) nd = receive_all t ms (received t m nd)"
  by (simp_all add: receive_all_def)

lemma received_trusts: "sender_of m' \<noteq> sender_of m \<Longrightarrow> trusts (received t m r) m' = trusts r m'"
  by (simp add: trusts_def sender_of_def)

lemma received_admits: "good_msg t b0 m \<Longrightarrow> admits b0 (received t m r)"
  using same_block_hash [of b0 "msg_block m"] by (simp add: admits_def good_msg_def)

lemma rfold_recv_all:
  assumes "\<And>m. m \<in> set ms \<Longrightarrow> trusts r m \<and> good_msg t b0 m" and "distinct (map sender_of ms)" and "admits b0 r"
  shows "rfold recv_message ms r = Inr (receive_all t ms r)"
  using assms
proof (induction ms arbitrary: r)
  case (Cons m ms)
  have m: "trusts r m" "good_msg t b0 m" using Cons.prems(1) by simp_all
  have "trusts (received t m r) m' \<and> good_msg t b0 m'" if "m' \<in> set ms" for m'
    using Cons.prems(1) [of m'] Cons.prems(2) that received_trusts [of m' m t r] by (metis image_eqI list.set_intros(2) distinct.simps(2) list.simps(9) set_map)
  then show ?case
    using Cons.IH [of "received t m r"] Cons.prems(2) recv_message_good [OF m Cons.prems(3)] received_admits [OF m(2)] by simp
qed simp

lemma receive_all_frame [simp]:
  "node_id (receive_all t ms nd) = node_id nd" "num_nodes (receive_all t ms nd) = num_nodes nd" "num_faulty (receive_all t ms nd) = num_faulty nd"
  "ready_sent (receive_all t ms nd) = ready_sent nd" "my_next_key_pair (receive_all t ms nd) = my_next_key_pair nd"
  "accepted_blocks (receive_all t ms nd) = accepted_blocks nd" "outbox (receive_all t ms nd) = outbox nd"
  "t \<noteq> SEND \<Longrightarrow> send_this_round (receive_all t ms nd) = send_this_round nd"
  "t \<noteq> ECHO \<Longrightarrow> echo_this_round (receive_all t ms nd) = echo_this_round nd"
  "t \<noteq> READY \<Longrightarrow> ready_this_round (receive_all t ms nd) = ready_this_round nd"
  by (induction ms arbitrary: nd) simp_all


lemma receive_all_other_keys: "v \<notin> sender_of ` set ms \<Longrightarrow> val_sig_keys (receive_all t ms nd) v = val_sig_keys nd v"
  by (induction ms arbitrary: nd) (auto simp: sender_of_def)

lemma receive_all_new_keys:
  "distinct (map sender_of ms) \<Longrightarrow> m \<in> set ms \<Longrightarrow> val_sig_keys (receive_all t ms nd) (sender_of m) = Some (key_of m)"
proof (induction ms arbitrary: nd)
  case (Cons m' ms)
  show ?case
  proof (cases "m \<in> set ms")
    case False
    then have "m = m'" "sender_of m \<notin> sender_of ` set ms" using Cons.prems by auto
    then show ?thesis using receive_all_other_keys [of "sender_of m" ms t "received t m' nd"] by (simp add: sender_of_def key_of_def)
  qed (use Cons in simp)
qed simp

lemma receive_all_counts:
  assumes "\<And>m. m \<in> set ms \<Longrightarrow> good_msg t b0 m"
  shows "t = ECHO \<Longrightarrow> echo_this_round (receive_all t ms nd) = (count_up (block_hash b0) ^^ length ms) (echo_this_round nd)"
    and "t = READY \<Longrightarrow> ready_this_round (receive_all t ms nd) = (count_up (block_hash b0) ^^ length ms) (ready_this_round nd)"
    and "t = SEND \<Longrightarrow> ms \<noteq> [] \<Longrightarrow> send_this_round (receive_all t ms nd) = block_hash b0"
    and "ms \<noteq> [] \<Longrightarrow> block_hash b0 \<in> verified_blocks (receive_all t ms nd)"
proof -
  have h: "m \<in> set ms \<Longrightarrow> block_hash (msg_block m) = block_hash b0" for m
    using assms by (auto simp: good_msg_def same_block_hash)
  have p: "(count_up k ^^ n) (count_up k l) = count_up k ((count_up k ^^ n) l)" for k n l
    by (simp add: funpow_swap1)
  show "t = ECHO \<Longrightarrow> echo_this_round (receive_all t ms nd) = (count_up (block_hash b0) ^^ length ms) (echo_this_round nd)"
    using h by (induction ms arbitrary: nd) (simp_all add: p)
  show "t = READY \<Longrightarrow> ready_this_round (receive_all t ms nd) = (count_up (block_hash b0) ^^ length ms) (ready_this_round nd)"
    using h by (induction ms arbitrary: nd) (simp_all add: p)
  show "t = SEND \<Longrightarrow> ms \<noteq> [] \<Longrightarrow> send_this_round (receive_all t ms nd) = block_hash b0"
  proof -
    assume t: "t = SEND" and "ms \<noteq> []"
    have "send_this_round (receive_all t ms nd) = (if ms = [] then send_this_round nd else block_hash b0)"
      using h t by (induction ms arbitrary: nd) auto
    then show ?thesis using \<open>ms \<noteq> []\<close> by simp
  qed
  have "block_hash b0 \<in> verified_blocks (receive_all t ms nd) \<longleftrightarrow> ms \<noteq> [] \<or> block_hash b0 \<in> verified_blocks nd"
    using h by (induction ms arbitrary: nd) auto
  then show "ms \<noteq> [] \<Longrightarrow> block_hash b0 \<in> verified_blocks (receive_all t ms nd)" by simp
qed

lemma count_up_fresh: "0 < n \<Longrightarrow> (count_up h ^^ n) [] = [(h, of_nat n)]"
  by (induction n rule: nat_induct_non_zero) simp_all

definition holds_block :: "Block \<Rightarrow> Node \<Rightarrow> bool" where
  "holds_block b0 nd \<longleftrightarrow> same_block b0 (listed_block nd (block_hash b0))"

lemma received_holds:
  assumes "good_msg t b0 m" and "holds_block b0 nd \<or> blk_list nd (block_hash b0) = None"
  shows "holds_block b0 (received t m nd)"
proof -
  have "same_block b0 (msg_block m)" "block_hash (msg_block m) = block_hash b0"
    using assms(1) same_block_hash by (auto simp: good_msg_def)
  then show ?thesis
    using assms(2) by (cases "blk_list nd (block_hash b0)") (auto simp: holds_block_def listed_block_def)
qed

lemma receive_all_holds:
  assumes "\<And>m. m \<in> set ms \<Longrightarrow> good_msg t b0 m" and "holds_block b0 nd \<or> blk_list nd (block_hash b0) = None \<and> ms \<noteq> []"
  shows "holds_block b0 (receive_all t ms nd)"
  using assms
proof (induction ms arbitrary: nd)
  case (Cons m ms)
  then show ?case using received_holds [of t b0 m nd] by simp
qed simp

text \<open>The block kept for the storing thread under the hash of a block, if there is one, has its content.\<close>

definition keeps_block :: "Block \<Rightarrow> Node \<Rightarrow> bool" where
  "keeps_block b0 nd \<longleftrightarrow> (\<forall>b. node_blocks nd (block_hash b0) = Some b \<longrightarrow> same_block b0 b)"

lemma keeps_block_fields [simp]:
  "keeps_block b0 (nd\<lparr>send_this_round := s\<rparr>) = keeps_block b0 nd" "keeps_block b0 (nd\<lparr>ready_sent := r\<rparr>) = keeps_block b0 nd"
  by (simp_all add: keeps_block_def)

lemma keeps_block_cong: "node_blocks nd' = node_blocks nd \<Longrightarrow> keeps_block b0 nd' = keeps_block b0 nd"
  by (simp add: keeps_block_def)

lemma received_stores:
  "\<exists>sig. node_blocks (received t m nd) = (node_blocks nd)(block_hash (msg_block m) \<mapsto>
     addValidatorSignature sig (case node_blocks nd (block_hash (msg_block m)) of None \<Rightarrow> msg_block m | Some b \<Rightarrow> b))"
proof -
  have "node_blocks (count_message t h n) = node_blocks n" for h n by (cases t) (simp_all add: count_message_def)
  then show ?thesis unfolding received_def Let_def save_block_def by (intro exI) simp
qed

lemma received_keeps:
  assumes "good_msg t b0 m" and "keeps_block b0 nd"
  shows "keeps_block b0 (received t m nd) \<and> node_blocks (received t m nd) (block_hash b0) \<noteq> None"
proof -
  have m: "same_block b0 (msg_block m)" "block_hash (msg_block m) = block_hash b0" using assms(1) same_block_hash by (auto simp: good_msg_def)
  have "\<exists>sig. node_blocks (received t m nd) (block_hash b0) =
      Some (addValidatorSignature sig (case node_blocks nd (block_hash b0) of None \<Rightarrow> msg_block m | Some b \<Rightarrow> b))"
    using received_stores [of t m nd] unfolding m(2) by (metis fun_upd_same)
  moreover have "same_block b0 (addValidatorSignature sig b) = same_block b0 b" for sig b by (simp add: same_block_def addValidatorSignature_def)
  ultimately show ?thesis using m(1) assms(2) by (auto simp: keeps_block_def split: option.split)
qed

lemma receive_all_keeps:
  assumes "\<And>m. m \<in> set ms \<Longrightarrow> good_msg t b0 m" and "keeps_block b0 nd"
  shows "keeps_block b0 (receive_all t ms nd)" and "ms \<noteq> [] \<Longrightarrow> same_block b0 (getReceivedBlock (block_hash b0) (receive_all t ms nd))"
proof -
  let ?kept = "\<lambda>nd. node_blocks nd (block_hash b0) \<noteq> None"
  have "keeps_block b0 (receive_all t ms nd) \<and> (ms \<noteq> [] \<or> ?kept nd \<longrightarrow> ?kept (receive_all t ms nd))"
    using assms
  proof (induction ms arbitrary: nd)
    case (Cons m ms)
    then have "keeps_block b0 (received t m nd) \<and> ?kept (received t m nd)" using received_keeps [of t b0 m nd] by simp
    then show ?case using Cons.IH [of "received t m nd"] Cons.prems(1) by simp
  qed simp
  then show "keeps_block b0 (receive_all t ms nd)" and "ms \<noteq> [] \<Longrightarrow> same_block b0 (getReceivedBlock (block_hash b0) (receive_all t ms nd))"
    by (auto simp: keeps_block_def getReceivedBlock_def split: option.split)
qed

section \<open>Turns of a node\<close>

definition valid_pair :: "Node \<Rightarrow> bool" where
  "valid_pair nd \<longleftrightarrow> key_pair (private_key (my_next_key_pair nd)) (public_key (my_next_key_pair nd))"

definition next_key :: "Node \<Rightarrow> SigKey" where
  "next_key nd = public_key (my_next_key_pair nd)"

definition sends :: "MsgType \<Rightarrow> Block \<Rightarrow> Node \<Rightarrow> Message \<Rightarrow> Node \<Rightarrow> bool" where
  "sends t b0 nd m nd' \<longleftrightarrow> outbox nd' = outbox nd @ [m] \<and> good_msg t b0 m \<and> sender_of m = node_id nd
     \<and> key_of m = next_key nd' \<and> verifySignature (msg_block m) (next_key nd) = Inr True"

lemma broadcast_sends:
  assumes "device_works rt" and "valid_pair nd" and "same_block b0 b"
  shows "\<exists>nd' m. broadcastMessage rt t b rnd nd = Inr nd' \<and> sends t b0 nd m nd' \<and> valid_pair nd' \<and> same_counts nd nd'
     \<and> ready_sent nd' = ready_sent nd \<and> send_this_round nd' = send_this_round nd \<and> node_id nd' = node_id nd
     \<and> verified_blocks nd' = verified_blocks nd \<and> node_blocks nd' = node_blocks nd"
proof -
  have b: "\<not> block_mutable b" using assms(3) by (simp add: same_block_def)
  obtain b' nd1 where s: "signBlock rt b nd = Inr (b', nd1)"
    using signBlock_total [OF assms(1) b assms(2) [unfolded valid_pair_def]] by blast
  obtain kp where k: "nd1 = nd\<lparr>my_current_private_key := private_key (my_next_key_pair nd),
               my_current_public_key := public_key (my_next_key_pair nd), my_next_key_pair := kp,
               random_calls := random_calls nd + 2 * KEY_LEN\<rparr>"
    "key_pair (private_key kp) (public_key kp)" "Block_sign (private_key (my_next_key_pair nd)) (node_id nd) (public_key kp) b = (b', Inr ())"
    using signBlock_Inr [OF s] by blast
  have "same_block b0 b'" using Block_sign_keeps [OF k(3)] assms(3) by (simp add: same_block_def)
  then have "sends t b0 nd (new_Message t b' (ucast (node_id nd)) rnd) (nd1\<lparr>outbox := outbox nd1 @ [new_Message t b' (ucast (node_id nd1)) rnd]\<rparr>)"
    using signBlock_chain [OF s] assms(2) k(1) key_pair_public [OF k(2)]
    by (simp add: sends_def good_msg_def new_Message_def sender_of_def key_of_def next_key_def valid_pair_def)
  then show ?thesis
    using s k(1,2) by (intro exI [of _ "nd1\<lparr>outbox := outbox nd1 @ [new_Message t b' (ucast (node_id nd1)) rnd]\<rparr>"] exI)
      (auto simp: broadcastMessage_def valid_pair_def same_counts_def)
qed

definition runtime_ok :: "runtime \<Rightarrow> bool" where
  "runtime_ok rt \<longleftrightarrow> device_works rt \<and> (\<forall>l. mset (rt_order rt l) = mset l) \<and> (\<forall>h. rt_freed rt h = Inr h)"

lemma runtime_ok_order [simp]: "runtime_ok rt \<Longrightarrow> rt_order rt [] = []" "runtime_ok rt \<Longrightarrow> rt_order rt [x] = [x]"
  by (auto simp: runtime_ok_def) (metis mset_zero_iff mset.simps(1) mset_single_iff mset_single_iff_right)+

text \<open>What a node is like that waits for messages of a type about a block.\<close>

definition awaits :: "MsgType \<Rightarrow> Block \<Rightarrow> Node \<Rightarrow> bool" where
  "awaits t b0 nd \<longleftrightarrow> valid_pair nd \<and> admits b0 nd \<and> keeps_block b0 nd \<and> ready_this_round nd = [] \<and> (case t of
       SEND \<Rightarrow> blk_list nd (block_hash b0) = None \<and> echo_this_round nd = [] \<and> block_hash b0 \<notin> ready_sent nd
     | ECHO \<Rightarrow> holds_block b0 nd \<and> echo_this_round nd = [] \<and> block_hash b0 \<notin> ready_sent nd
     | READY \<Rightarrow> (\<exists>k. echo_this_round nd = [(block_hash b0, k)]) \<and> block_hash b0 \<in> ready_sent nd)"

lemma block_hash_not_Nil: "block_hash b \<noteq> []"
proof -
  have "length (block_hash b) = 64" by (simp add: block_hash_def Header_getID_def)
  then show ?thesis by auto
qed

lemma updateRecv_all:
  assumes "\<And>m. m \<in> set ms \<Longrightarrow> trusts nd m \<and> good_msg t b0 m" and "distinct (map sender_of ms)" and "admits b0 nd"
  shows "updateRecvMessages ms nd = Inr (receive_all t ms (nd\<lparr>send_this_round := []\<rparr>))"
  using rfold_recv_all [of ms "nd\<lparr>send_this_round := []\<rparr>" t b0] assms by (simp add: updateRecvMessages_def trusts_def admits_def)

lemma turn_send:
  assumes "runtime_ok rt" and "awaits SEND b0 nd" and "\<And>m. m \<in> set ms \<Longrightarrow> trusts nd m \<and> good_msg SEND b0 m"
    and "distinct (map sender_of ms)" and "ms \<noteq> []"
  shows "\<exists>nd' m. node_turn rt ms nd = Inr nd' \<and> sends ECHO b0 nd m nd' \<and> awaits ECHO b0 nd'
     \<and> val_sig_keys nd' = val_sig_keys (receive_all SEND ms (nd\<lparr>send_this_round := []\<rparr>))
     \<and> node_id nd' = node_id nd \<and> num_nodes nd' = num_nodes nd \<and> num_faulty nd' = num_faulty nd \<and> accepted_blocks nd' = accepted_blocks nd"
proof -
  let ?nd = "receive_all SEND ms (nd\<lparr>send_this_round := []\<rparr>)" let ?n = "?nd\<lparr>should_broadcast := True\<rparr>"
  have g: "good_msg SEND b0 m" if "m \<in> set ms" for m using assms(3) that by blast
  have u: "updateRecvMessages ms nd = Inr ?nd"
    using updateRecv_all [OF assms(3,4)] assms(2) by (simp add: awaits_def)
  have f: "send_this_round ?nd = block_hash b0" "block_hash b0 \<in> verified_blocks ?nd"
    using receive_all_counts(3,4) [OF g] assms(5) by auto
  have h: "holds_block b0 ?nd" using receive_all_holds [OF g, where nd = "nd\<lparr>send_this_round := []\<rparr>"] assms(2,5) by (simp add: awaits_def)
  then have s: "same_block b0 (listed_block ?n (block_hash b0))" by (simp add: holds_block_def listed_block_def)
  have d: "device_works rt" and v: "valid_pair ?n" using assms(1,2) by (simp_all add: runtime_ok_def awaits_def valid_pair_def)
  obtain nd1 m where b: "broadcastMessage rt ECHO (listed_block ?n (block_hash b0)) 1 ?n = Inr nd1"
    "sends ECHO b0 ?n m nd1" "valid_pair nd1" "same_counts ?n nd1" "ready_sent nd1 = ready_sent ?n" "node_id nd1 = node_id ?n"
    "verified_blocks nd1 = verified_blocks ?n" "node_blocks nd1 = node_blocks ?n"
    using broadcast_sends [OF d v s, of ECHO 1] by (elim exE conjE) (rule that)
  have "keeps_block b0 (nd\<lparr>send_this_round := []\<rparr>)" using assms(2) by (simp add: awaits_def)
  from receive_all_keeps(1) [OF g this] have kb: "keeps_block b0 nd1" using b(8) by (subst keeps_block_cong [of nd1 ?nd]) simp_all
  let ?nd' = "nd1\<lparr>send_this_round := []\<rparr>"
  have c: "echo_this_round nd1 = []" "ready_this_round nd1 = []" "blk_list nd1 = blk_list ?nd" "num_nodes nd1 = num_nodes nd"
    "num_faulty nd1 = num_faulty nd" "accepted_blocks nd1 = accepted_blocks nd" "val_sig_keys nd1 = val_sig_keys ?nd"
    using b(4) assms(2) by (simp_all add: same_counts_def awaits_def)
  then have "node_turn rt ms nd = Inr ?nd'"
    using u f(1) b(1) assms(1) block_hash_not_Nil [of b0] by (simp add: node_turn_def broadcastRound_def Let_def)
  moreover have "sends ECHO b0 nd m ?nd'" using b(2) by (simp add: sends_def next_key_def)
  moreover have "awaits ECHO b0 ?nd'"
    using c b(3,5,7) f(2) h kb assms(2) by (simp add: awaits_def valid_pair_def admits_def holds_block_def listed_block_def)
  ultimately show ?thesis using c b(6) by (intro exI [of _ ?nd'] exI [of _ m]) simp
qed

lemma unat_count: "n < 2 ^ 64 \<Longrightarrow> unat (of_nat n :: u64) = n"
  by (simp add: unat_of_nat take_bit_nat_eq_self)

lemma turn_echo:
  assumes "runtime_ok rt" and "awaits ECHO b0 nd" and "\<And>m. m \<in> set ms \<Longrightarrow> trusts nd m \<and> good_msg ECHO b0 m"
    and "distinct (map sender_of ms)" and "ms \<noteq> []" and "length ms < 2 ^ 64" and "echo_quorum (num_nodes nd) (num_faulty nd) (length ms)"
  shows "\<exists>nd' m. node_turn rt ms nd = Inr nd' \<and> sends READY b0 nd m nd' \<and> awaits READY b0 nd'
     \<and> val_sig_keys nd' = val_sig_keys (receive_all ECHO ms (nd\<lparr>send_this_round := []\<rparr>))
     \<and> node_id nd' = node_id nd \<and> num_nodes nd' = num_nodes nd \<and> num_faulty nd' = num_faulty nd \<and> accepted_blocks nd' = accepted_blocks nd"
proof -
  let ?nd = "receive_all ECHO ms (nd\<lparr>send_this_round := []\<rparr>)" let ?n = "?nd\<lparr>should_broadcast := True\<rparr>"
  let ?h = "block_hash b0"
  have g: "good_msg ECHO b0 m" if "m \<in> set ms" for m using assms(3) that by blast
  have u: "updateRecvMessages ms nd = Inr ?nd"
    using updateRecv_all [OF assms(3,4)] assms(2) by (simp add: awaits_def)
  have e: "echo_this_round ?nd = [(?h, of_nat (length ms))]" and f: "?h \<in> verified_blocks ?nd"
    using receive_all_counts(1,4) [OF g] count_up_fresh [of "length ms" ?h] assms(2,5) by (auto simp: awaits_def)
  have h: "holds_block b0 ?nd" using receive_all_holds [OF g, where nd = "nd\<lparr>send_this_round := []\<rparr>"] assms(2)
    by (simp add: awaits_def holds_block_def listed_block_def)
  then have s: "same_block b0 (listed_block ?n ?h)" by (simp add: holds_block_def listed_block_def)
  have d: "device_works rt" and v: "valid_pair ?n" using assms(1,2) by (simp_all add: runtime_ok_def awaits_def valid_pair_def)
  obtain nd1 m where b: "broadcastMessage rt READY (listed_block ?n ?h) 2 ?n = Inr nd1"
    "sends READY b0 ?n m nd1" "valid_pair nd1" "same_counts ?n nd1" "ready_sent nd1 = ready_sent ?n" "node_id nd1 = node_id ?n"
    "verified_blocks nd1 = verified_blocks ?n" "node_blocks nd1 = node_blocks ?n"
    using broadcast_sends [OF d v s, of READY 2] by (elim exE conjE) (rule that)
  have "keeps_block b0 (nd\<lparr>send_this_round := []\<rparr>)" using assms(2) by (simp add: awaits_def)
  from receive_all_keeps(1) [OF g this] have kb: "keeps_block b0 nd1" using b(8) by (subst keeps_block_cong [of nd1 ?nd]) simp_all
  let ?nd' = "nd1\<lparr>ready_sent := insert ?h (ready_sent nd1)\<rparr>"
  have c: "echo_this_round nd1 = [(?h, of_nat (length ms))]" "ready_this_round nd1 = []" "num_nodes nd1 = num_nodes nd"
    "num_faulty nd1 = num_faulty nd" "accepted_blocks nd1 = accepted_blocks nd" "val_sig_keys nd1 = val_sig_keys ?nd"
    using b(4) assms(2) e by (simp_all add: same_counts_def awaits_def)
  have "echo_round rt (?h, of_nat (length ms)) ?n = Inr ?nd'"
    using assms(2,6,7) b(1) by (simp add: echo_round_def unat_count send_ready_def awaits_def)
  then have "node_turn rt ms nd = Inr ?nd'"
    using u e c(2) assms(1) by (simp add: node_turn_def broadcastRound_def Let_def)
  moreover have "sends READY b0 nd m ?nd'" using b(2) by (simp add: sends_def next_key_def)
  moreover have "awaits READY b0 ?nd'" using c b(3,7) f kb by (simp add: awaits_def valid_pair_def admits_def)
  ultimately show ?thesis using c b(6) by (intro exI [of _ ?nd'] exI [of _ m]) simp
qed

lemma turn_ready:
  assumes "runtime_ok rt" and "awaits READY b0 nd" and "\<And>m. m \<in> set ms \<Longrightarrow> trusts nd m \<and> good_msg READY b0 m"
    and "distinct (map sender_of ms)" and "length ms < 2 ^ 64" and "delivery_quorum (num_faulty nd) (length ms)"
  shows "\<exists>nd'. node_turn rt ms nd = Inr nd' \<and> isConsensus nd' \<and> accepted_blocks nd' = accepted_blocks nd @ [block_hash b0]
     \<and> voted_hash nd' = block_hash b0 \<and> outbox nd' = outbox nd \<and> echo_this_round nd' = [] \<and> ready_this_round nd' = []
     \<and> valid_pair nd' \<and> val_sig_keys nd' = val_sig_keys (receive_all READY ms (nd\<lparr>send_this_round := []\<rparr>)) \<and> node_id nd' = node_id nd
     \<and> same_block b0 (getReceivedBlock (block_hash b0) nd') \<and> next_key nd' = next_key nd"
proof -
  let ?nd = "receive_all READY ms (nd\<lparr>send_this_round := []\<rparr>)" let ?h = "block_hash b0"
  have g: "good_msg READY b0 m" if "m \<in> set ms" for m using assms(3) that by blast
  have n: "0 < length ms" using assms(6) by (auto simp: delivery_quorum_def)
  have u: "updateRecvMessages ms nd = Inr ?nd"
    using updateRecv_all [OF assms(3,4)] assms(2) by (simp add: awaits_def)
  have r: "ready_this_round ?nd = [(?h, of_nat (length ms))]"
    using receive_all_counts(2) [OF g] count_up_fresh [OF n, of ?h] assms(2) by (auto simp: awaits_def)
  obtain k where e: "echo_this_round ?nd = [(?h, k)]" "?h \<in> ready_sent ?nd" using assms(2) by (auto simp: awaits_def)
  have "rt_freed rt ?h = Inr ?h" using assms(1) by (simp add: runtime_ok_def)
  then have "node_turn rt ms nd = Inr (?nd\<lparr>should_broadcast := False, voted_hash := ?h, echo_this_round := [], ready_this_round := [],
      accepted_blocks := accepted_blocks nd @ [?h]\<rparr>)"
    using u e r assms(1,5,6)
    by (simp add: node_turn_def broadcastRound_def Let_def echo_round_def unat_count deliver_def)
  moreover have "same_block b0 (getReceivedBlock ?h ?nd)"
    using receive_all_keeps(2) [OF g, where nd = "nd\<lparr>send_this_round := []\<rparr>"] assms(2) n by (simp add: awaits_def)
  ultimately show ?thesis using assms(2) by (simp add: isConsensus_def awaits_def valid_pair_def getReceivedBlock_def next_key_def)
qed

text \<open>Both turns that answer: what they need and what they lead to.\<close>

definition answer :: "MsgType \<Rightarrow> MsgType" where
  "answer t = (if t = SEND then ECHO else READY)"

definition enough :: "MsgType \<Rightarrow> nat \<Rightarrow> Node \<Rightarrow> bool" where
  "enough t k nd \<longleftrightarrow> 0 < k \<and> k < 2 ^ 64 \<and> (t = ECHO \<longrightarrow> echo_quorum (num_nodes nd) (num_faulty nd) k)"

definition same_setup :: "Node \<Rightarrow> Node \<Rightarrow> bool" where
  "same_setup nd nd' \<longleftrightarrow> node_id nd' = node_id nd \<and> num_nodes nd' = num_nodes nd \<and> num_faulty nd' = num_faulty nd
     \<and> accepted_blocks nd' = accepted_blocks nd"

lemma turn_answers:
  assumes "runtime_ok rt" and "awaits t b0 nd" and "t \<noteq> READY" and "\<And>m. m \<in> set ms \<Longrightarrow> trusts nd m \<and> good_msg t b0 m"
    and "distinct (map sender_of ms)" and "enough t (length ms) nd"
  shows "\<exists>nd' m. node_turn rt ms nd = Inr nd' \<and> sends (answer t) b0 nd m nd' \<and> awaits (answer t) b0 nd'
     \<and> val_sig_keys nd' = val_sig_keys (receive_all t ms (nd\<lparr>send_this_round := []\<rparr>)) \<and> same_setup nd nd'"
proof (cases t)
  case SEND
  then show ?thesis using turn_send [of rt b0 nd ms] assms by (simp add: enough_def answer_def same_setup_def)
next
  case ECHO
  then show ?thesis using turn_echo [of rt b0 nd ms] assms by (simp add: enough_def answer_def same_setup_def)
qed (use assms(3) in simp)

section \<open>The network\<close>

text \<open>
  One round: every node reads what was sent in the round before, \<open>arrival\<close> giving the order at each, and
  the messages it hands to its client are what the round sends.
\<close>

definition network_round :: "(nat \<Rightarrow> runtime) \<Rightarrow> (nat \<Rightarrow> Message list \<Rightarrow> Message list) \<Rightarrow> Message list \<Rightarrow> Node list
    \<Rightarrow> (Node list \<times> Message list) res" where
  "network_round rts arrival sent nodes = rbind (rmap transmit sent) (\<lambda>msgs.
     rbind (rmap (\<lambda>i. node_turn (rts i) (arrival i msgs) (nodes ! i)) [0..<length nodes]) (\<lambda>nodes'.
       Inr (nodes', concat (map (\<lambda>i. drop (length (outbox (nodes ! i))) (outbox (nodes' ! i))) [0..<length nodes]))))"

text \<open>What is not in the wire format comes back empty.\<close>

definition strip :: "Message \<Rightarrow> Message" where
  "strip m = m\<lparr>msg_block := (msg_block m)\<lparr>validatorSigs := [], block_empty := False\<rparr>, msg_empty := False\<rparr>"

lemma getDigest_flags [simp]: "Block_getDigest (b\<lparr>block_empty := e\<rparr>) = Block_getDigest b"
  by (simp add: Block_getDigest_def Let_def cong: if_cong)

lemma strip_simps [simp]:
  "sender_of (strip m) = sender_of m" "key_of (strip m) = key_of m" "good_msg t b0 (strip m) = good_msg t b0 m"
  "trusts r (strip m) = trusts r m"
  by (simp_all add: strip_def sender_of_def key_of_def good_msg_def same_block_def trusts_def verifySignature_def split: option.split)

definition block_writable :: "Block \<Rightarrow> bool" where
  "block_writable b \<longleftrightarrow> list_all (\<lambda>t. key_writable (tx_public_key t)) (txs b)"

lemma transmit_good:
  assumes "good_msg t b0 m" and "block_writable b0"
  shows "transmit m = Inr (strip m)"
proof -
  let ?b = "msg_block m" let ?m = "m\<lparr>msg_block := ?b\<lparr>block_empty := False\<rparr>\<rparr>"
  have "sendable (msg_block ?m)" "msg_type ?m = Some t"
    using assms by (simp_all add: good_msg_def same_block_def block_writable_def sendable_def)
  then obtain p where p: "toProtoMessage ?m = Inr p"
    "Message_of_proto p = Inr (?m\<lparr>msg_block := (msg_block ?m)\<lparr>validatorSigs := []\<rparr>, msg_empty := False\<rparr>)"
    using toProtoMessage_round_trip by blast
  have "toProtoMessage m = toProtoMessage ?m" by (simp add: toProtoMessage_def toProtoBlock_def getType_def)
  then show ?thesis using p by (simp add: transmit_def strip_def)
qed

text \<open>
  What receiver \<open>r\<close> knows about sender \<open>s\<close> when \<open>batch\<close> is on its way: the pending message verifies
  with the known key and announces the sender's next one; without a pending message the next one is known.
\<close>

definition in_sync :: "Message list \<Rightarrow> Node \<Rightarrow> Node \<Rightarrow> bool" where
  "in_sync batch r s \<longleftrightarrow> (\<forall>m \<in> set batch. sender_of m = node_id s \<longrightarrow> trusts r m \<and> key_of m = next_key s)
     \<and> (node_id s \<notin> sender_of ` set batch \<longrightarrow> val_sig_keys r (node_id s) \<in> {None, Some (next_key s)})"

definition network_ok :: "MsgType \<Rightarrow> Block \<Rightarrow> Message list \<Rightarrow> Node list \<Rightarrow> bool" where
  "network_ok t b0 batch nodes \<longleftrightarrow> distinct (map node_id nodes) \<and> distinct (map sender_of batch)
     \<and> sender_of ` set batch \<subseteq> node_id ` set nodes \<and> (\<forall>m \<in> set batch. good_msg t b0 m)
     \<and> (\<forall>nd \<in> set nodes. awaits t b0 nd) \<and> (\<forall>r \<in> set nodes. \<forall>s \<in> set nodes. in_sync batch r s)"

text \<open>Nodes between two blocks: they have answered everything and know each other's keys.\<close>

definition at_rest :: "Node list \<Rightarrow> bool" where
  "at_rest nodes \<longleftrightarrow> distinct (map node_id nodes)
     \<and> (\<forall>nd \<in> set nodes. valid_pair nd \<and> echo_this_round nd = [] \<and> ready_this_round nd = [])
     \<and> (\<forall>r \<in> set nodes. \<forall>s \<in> set nodes. val_sig_keys r (node_id s) \<in> {None, Some (next_key s)})"

lemma network_trusts:
  assumes "network_ok t b0 batch nodes" and "r \<in> set nodes" and "m \<in> set batch"
  shows "trusts r m \<and> good_msg t b0 m"
proof -
  obtain s where "s \<in> set nodes" "node_id s = sender_of m" using assms(1,3) by (force simp: network_ok_def)
  then show ?thesis using assms by (auto simp: network_ok_def in_sync_def)
qed

text \<open>After a turn a receiver knows the key of every sender, unless it never heard of it.\<close>

lemma synced_keys:
  assumes "network_ok t b0 batch nodes" and "r \<in> set nodes" and "s \<in> set nodes"
    and "set ms = set (map strip batch)" and "distinct (map sender_of ms)"
  shows "val_sig_keys (receive_all t ms (r\<lparr>send_this_round := []\<rparr>)) (node_id s) \<in> {None, Some (next_key s)}"
proof (cases "node_id s \<in> sender_of ` set batch")
  case True
  then obtain m where m: "m \<in> set batch" "sender_of m = node_id s" by auto
  then have "strip m \<in> set ms" using assms(4) by auto
  then have "val_sig_keys (receive_all t ms (r\<lparr>send_this_round := []\<rparr>)) (sender_of (strip m)) = Some (key_of (strip m))"
    by (rule receive_all_new_keys [OF assms(5)])
  moreover have "key_of m = next_key s" using m assms(1-3) by (auto simp: network_ok_def in_sync_def)
  ultimately show ?thesis using m(2) by simp
next
  case False
  then have "node_id s \<notin> sender_of ` set ms" using assms(4) by (auto simp: image_iff)
  then have "val_sig_keys (receive_all t ms (r\<lparr>send_this_round := []\<rparr>)) (node_id s) = val_sig_keys r (node_id s)"
    using receive_all_other_keys by fastforce
  then show ?thesis using False assms(1-3) by (auto simp: network_ok_def in_sync_def)
qed


definition shuffles :: "(nat \<Rightarrow> Message list \<Rightarrow> Message list) \<Rightarrow> bool" where
  "shuffles arrival \<longleftrightarrow> (\<forall>i ms. mset (arrival i ms) = mset ms)"

lemma shuffled_batch:
  assumes "shuffles arrival" and "distinct (map sender_of batch)"
  shows "set (arrival i (map strip batch)) = set (map strip batch)" and "length (arrival i (map strip batch)) = length batch"
    and "distinct (map sender_of (arrival i (map strip batch)))"
proof -
  have m: "mset (arrival i (map strip batch)) = mset (map strip batch)" using assms(1) by (simp add: shuffles_def)
  show "set (arrival i (map strip batch)) = set (map strip batch)" using m by (rule mset_eq_setD)
  show "length (arrival i (map strip batch)) = length batch" using mset_eq_length [OF m] by simp
  have "mset (map sender_of (arrival i (map strip batch))) = mset (map sender_of batch)"
    by (simp add: m multiset.map_comp comp_def)
  then show "distinct (map sender_of (arrival i (map strip batch)))" using assms(2) mset_eq_imp_distinct_iff by blast
qed

lemma batch_received:
  assumes "network_ok t b0 batch nodes" and "shuffles arrival" and "nd \<in> set nodes"
  shows "\<And>m. m \<in> set (arrival i (map strip batch)) \<Longrightarrow> trusts nd m \<and> good_msg t b0 m"
    and "distinct (map sender_of (arrival i (map strip batch)))" and "length (arrival i (map strip batch)) = length batch"
proof -
  have d: "distinct (map sender_of batch)" using assms(1) by (auto simp: network_ok_def)
  note b = shuffled_batch [OF assms(2) d, of i]
  show "trusts nd m \<and> good_msg t b0 m" if "m \<in> set (arrival i (map strip batch))" for m
    using that b(1) network_trusts [OF assms(1,3)] by auto
  show "distinct (map sender_of (arrival i (map strip batch)))" and "length (arrival i (map strip batch)) = length batch" using b(2,3) by auto
qed

text \<open>What a turn of one node gives: its answer, and the keys it has learnt.\<close>

definition turned :: "MsgType \<Rightarrow> Block \<Rightarrow> Node list \<Rightarrow> Node \<Rightarrow> Message \<Rightarrow> Node \<Rightarrow> bool" where
  "turned t b0 nodes nd m nd' \<longleftrightarrow> sends (answer t) b0 nd m nd' \<and> awaits (answer t) b0 nd'
     \<and> (\<forall>s \<in> set nodes. val_sig_keys nd' (node_id s) \<in> {None, Some (next_key s)}) \<and> same_setup nd nd'"

lemma network_turn:
  assumes "network_ok t b0 batch nodes" and "t \<noteq> READY" and "shuffles arrival" and "runtime_ok rt" and "nd \<in> set nodes"
    and "enough t (length batch) nd"
  shows "\<exists>nd' m. node_turn rt (arrival i (map strip batch)) nd = Inr nd' \<and> turned t b0 nodes nd m nd'"
proof -
  let ?ms = "arrival i (map strip batch)"
  have d: "distinct (map sender_of batch)" "awaits t b0 nd" using assms(1,5) by (auto simp: network_ok_def)
  note b = shuffled_batch [OF assms(3) d(1), of i]
  have "trusts nd m \<and> good_msg t b0 m" if "m \<in> set ?ms" for m
    using that b(1) network_trusts [OF assms(1,5)] by auto
  moreover have "enough t (length ?ms) nd" using assms(6) b(2) by simp
  ultimately obtain nd' m where "node_turn rt ?ms nd = Inr nd'" "sends (answer t) b0 nd m nd'" "awaits (answer t) b0 nd'"
    "val_sig_keys nd' = val_sig_keys (receive_all t ?ms (nd\<lparr>send_this_round := []\<rparr>))" "same_setup nd nd'"
    using turn_answers [OF assms(4) d(2) assms(2) _ b(3)] by blast
  then show ?thesis using synced_keys [OF assms(1,5) _ b(1,3)] by (intro exI [of _ nd'] exI [of _ m]) (simp add: turned_def)
qed

lemma turned_in_sync:
  assumes "distinct (map node_id nodes)" and "\<And>i. i < length nodes \<Longrightarrow> turned t b0 nodes (nodes ! i) (g i) (f i) \<and> valid_pair (nodes ! i)"
    and "i < length nodes" and "j < length nodes"
  shows "in_sync (map g [0..<length nodes]) (f i) (f j)"
proof -
  let ?n = "length nodes" let ?batch = "map g [0..<length nodes]"
  have id: "node_id (f i) = node_id (nodes ! i)" "sender_of (g i) = node_id (nodes ! i)" if "i < ?n" for i
    using assms(2) [OF that] by (simp_all add: turned_def same_setup_def sends_def)
  have u: "g k = g j" if "k < ?n" "sender_of (g k) = node_id (f j)" for k
  proof -
    have "node_id (nodes ! k) = node_id (nodes ! j)" using that id assms(4) by simp
    then have "k = j" using assms(1,4) that(1) by (simp add: distinct_conv_nth) metis
    then show ?thesis by simp
  qed
  have v: "verifySignature (msg_block (g j)) (next_key (nodes ! j)) = Inr True" "key_of (g j) = next_key (f j)" "valid_pair (nodes ! j)"
    using assms(2) [OF assms(4)] by (simp_all add: turned_def sends_def)
  have "key_complete (next_key (nodes ! j))" using v(3) key_pair_complete unfolding valid_pair_def next_key_def by blast
  moreover have "val_sig_keys (f i) (sender_of (g j)) \<in> {None, Some (next_key (nodes ! j))}"
    using assms(2) [OF assms(3)] assms(4) id(2) by (simp add: turned_def)
  ultimately have "trusts (f i) (g j) \<and> key_of (g j) = next_key (f j)" using v(1,2) by (auto simp: trusts_def sender_of_def)
  moreover have "\<forall>m \<in> set ?batch. sender_of m = node_id (f j) \<longrightarrow> m = g j" using u by auto
  moreover have "node_id (f j) \<in> sender_of ` set ?batch" using id assms(4) by force
  ultimately show ?thesis unfolding in_sync_def by blast
qed

lemma turned_network_ok:
  assumes "network_ok t b0 batch nodes" and "\<And>i. i < length nodes \<Longrightarrow> turned t b0 nodes (nodes ! i) (g i) (f i)"
  shows "network_ok (answer t) b0 (map g [0..<length nodes]) (map f [0..<length nodes])"
proof -
  let ?n = "length nodes" let ?nodes = "map f [0..<length nodes]" let ?batch = "map g [0..<length nodes]"
  have "node_id (f i) = node_id (nodes ! i)" "sender_of (g i) = node_id (nodes ! i)" if "i < ?n" for i
    using assms(2) [OF that] by (simp_all add: turned_def same_setup_def sends_def)
  then have ids: "map node_id ?nodes = map node_id nodes" "map sender_of ?batch = map node_id nodes"
    by (auto intro!: nth_equalityI)
  have d: "distinct (map node_id nodes)" using assms(1) by (simp add: network_ok_def)
  have "valid_pair (nodes ! i)" if "i < ?n" for i using assms(1) that by (simp add: network_ok_def awaits_def)
  then have "in_sync ?batch (f i) (f j)" if "i < ?n" "j < ?n" for i j using turned_in_sync [OF d _ that] assms(2) by blast
  moreover have "sender_of ` set ?batch \<subseteq> node_id ` set ?nodes" using ids by (metis list.set_map subset_refl)
  moreover have "good_msg (answer t) b0 (g i)" "awaits (answer t) b0 (f i)" if "i < ?n" for i
    using assms(2) [OF that] by (simp_all add: turned_def sends_def)
  ultimately show ?thesis unfolding network_ok_def ids using d by auto
qed

lemma network_step:
  assumes "network_ok t b0 batch nodes" and "t \<noteq> READY" and "shuffles arrival" and "\<And>i. runtime_ok (rts i)" and "block_writable b0"
    and "\<And>nd. nd \<in> set nodes \<Longrightarrow> enough t (length batch) nd"
  shows "\<exists>nodes' batch'. network_round rts arrival batch nodes = Inr (nodes', batch') \<and> network_ok (answer t) b0 batch' nodes'
     \<and> length batch' = length nodes \<and> length nodes' = length nodes \<and> (\<forall>i < length nodes. same_setup (nodes ! i) (nodes' ! i))"
proof -
  let ?n = "length nodes"
  have "\<forall>i. \<exists>nd' m. i < ?n \<longrightarrow> node_turn (rts i) (arrival i (map strip batch)) (nodes ! i) = Inr nd' \<and> turned t b0 nodes (nodes ! i) m nd'"
    using network_turn [OF assms(1-3) assms(4) _ assms(6)] nth_mem by blast
  then obtain f g where fg: "\<And>i. i < ?n \<Longrightarrow> node_turn (rts i) (arrival i (map strip batch)) (nodes ! i) = Inr (f i)
     \<and> turned t b0 nodes (nodes ! i) (g i) (f i)" by metis
  let ?nodes = "map f [0..<?n]" let ?batch = "map g [0..<?n]"
  have "rmap transmit batch = Inr (map strip batch)"
    using assms(1,5) transmit_good by (intro rmap_all_Inr) (auto simp: network_ok_def)
  moreover have "rmap (\<lambda>i. node_turn (rts i) (arrival i (map strip batch)) (nodes ! i)) [0..<?n] = Inr ?nodes"
    using fg by (intro rmap_all_Inr) simp
  moreover have "map (\<lambda>i. drop (length (outbox (nodes ! i))) (outbox (?nodes ! i))) [0..<?n] = map (\<lambda>i. [g i]) [0..<?n]"
    using fg by (intro map_cong refl) (simp add: turned_def sends_def)
  ultimately have r: "network_round rts arrival batch nodes = Inr (?nodes, ?batch)"
    by (simp add: network_round_def concat_map_singleton del: map_eq_conv)
  have "network_ok (answer t) b0 ?batch ?nodes" using turned_network_ok [OF assms(1)] fg by blast
  moreover have "same_setup (nodes ! i) (f i)" if "i < ?n" for i using fg [OF that] by (simp add: turned_def)
  ultimately show ?thesis using r by (intro exI [of _ ?nodes] exI [of _ ?batch]) simp
qed

text \<open>The node has delivered the block and keeps it.\<close>

definition block_delivered :: "Block \<Rightarrow> Node \<Rightarrow> Node \<Rightarrow> bool" where
  "block_delivered b nd nd' \<longleftrightarrow> isConsensus nd' \<and> accepted_blocks nd' = accepted_blocks nd @ [block_hash b] \<and> voted_hash nd' = block_hash b
     \<and> same_block b (getReceivedBlock (block_hash b) nd')"

lemma quiet_round:
  assumes "network_ok t b0 batch nodes" and "block_writable b0"
    and "\<And>i. i < length nodes \<Longrightarrow> \<exists>nd'. node_turn (rts i) (arrival i (map strip batch)) (nodes ! i) = Inr nd'
       \<and> outbox nd' = outbox (nodes ! i) \<and> P (nodes ! i) nd'"
  shows "\<exists>nodes'. network_round rts arrival batch nodes = Inr (nodes', []) \<and> length nodes' = length nodes
     \<and> (\<forall>i < length nodes. P (nodes ! i) (nodes' ! i))"
proof -
  let ?n = "length nodes"
  obtain f where f: "\<And>i. i < ?n \<Longrightarrow> node_turn (rts i) (arrival i (map strip batch)) (nodes ! i) = Inr (f i)
    \<and> outbox (f i) = outbox (nodes ! i) \<and> P (nodes ! i) (f i)" using assms(3) by metis
  have "rmap transmit batch = Inr (map strip batch)"
    using assms(1,2) transmit_good by (intro rmap_all_Inr) (auto simp: network_ok_def)
  moreover have "rmap (\<lambda>i. node_turn (rts i) (arrival i (map strip batch)) (nodes ! i)) [0..<?n] = Inr (map f [0..<?n])"
    using f by (intro rmap_all_Inr) simp
  moreover have "map (\<lambda>i. drop (length (outbox (nodes ! i))) (outbox (map f [0..<?n] ! i))) [0..<?n] = map (\<lambda>i. []) [0..<?n]"
    using f by (intro map_cong refl) simp
  ultimately have "network_round rts arrival batch nodes = Inr (map f [0..<?n], [])"
    by (simp add: network_round_def del: map_eq_conv)
  then show ?thesis using f by simp
qed

lemma network_final:
  assumes "network_ok READY b0 batch nodes" and "shuffles arrival" and "\<And>i. runtime_ok (rts i)" and "block_writable b0"
    and "length batch < 2 ^ 64" and "\<And>nd. nd \<in> set nodes \<Longrightarrow> delivery_quorum (num_faulty nd) (length batch)"
  shows "\<exists>nodes'. network_round rts arrival batch nodes = Inr (nodes', []) \<and> length nodes' = length nodes \<and> at_rest nodes'
     \<and> (\<forall>i < length nodes. block_delivered b0 (nodes ! i) (nodes' ! i))"
proof -
  let ?P = "\<lambda>nd nd'. block_delivered b0 nd nd' \<and> echo_this_round nd' = [] \<and> ready_this_round nd' = [] \<and> valid_pair nd' \<and> node_id nd' = node_id nd
    \<and> next_key nd' = next_key nd \<and> (\<forall>s \<in> set nodes. val_sig_keys nd' (node_id s) \<in> {None, Some (next_key s)})"
  have "\<exists>nd'. node_turn (rts i) (arrival i (map strip batch)) (nodes ! i) = Inr nd' \<and> outbox nd' = outbox (nodes ! i) \<and> ?P (nodes ! i) nd'"
    if i: "i < length nodes" for i
  proof -
    have nd: "nodes ! i \<in> set nodes" using i by simp
    have a: "awaits READY b0 (nodes ! i)" "distinct (map sender_of batch)" using assms(1) nd by (simp_all add: network_ok_def)
    note b = batch_received [OF assms(1,2) nd, where i = i] and c = shuffled_batch [OF assms(2) a(2), of i]
    let ?ms = "arrival i (map strip batch)"
    have q: "length ?ms < 2 ^ 64" "delivery_quorum (num_faulty (nodes ! i)) (length ?ms)" using b(3) assms(5) assms(6) [OF nd] by simp_all
    obtain nd' where "node_turn (rts i) ?ms (nodes ! i) = Inr nd'" "outbox nd' = outbox (nodes ! i)" "block_delivered b0 (nodes ! i) nd'"
      "echo_this_round nd' = []" "ready_this_round nd' = []" "valid_pair nd'" "node_id nd' = node_id (nodes ! i)" "next_key nd' = next_key (nodes ! i)"
      "val_sig_keys nd' = val_sig_keys (receive_all READY ?ms ((nodes ! i)\<lparr>send_this_round := []\<rparr>))"
      using turn_ready [OF assms(3) [of i] a(1) b(1,2) q] unfolding block_delivered_def by blast
    then show ?thesis using synced_keys [OF assms(1) nd _ c(1) b(2)] by (intro exI [of _ nd']) simp
  qed
  from quiet_round [where rts = rts and arrival = arrival and P = ?P, OF assms(1,4) this] obtain nodes' where
    n: "network_round rts arrival batch nodes = Inr (nodes', [])" "length nodes' = length nodes" "\<forall>i < length nodes. ?P (nodes ! i) (nodes' ! i)" by blast
  have "map node_id nodes' = map node_id nodes" using n(2,3) by (auto intro!: nth_equalityI)
  then have "distinct (map node_id nodes')" using assms(1) by (simp add: network_ok_def)
  moreover have "val_sig_keys r (node_id s) \<in> {None, Some (next_key s)}" if rs: "r \<in> set nodes'" "s \<in> set nodes'" for r s
  proof -
    obtain i j where "i < length nodes" "r = nodes' ! i" "j < length nodes" "s = nodes' ! j" using rs n(2) by (auto simp: in_set_conv_nth)
    then show ?thesis using n(3) by (metis nth_mem)
  qed
  moreover have "\<forall>nd \<in> set nodes'. valid_pair nd \<and> echo_this_round nd = [] \<and> ready_this_round nd = []"
    using n(2,3) by (auto simp: in_set_conv_nth)
  ultimately show ?thesis using n by (auto simp: at_rest_def)
qed

lemma at_rest_ready:
  assumes "at_rest nodes" and "\<And>nd. nd \<in> set nodes \<Longrightarrow> verify b (node_utxolist nd) (node_wallet_ids nd)"
    and "\<And>nd. nd \<in> set nodes \<Longrightarrow> blk_list nd (block_hash b) = None \<and> node_blocks nd (block_hash b) = None \<and> block_hash b \<notin> ready_sent nd"
  shows "network_ok SEND b [] nodes"
  using assms by (auto simp: network_ok_def at_rest_def awaits_def admits_def keeps_block_def in_sync_def)

lemma proposal_ok:
  assumes "network_ok SEND b0 [] nodes" and "l < length nodes" and "runtime_ok rt" and "\<not> block_mutable b0"
  shows "\<exists>ld m. Propose rt b0 (nodes ! l) = Inr ld \<and> outbox ld = outbox (nodes ! l) @ [m] \<and> same_setup (nodes ! l) ld
    \<and> network_ok SEND b0 [m] (nodes[l := ld])"
proof -
  let ?nd = "nodes ! l"
  have a: "awaits SEND b0 ?nd" using assms(1,2) by (simp add: network_ok_def)
  have "device_works rt" "valid_pair ?nd" "same_block b0 b0" using assms(3,4) a by (simp_all add: runtime_ok_def awaits_def same_block_def)
  then obtain ld m where p: "broadcastMessage rt SEND b0 0 ?nd = Inr ld" "sends SEND b0 ?nd m ld" "valid_pair ld" "same_counts ?nd ld"
    "ready_sent ld = ready_sent ?nd" "node_id ld = node_id ?nd" "verified_blocks ld = verified_blocks ?nd" "node_blocks ld = node_blocks ?nd"
    using broadcast_sends [of rt ?nd b0 b0 SEND 0] by blast
  obtain kp b' where ld: "node_utxolist ld = node_utxolist ?nd" "node_wallet_ids ld = node_wallet_ids ?nd"
    using broadcastMessage_Inr [OF p(1)] by auto
  have "awaits SEND b0 ld" using a p(3-5,7,8) ld by (simp add: awaits_def admits_def same_counts_def keeps_block_def)
  moreover have "set (nodes[l := ld]) \<subseteq> insert ld (set nodes)" by (rule set_update_subset_insert)
  moreover have ids: "map node_id (nodes[l := ld]) = map node_id nodes" using p(6) assms(2) by (simp add: map_update list_update_same_conv)
  moreover have "in_sync [m] r s" if rs: "r \<in> set (nodes[l := ld])" "s \<in> set (nodes[l := ld])" for r s
  proof -
    obtain i j where i: "i < length nodes" "r = nodes[l := ld] ! i" and j: "j < length nodes" "s = nodes[l := ld] ! j"
      using rs by (auto simp: in_set_conv_nth)
    have keys: "val_sig_keys r = val_sig_keys (nodes ! i)" using i p(4) by (cases "i = l") (simp_all add: same_counts_def)
    have "in_sync [] (nodes ! i) (nodes ! j)" using assms(1) i(1) j(1) by (simp add: network_ok_def)
    then have old: "val_sig_keys (nodes ! i) (node_id (nodes ! j)) \<in> {None, Some (next_key (nodes ! j))}" by (simp add: in_sync_def)
    show ?thesis
    proof (cases "j = l")
      case True
      then have "key_complete (next_key ?nd)" using a key_pair_complete unfolding awaits_def valid_pair_def next_key_def by blast
      then show ?thesis using True j old keys p(2,6) by (auto simp: in_sync_def sends_def trusts_def sender_of_def)
    next
      case False
      then have "node_id (nodes ! j) \<noteq> node_id ?nd" using assms(1,2) j(1) by (simp add: network_ok_def distinct_conv_nth)
      then show ?thesis using False j old keys p(2) by (auto simp: in_sync_def sends_def)
    qed
  qed
  moreover have "node_id ?nd \<in> node_id ` set (nodes[l := ld])"
    using p(6) set_update_memI [OF assms(2), of ld] by (metis image_eqI)
  ultimately have "network_ok SEND b0 [m] (nodes[l := ld])"
    using assms(1,2) p(2,6) set_update_memI [OF assms(2), of ld] unfolding network_ok_def ids
    by (auto simp: sends_def)
  moreover have "same_setup ?nd ld" using p(4,6) by (simp add: same_setup_def same_counts_def)
  ultimately show ?thesis using p(1,2) by (auto simp: Propose_def sends_def)
qed


fun network_run :: "(nat \<Rightarrow> runtime) \<Rightarrow> (nat \<Rightarrow> Message list \<Rightarrow> Message list) \<Rightarrow> nat \<Rightarrow> Message list \<Rightarrow> Node list
    \<Rightarrow> (Node list \<times> Message list) res" where
  "network_run rts arrival 0 sent nodes = Inr (nodes, sent)"
| "network_run rts arrival (Suc k) sent nodes =
     rbind (network_round rts arrival sent nodes) (\<lambda>(nodes, sent). network_run rts arrival k sent nodes)"

lemma network_run_append:
  "network_run rts arrival (j + k) sent nodes
     = rbind (network_run rts arrival j sent nodes) (\<lambda>(nodes, sent). network_run rts arrival k sent nodes)"
proof (induction j arbitrary: sent nodes)
  case (Suc j)
  then show ?case by (cases "network_round rts arrival sent nodes") auto
qed simp

lemma network_states:
  assumes "network_ok SEND b [] nodes" and "l < length nodes" and "\<not> block_mutable b" and "block_writable b"
    and "\<And>i. runtime_ok (rts i)" and "shuffles arrival" and "length nodes < 2 ^ 64"
    and "\<And>nd. nd \<in> set nodes \<Longrightarrow> echo_quorum (num_nodes nd) (num_faulty nd) (length nodes)"
  shows "\<exists>ld m n1 b1 n2 b2. Propose (rts l) b (nodes ! l) = Inr ld \<and> outbox ld = outbox (nodes ! l) @ [m]
    \<and> network_ok SEND b [m] (nodes[l := ld]) \<and> network_round rts arrival [m] (nodes[l := ld]) = Inr (n1, b1)
    \<and> network_ok ECHO b b1 n1 \<and> length b1 = length nodes \<and> network_round rts arrival b1 n1 = Inr (n2, b2)
    \<and> network_ok READY b b2 n2 \<and> length b2 = length nodes \<and> length n1 = length nodes \<and> length n2 = length nodes
    \<and> (\<forall>i < length nodes. same_setup (nodes ! i) (n2 ! i))"
proof -
  let ?n = "length nodes"
  obtain ld m where p: "Propose (rts l) b (nodes ! l) = Inr ld" "outbox ld = outbox (nodes ! l) @ [m]" "same_setup (nodes ! l) ld"
    and k0: "network_ok SEND b [m] (nodes[l := ld])" using proposal_ok [OF assms(1,2,5,3)] by blast
  let ?start = "nodes[l := ld]"
  have s0: "same_setup (nodes ! i) (?start ! i)" if "i < ?n" for i using p(3) that by (cases "i = l") (simp_all add: same_setup_def)
  obtain n1 b1 where r1: "network_round rts arrival [m] ?start = Inr (n1, b1)" "network_ok ECHO b b1 n1" "length b1 = ?n" "length n1 = ?n"
    "\<forall>i < ?n. same_setup (?start ! i) (n1 ! i)"
    using network_step [where rts = rts, OF k0 _ assms(6,5,4)] by (auto simp: answer_def enough_def)
  have "enough ECHO (length b1) nd" if nd: "nd \<in> set n1" for nd
  proof -
    obtain i where i: "i < ?n" "nd = n1 ! i" using nd r1(4) by (auto simp: in_set_conv_nth)
    then show ?thesis
      using assms(2,7) r1(3,5) s0 [OF i(1)] assms(8) [OF nth_mem [OF i(1)]] by (auto simp: same_setup_def enough_def)
  qed
  then obtain n2 b2 where r2: "network_round rts arrival b1 n1 = Inr (n2, b2)" "network_ok READY b b2 n2" "length b2 = ?n" "length n2 = ?n"
    "\<forall>i < ?n. same_setup (n1 ! i) (n2 ! i)"
    using network_step [where rts = rts, OF r1(2) _ assms(6,5,4)] r1(4) by (auto simp: answer_def)
  have "same_setup (nodes ! i) (n2 ! i)" if "i < ?n" for i
    using that s0 [OF that] r1(5) r2(5) by (simp add: same_setup_def)
  then show ?thesis using p(1,2) k0 r1 r2 by blast
qed

lemma network_two_rounds:
  assumes "network_ok SEND b [] nodes" and "l < length nodes" and "\<not> block_mutable b" and "block_writable b"
    and "\<And>i. runtime_ok (rts i)" and "shuffles arrival" and "length nodes < 2 ^ 64"
    and "\<And>nd. nd \<in> set nodes \<Longrightarrow> echo_quorum (num_nodes nd) (num_faulty nd) (length nodes)"
  shows "\<exists>ld nodes' batch. Propose (rts l) b (nodes ! l) = Inr ld
    \<and> network_run rts arrival 2 (drop (length (outbox (nodes ! l))) (outbox ld)) (nodes[l := ld]) = Inr (nodes', batch)
    \<and> network_ok READY b batch nodes' \<and> length batch = length nodes \<and> length nodes' = length nodes
    \<and> (\<forall>i < length nodes. same_setup (nodes ! i) (nodes' ! i))"
proof -
  obtain ld m n1 b1 n2 b2 where "Propose (rts l) b (nodes ! l) = Inr ld" "outbox ld = outbox (nodes ! l) @ [m]"
    "network_round rts arrival [m] (nodes[l := ld]) = Inr (n1, b1)" "network_round rts arrival b1 n1 = Inr (n2, b2)"
    "network_ok READY b b2 n2" "length b2 = length nodes" "length n2 = length nodes" "\<forall>i < length nodes. same_setup (nodes ! i) (n2 ! i)"
    using network_states [where rts = rts and nodes = nodes, OF assms] by blast
  then show ?thesis by (simp add: numeral_2_eq_2)
qed

lemma network_three_rounds:
  assumes "network_ok SEND b [] nodes" and "l < length nodes" and "\<not> block_mutable b" and "block_writable b"
    and "\<And>i. runtime_ok (rts i)" and "shuffles arrival" and "length nodes < 2 ^ 64"
    and "\<And>nd. nd \<in> set nodes \<Longrightarrow> echo_quorum (num_nodes nd) (num_faulty nd) (length nodes) \<and> delivery_quorum (num_faulty nd) (length nodes)"
  shows "\<exists>ld nodes'. Propose (rts l) b (nodes ! l) = Inr ld
    \<and> network_run rts arrival 3 (drop (length (outbox (nodes ! l))) (outbox ld)) (nodes[l := ld]) = Inr (nodes', [])
    \<and> length nodes' = length nodes
    \<and> (\<forall>i < length nodes. block_delivered b (nodes ! i) (nodes' ! i))"
proof -
  let ?n = "length nodes"
  obtain ld n2 b2 where r: "Propose (rts l) b (nodes ! l) = Inr ld"
    "network_run rts arrival 2 (drop (length (outbox (nodes ! l))) (outbox ld)) (nodes[l := ld]) = Inr (n2, b2)"
    "network_ok READY b b2 n2" "length b2 = ?n" "length n2 = ?n" "\<forall>i < ?n. same_setup (nodes ! i) (n2 ! i)"
    using network_two_rounds [where rts = rts and nodes = nodes, OF assms(1-7)] assms(8) by blast
  have "delivery_quorum (num_faulty nd) (length b2)" if nd: "nd \<in> set n2" for nd
  proof -
    obtain i where i: "i < ?n" "nd = n2 ! i" using nd r(5) by (auto simp: in_set_conv_nth)
    then show ?thesis using r(4,6) assms(8) [OF nth_mem [OF i(1)]] by (simp add: same_setup_def)
  qed
  then obtain n3 where n3: "network_round rts arrival b2 n2 = Inr (n3, [])" "length n3 = ?n"
    "\<forall>i < ?n. block_delivered b (n2 ! i) (n3 ! i)"
    using network_final [where rts = rts, OF r(3) assms(6,5,4)] r(4,5) assms(7) by auto
  have "network_run rts arrival (2 + 1) (drop (length (outbox (nodes ! l))) (outbox ld)) (nodes[l := ld]) = Inr (n3, [])"
    unfolding network_run_append r(2) using n3(1) by simp
  then show ?thesis using r(1,6) n3(2,3) by (simp add: same_setup_def block_delivered_def)
qed

section \<open>A single sender\<close>

text \<open>A node that sends the same READY again and again, each time signed with its next key.\<close>

definition repeat_ready :: "runtime \<Rightarrow> Block \<Rightarrow> nat \<Rightarrow> Node \<Rightarrow> Node res" where
  "repeat_ready rt b k nd = rfold (\<lambda>_. broadcastMessage rt READY b 2) [0..<k] nd"

lemma repeated_ready_counts:
  assumes "device_works rt" and "valid_pair s" and "same_block b0 b" and "admits b0 r"
    and "val_sig_keys r (node_id s) \<in> {None, Some (next_key s)}"
  shows "\<exists>s' ms. repeat_ready rt b k s = Inr s' \<and> outbox s' = outbox s @ ms \<and> length ms = k \<and> valid_pair s' \<and> node_id s' = node_id s
    \<and> (\<forall>m \<in> set ms. good_msg READY b0 m)
    \<and> rfold recv_message ms r = Inr (receive_all READY ms r)
    \<and> val_sig_keys (receive_all READY ms r) (node_id s) \<in> {None, Some (next_key s')}"
proof (induction k)
  case 0
  then show ?case using assms by (simp add: repeat_ready_def)
next
  case (Suc k)
  then obtain s' ms where s': "repeat_ready rt b k s = Inr s'" "outbox s' = outbox s @ ms" "length ms = k" "valid_pair s'" "node_id s' = node_id s"
    "\<forall>m \<in> set ms. good_msg READY b0 m" "rfold recv_message ms r = Inr (receive_all READY ms r)"
    "val_sig_keys (receive_all READY ms r) (node_id s) \<in> {None, Some (next_key s')}" by blast
  obtain s'' m where m: "broadcastMessage rt READY b 2 s' = Inr s''" "sends READY b0 s' m s''" "valid_pair s''" "node_id s'' = node_id s'"
    using broadcast_sends [OF assms(1) s'(4) assms(3), of READY 2] by blast
  let ?r = "receive_all READY ms r"
  have "key_complete (next_key s')" using s'(4) key_pair_complete unfolding valid_pair_def next_key_def by blast
  then have "trusts ?r m" using m(2) s'(5,8) by (auto simp: trusts_def sends_def sender_of_def)
  moreover have g: "good_msg READY b0 m" using m(2) by (simp add: sends_def)
  moreover have "admits b0 ?r"
    using receive_all_counts(4) [of ms READY b0 r] s'(6) assms(4) by (cases "ms = []") (auto simp: admits_def)
  ultimately have "recv_message m ?r = Inr (received READY m ?r)" by (rule recv_message_good)
  then have "rfold recv_message (ms @ [m]) r = Inr (receive_all READY (ms @ [m]) r)"
    using s'(7) by (simp add: rfold_append receive_all_def)
  moreover have "val_sig_keys (receive_all READY (ms @ [m]) r) (node_id s) = Some (next_key s'')"
    using m(2) s'(5) by (simp add: receive_all_def sends_def sender_of_def key_of_def)
  moreover have "repeat_ready rt b (Suc k) s = Inr s''" using s'(1) m(1) by (simp add: repeat_ready_def rfold_append)
  ultimately show ?case
    using m(2-4) s'(2,3,5,6) g by (intro exI [of _ s''] exI [of _ "ms @ [m]"]) (simp add: sends_def)
qed


lemma turn_flooded:
  assumes "runtime_ok rt" and "awaits SEND b0 r" and "rfold recv_message ms (r\<lparr>send_this_round := []\<rparr>) = Inr (receive_all READY ms (r\<lparr>send_this_round := []\<rparr>))"
    and "\<forall>m \<in> set ms. good_msg READY b0 m" and "length ms < 2 ^ 64" and "delivery_quorum (num_faulty r) (length ms)"
  shows "\<exists>r'. node_turn rt ms r = Inr r' \<and> isConsensus r' \<and> accepted_blocks r' = accepted_blocks r @ [block_hash b0]"
proof -
  let ?r = "receive_all READY ms (r\<lparr>send_this_round := []\<rparr>)" let ?n = "?r\<lparr>should_broadcast := True\<rparr>" let ?h = "block_hash b0"
  have n: "0 < length ms" "ready_quorum (num_faulty r) (length ms)" using assms(6) by (auto simp: delivery_quorum_def ready_quorum_def)
  have c: "ready_this_round ?r = [(?h, of_nat (length ms))]"
    using receive_all_counts(2) [of ms READY b0] count_up_fresh [OF n(1), of ?h] assms(2,4) by (auto simp: awaits_def)
  have "holds_block b0 ?r" using receive_all_holds [of ms READY b0 "r\<lparr>send_this_round := []\<rparr>"] assms(2,4) n(1) by (auto simp: awaits_def)
  then have s: "same_block b0 (listed_block ?n ?h)" by (simp add: holds_block_def listed_block_def)
  have d: "device_works rt" "valid_pair ?n" using assms(1,2) by (simp_all add: runtime_ok_def awaits_def valid_pair_def)
  obtain nd1 where b: "broadcastMessage rt READY (listed_block ?n ?h) 3 ?n = Inr nd1" "same_counts ?n nd1"
    using broadcast_sends [OF d s, of READY 3] by blast
  have "rt_freed rt ?h = Inr ?h" using assms(1) by (simp add: runtime_ok_def)
  then have "\<exists>r'. ready_loop rt [(?h, of_nat (length ms))] ?n = Inr r' \<and> isConsensus r' \<and> accepted_blocks r' = accepted_blocks r @ [?h]"
    using b assms(2,5,6) n(2) by (simp add: unat_count send_ready_def awaits_def deliver_def Let_def isConsensus_def same_counts_def)
  then show ?thesis
    using assms(1,2,3) c by (simp add: node_turn_def updateRecvMessages_def broadcastRound_def Let_def awaits_def)
qed

lemma single_sender_delivers:
  assumes "runtime_ok rt" and "runtime_ok rt'" and "valid_pair s" and "\<not> block_mutable b" and "awaits SEND b r"
    and "val_sig_keys r (node_id s) \<in> {None, Some (next_key s)}" and "2 * unat (num_faulty r) + 1 < k" and "k < 2 ^ 64"
  shows "\<exists>s' r'. repeat_ready rt b k s = Inr s' \<and> node_turn rt' (drop (length (outbox s)) (outbox s')) r = Inr r'
    \<and> isConsensus r' \<and> accepted_blocks r' = accepted_blocks r @ [block_hash b] \<and> valid_pair s' \<and> node_id s' = node_id s"
proof -
  let ?r = "r\<lparr>send_this_round := []\<rparr>"
  have d: "device_works rt" "same_block b b" "admits b ?r" "val_sig_keys ?r (node_id s) \<in> {None, Some (next_key s)}"
    using assms(1,4-6) by (simp_all add: runtime_ok_def same_block_def awaits_def admits_def)
  obtain s' ms where s: "repeat_ready rt b k s = Inr s'" "outbox s' = outbox s @ ms" "length ms = k"
    "\<forall>m \<in> set ms. good_msg READY b m" "rfold recv_message ms ?r = Inr (receive_all READY ms ?r)" "valid_pair s'" "node_id s' = node_id s"
    using repeated_ready_counts [OF d(1) assms(3) d(2-4), of k] by blast
  then show ?thesis
    using turn_flooded [OF assms(2,5) s(5,4)] assms(7,8) by (auto simp: delivery_quorum_def)
qed

section \<open>Example\<close>

definition fresh_node :: "u16 \<Rightarrow> Node" where
  "fresh_node i = (demo_node 0)\<lparr>node_id := i, num_nodes := 2, num_faulty := 0, blk_list := Map.empty, ready_this_round := [],
     node_utxolist := [UTXO 1 0 (Output 5 4)], node_wallet_ids := [7, 8]\<rparr>"

lemma demo_block_writable: "block_writable demo_block"
  by (simp add: block_writable_def example_spend_def key_writable_def)

lemma demo_runtime_ok: "runtime_ok demo_runtime"
  by (simp add: runtime_ok_def)

lemma fresh_node_awaits: "awaits SEND demo_block (fresh_node i)"
proof -
  have "verify demo_block [UTXO 1 0 (Output 5 4)] [7, 8]" using example_spend_checked verify_iff [of demo_block] by simp
  then show ?thesis using demo_key_pair by (simp add: awaits_def admits_def keeps_block_def valid_pair_def fresh_node_def demo_node_def)
qed

text \<open>Another block with the same transactions.\<close>

definition demo_fork :: Block where
  "demo_fork = demo_block\<lparr>block_header := (block_header demo_block)\<lparr>prevBlockDigest := ''fork''\<rparr>\<rparr>"

lemma fork_awaits: "awaits SEND demo_fork (fresh_node i)"
proof -
  have "txs demo_fork = [example_spend]" "block_inputs demo_fork = [Input 1 0]" by (simp_all add: demo_fork_def block_inputs_def example_spend_def)
  then have "verify demo_fork [UTXO 1 0 (Output 5 4)] [7, 8]" using example_spend_checked verify_iff [of demo_fork] by simp
  then show ?thesis using demo_key_pair by (simp add: awaits_def admits_def keeps_block_def valid_pair_def fresh_node_def demo_node_def)
qed

lemma fresh_network: "network_ok SEND demo_block [] [fresh_node 0, fresh_node 1]"
  using fresh_node_awaits by (simp add: network_ok_def in_sync_def) (simp add: fresh_node_def demo_node_def)

section \<open>Properties of the network\<close>





end
