(* ===== verification/Network_Runs.thy ===== *)
theory Network_Runs
  imports Network
begin


section \<open>What a turn leaves alone\<close>

definition untouched :: "string \<Rightarrow> Node \<Rightarrow> Node \<Rightarrow> bool" where
  "untouched h nd nd' \<longleftrightarrow> node_blocks nd' h = node_blocks nd h \<and> blk_list nd' h = blk_list nd h \<and> (h \<in> ready_sent nd' \<longleftrightarrow> h \<in> ready_sent nd)"

lemma untouched_refl [simp]: "untouched h nd nd"
  by (simp add: untouched_def)

lemma untouched_trans: "untouched h a b \<Longrightarrow> untouched h b c \<Longrightarrow> untouched h a c"
  by (simp add: untouched_def)

definition same_blocks :: "Node \<Rightarrow> Node \<Rightarrow> bool" where
  "same_blocks nd nd' \<longleftrightarrow> node_blocks nd' = node_blocks nd \<and> blk_list nd' = blk_list nd
     \<and> node_id nd' = node_id nd \<and> num_nodes nd' = num_nodes nd \<and> num_faulty nd' = num_faulty nd"

lemma send_ready_blocks: "send_ready rt h rnd nd = Inr nd' \<Longrightarrow> same_blocks nd nd' \<and> ready_sent nd' = insert h (ready_sent nd) \<and> ready_this_round nd' = ready_this_round nd"
  by (auto simp: send_ready_def same_blocks_def dest!: broadcastMessage_Inr)

lemma echo_rounds_blocks:
  "rfold (echo_round rt) hks nd = Inr nd' \<Longrightarrow> same_blocks nd nd' \<and> ready_sent nd \<subseteq> ready_sent nd'
     \<and> ready_sent nd' \<subseteq> ready_sent nd \<union> fst ` set hks \<and> ready_this_round nd' = ready_this_round nd"
proof (induction hks arbitrary: nd)
  case (Cons hk hks)
  obtain h k where hk: "hk = (h, k)" by (cases hk)
  obtain nd1 where e: "echo_round rt hk nd = Inr nd1" "rfold (echo_round rt) hks nd1 = Inr nd'" using Cons.prems by auto
  have "same_blocks nd nd1 \<and> ready_sent nd \<subseteq> ready_sent nd1 \<and> ready_sent nd1 \<subseteq> insert h (ready_sent nd) \<and> ready_this_round nd1 = ready_this_round nd"
    using e(1) by (auto simp: hk echo_round_def same_blocks_def split: if_splits dest!: send_ready_blocks)
  then show ?case using Cons.IH [OF e(2)] hk by (auto simp: same_blocks_def)
qed (simp add: same_blocks_def)

lemma ready_loop_blocks:
  "ready_loop rt hks nd = Inr nd' \<Longrightarrow> same_blocks nd nd' \<and> ready_sent nd \<subseteq> ready_sent nd' \<and> ready_sent nd' \<subseteq> ready_sent nd \<union> fst ` set hks"
proof (induction rt hks nd rule: ready_loop.induct)
  case (2 rt h k l nd)
  let ?c = "if ready_quorum (num_faulty nd) (unat k) \<and> h \<notin> ready_sent nd then send_ready rt h 3 nd else Inr nd"
  obtain nd1 where r: "?c = Inr nd1" "(if delivery_quorum (num_faulty nd1) (unat k) then deliver rt h nd1 else ready_loop rt l nd1) = Inr nd'"
    using "2.prems" by (auto simp del: split_paired_Ex)
  have "same_blocks nd nd1 \<and> ready_sent nd \<subseteq> ready_sent nd1 \<and> ready_sent nd1 \<subseteq> insert h (ready_sent nd)"
    using r(1) by (auto simp: same_blocks_def split: if_splits dest!: send_ready_blocks)
  moreover have "same_blocks nd1 nd' \<and> ready_sent nd1 \<subseteq> ready_sent nd' \<and> ready_sent nd' \<subseteq> ready_sent nd1 \<union> fst ` set l"
  proof (cases "delivery_quorum (num_faulty nd1) (unat k)")
    case True
    then show ?thesis using r(2) by (auto simp: deliver_def Let_def same_blocks_def)
  next
    case False
    then show ?thesis using r(2) "2.IH" [OF r(1)] by simp
  qed
  ultimately show ?case by (auto simp: same_blocks_def)
qed (simp add: same_blocks_def)

lemma broadcastRound_blocks:
  assumes "runtime_ok rt" and "broadcastRound rt nd = Inr nd'"
  shows "same_blocks nd nd' \<and> ready_sent nd \<subseteq> ready_sent nd'
    \<and> ready_sent nd' \<subseteq> ready_sent nd \<union> (fst ` set (echo_this_round nd) \<union> fst ` set (ready_this_round nd))"
proof -
  have o: "set (rt_order rt l) = set l" for l using assms(1) mset_eq_setD by (auto simp: runtime_ok_def)
  obtain nd1 nd2 where r: "(if send_this_round (nd\<lparr>should_broadcast := True\<rparr>) \<noteq> []
            then rbind (broadcastMessage rt ECHO (listed_block (nd\<lparr>should_broadcast := True\<rparr>) (send_this_round (nd\<lparr>should_broadcast := True\<rparr>))) 1 (nd\<lparr>should_broadcast := True\<rparr>))
                   (\<lambda>nd. Inr (nd\<lparr>send_this_round := []\<rparr>)) else Inr (nd\<lparr>should_broadcast := True\<rparr>)) = Inr nd1"
    "rfold (echo_round rt) (rt_order rt (echo_this_round nd1)) nd1 = Inr nd2" "ready_loop rt (rt_order rt (ready_this_round nd2)) nd2 = Inr nd'"
    using assms(2) unfolding broadcastRound_def Let_def by (auto simp del: split_paired_Ex)
  have "same_blocks nd nd1 \<and> ready_sent nd1 = ready_sent nd \<and> echo_this_round nd1 = echo_this_round nd \<and> ready_this_round nd1 = ready_this_round nd"
    using r(1) by (auto simp: same_blocks_def split: if_splits dest!: broadcastMessage_Inr)
  then show ?thesis using echo_rounds_blocks [OF r(2)] ready_loop_blocks [OF r(3)] by (auto simp: same_blocks_def o)
qed

definition sigs_of :: "Block \<Rightarrow> Node \<Rightarrow> nat" where
  "sigs_of b0 nd = (case node_blocks nd (block_hash b0) of None \<Rightarrow> 0 | Some b \<Rightarrow> length (validatorSigs b))"

text \<open>The signatures kept for the block have grown by at least \<open>k\<close>; nothing is recorded for other blocks, and the node is configured as before.\<close>

definition progress :: "Block \<Rightarrow> nat \<Rightarrow> Node \<Rightarrow> Node \<Rightarrow> bool" where
  "progress b0 k nd nd' \<longleftrightarrow> node_id nd' = node_id nd \<and> num_nodes nd' = num_nodes nd \<and> num_faulty nd' = num_faulty nd
     \<and> sigs_of b0 nd + k \<le> sigs_of b0 nd' \<and> (\<forall>h. h \<noteq> block_hash b0 \<longrightarrow> untouched h nd nd')"

lemma progress_trans: "progress b0 j a b \<Longrightarrow> progress b0 k b c \<Longrightarrow> progress b0 (j + k) a c"
  by (auto simp: progress_def intro: untouched_trans)

lemma received_progress:
  assumes "good_msg t b0 m"
  shows "progress b0 1 nd (received t m nd)"
proof -
  have h: "block_hash (msg_block m) = block_hash b0" using assms same_block_hash by (auto simp: good_msg_def)
  obtain sig where s: "node_blocks (received t m nd) = (node_blocks nd)(block_hash b0 \<mapsto>
     addValidatorSignature sig (case node_blocks nd (block_hash b0) of None \<Rightarrow> msg_block m | Some b \<Rightarrow> b))"
    using received_stores [of t m nd] unfolding h by blast
  then show ?thesis
    by (auto simp: progress_def sigs_of_def untouched_def addValidatorSignature_def h split: option.split)
qed

lemma receive_all_progress:
  "(\<And>m. m \<in> set ms \<Longrightarrow> good_msg t b0 m) \<Longrightarrow> progress b0 (length ms) nd (receive_all t ms nd)"
proof (induction ms arbitrary: nd)
  case (Cons m ms)
  then have "progress b0 1 nd (received t m nd)" "progress b0 (length ms) (received t m nd) (receive_all t ms (received t m nd))"
    using received_progress [of t b0 m nd] by simp_all
  then show ?case using progress_trans by fastforce
qed (simp add: progress_def)

lemma turn_progress:
  assumes "runtime_ok rt" and "awaits t b0 nd" and "\<And>m. m \<in> set ms \<Longrightarrow> trusts nd m \<and> good_msg t b0 m" and "distinct (map sender_of ms)"
    and "node_turn rt ms nd = Inr nd'"
  shows "progress b0 (length ms) nd nd'"
proof -
  let ?nd = "receive_all t ms (nd\<lparr>send_this_round := []\<rparr>)"
  have g: "good_msg t b0 m" if "m \<in> set ms" for m using assms(3) that by blast
  have r: "broadcastRound rt ?nd = Inr nd'"
    using updateRecv_all [OF assms(3,4)] assms(2,5) by (simp add: node_turn_def awaits_def)
  have "fst ` set ((count_up (block_hash b0) ^^ n) l) \<subseteq> insert (block_hash b0) (fst ` set l)" for n l
  proof (induction n)
    case (Suc n)
    have "fst ` set (count_up h l) = insert h (fst ` set l)" for h l by (induction h l rule: count_up.induct) auto
    then show ?case using Suc by auto
  qed auto
  then have c: "fst ` set (echo_this_round ?nd) \<subseteq> {block_hash b0}" "fst ` set (ready_this_round ?nd) \<subseteq> {block_hash b0}"
    using receive_all_counts(1,2) [OF g] assms(2) by (cases t; fastforce simp: awaits_def)+
  note b = broadcastRound_blocks [OF assms(1) r]
  have "progress b0 (length ms) (nd\<lparr>send_this_round := []\<rparr>) ?nd" by (rule receive_all_progress [OF g])
  moreover have "h \<in> ready_sent nd' \<longleftrightarrow> h \<in> ready_sent nd" if "h \<noteq> block_hash b0" for h
  proof -
    have sent: "ready_sent ?nd = ready_sent nd" by simp
    have "ready_sent nd \<subseteq> ready_sent nd'" "ready_sent nd' \<subseteq> insert (block_hash b0) (ready_sent nd)" using b c unfolding sent by blast+
    then show ?thesis using that by blast
  qed
  ultimately show ?thesis using b by (simp add: progress_def sigs_of_def untouched_def same_blocks_def)
qed

section \<open>A block from its proposal to its delivery\<close>

lemma network_round_turns:
  assumes "network_round rts arrival sent nodes = Inr (nodes', sent')" and "rmap transmit sent = Inr msgs" and "i < length nodes"
  shows "node_turn (rts i) (arrival i msgs) (nodes ! i) = Inr (nodes' ! i)"
proof -
  have "rmap (\<lambda>i. node_turn (rts i) (arrival i msgs) (nodes ! i)) [0..<length nodes] = Inr nodes'"
    using assms(1,2) by (auto simp: network_round_def)
  from rmap_list_all2 [OF this] show ?thesis using assms(3) by (auto simp: list_all2_conv_all_nth)
qed

lemma round_progress:
  assumes "network_ok t b0 batch nodes" and "shuffles arrival" and "\<And>i. runtime_ok (rts i)" and "block_writable b0"
    and "network_round rts arrival batch nodes = Inr (nodes', sent')" and "i < length nodes"
  shows "progress b0 (length batch) (nodes ! i) (nodes' ! i)"
proof -
  have nd: "nodes ! i \<in> set nodes" using assms(6) by simp
  have "rmap transmit batch = Inr (map strip batch)"
    using assms(1,4) transmit_good by (intro rmap_all_Inr) (auto simp: network_ok_def)
  note t = network_round_turns [OF assms(5) this assms(6)] and b = batch_received [OF assms(1,2) nd, where i = i]
  have "awaits t b0 (nodes ! i)" using assms(1) nd by (simp add: network_ok_def)
  from turn_progress [OF assms(3) this b(1,2) t] show ?thesis using b(3) by simp
qed

lemma proposal_progress: "Propose rt b nd = Inr nd' \<Longrightarrow> progress b 0 nd nd'"
  by (auto simp: Propose_def progress_def sigs_of_def untouched_def dest!: broadcastMessage_Inr)

lemma block_cycle:
  assumes "network_ok SEND b [] nodes" and "l < length nodes" and "\<not> block_mutable b" and "block_writable b"
    and "\<And>i. runtime_ok (rts i)" and "shuffles arrival" and "length nodes < 2 ^ 64"
    and "\<And>nd. nd \<in> set nodes \<Longrightarrow> echo_quorum (num_nodes nd) (num_faulty nd) (length nodes) \<and> delivery_quorum (num_faulty nd) (length nodes)"
  shows "\<exists>ld nodes'. Propose (rts l) b (nodes ! l) = Inr ld
    \<and> network_run rts arrival 3 (drop (length (outbox (nodes ! l))) (outbox ld)) (nodes[l := ld]) = Inr (nodes', [])
    \<and> length nodes' = length nodes \<and> at_rest nodes'
    \<and> (\<forall>i < length nodes. block_delivered b (nodes ! i) (nodes' ! i) \<and> progress b (2 * length nodes + 1) (nodes ! i) (nodes' ! i))"
proof -
  let ?n = "length nodes"
  obtain ld m n1 b1 n2 b2 where r: "Propose (rts l) b (nodes ! l) = Inr ld" "outbox ld = outbox (nodes ! l) @ [m]"
    "network_ok SEND b [m] (nodes[l := ld])" "network_round rts arrival [m] (nodes[l := ld]) = Inr (n1, b1)" "network_ok ECHO b b1 n1" "length b1 = ?n"
    "network_round rts arrival b1 n1 = Inr (n2, b2)" "network_ok READY b b2 n2" "length b2 = ?n" "length n1 = ?n" "length n2 = ?n"
    "\<forall>i < ?n. same_setup (nodes ! i) (n2 ! i)"
    using network_states [where rts = rts and nodes = nodes, OF assms(1-7)] assms(8) by blast
  have "delivery_quorum (num_faulty nd) (length b2)" if nd: "nd \<in> set n2" for nd
  proof -
    obtain i where i: "i < ?n" "nd = n2 ! i" using nd r(11) by (auto simp: in_set_conv_nth)
    then show ?thesis using r(9,12) assms(8) [OF nth_mem [OF i(1)]] by (simp add: same_setup_def)
  qed
  then obtain n3 where n3: "network_round rts arrival b2 n2 = Inr (n3, [])" "length n3 = ?n" "at_rest n3" "\<forall>i < ?n. block_delivered b (n2 ! i) (n3 ! i)"
    using network_final [where rts = rts, OF r(8) assms(6,5,4)] r(9,11) assms(7) by auto
  have "progress b (2 * ?n + 1) (nodes ! i) (n3 ! i)" if i: "i < ?n" for i
  proof -
    have "progress b 0 (nodes ! i) (nodes[l := ld] ! i)"
      using proposal_progress [OF r(1)] i by (cases "i = l") (auto simp: progress_def)
    moreover have "progress b 1 (nodes[l := ld] ! i) (n1 ! i)" using round_progress [where rts = rts, OF r(3) assms(6,5,4) r(4)] i by simp
    moreover have "progress b ?n (n1 ! i) (n2 ! i)" using round_progress [where rts = rts, OF r(5) assms(6,5,4) r(7)] i r(6,10) by simp
    moreover have "progress b ?n (n2 ! i) (n3 ! i)" using round_progress [where rts = rts, OF r(8) assms(6,5,4) n3(1)] i r(9,11) by simp
    ultimately have "progress b (0 + 1 + ?n + ?n) (nodes ! i) (n3 ! i)" by (blast intro: progress_trans)
    then show ?thesis by (simp add: mult_2)
  qed
  moreover have "block_delivered b (nodes ! i) (n3 ! i)" if "i < ?n" for i using that n3(4) r(12) by (simp add: block_delivered_def same_setup_def)
  moreover have "network_run rts arrival 3 [m] (nodes[l := ld]) = Inr (n3, [])" using r(4,7) n3(1) by (simp add: eval_nat_numeral)
  ultimately show ?thesis using r(1,2) n3(2,3) by (intro exI [of _ ld] exI [of _ n3]) simp
qed

section \<open>Blocks in sequence\<close>

text \<open>
  One block: every node is given the coins the block is judged by and starts the protocol; node \<open>l\<close> proposes, and the messages
  of the three rounds are exchanged.
\<close>

definition start_run :: "UTXOlist \<Rightarrow> u32 list \<Rightarrow> Node list \<Rightarrow> Node list" where
  "start_run utxolist ids nodes = map (\<lambda>nd. (node_setUTXOlists utxolist ids nd)\<lparr>should_broadcast := True\<rparr>) nodes"

definition propose_run :: "(nat \<Rightarrow> runtime) \<Rightarrow> (nat \<Rightarrow> Message list \<Rightarrow> Message list) \<Rightarrow> nat \<Rightarrow> Block \<Rightarrow> Node list \<Rightarrow> Node list res" where
  "propose_run rts arrival l b nodes = rbind (Propose (rts l) b (nodes ! l)) (\<lambda>ld.
     rbind (network_run rts arrival 3 (drop (length (outbox (nodes ! l))) (outbox ld)) (nodes[l := ld])) (\<lambda>(nodes, _). Inr nodes))"

definition consensus_run :: "(nat \<Rightarrow> runtime) \<Rightarrow> (nat \<Rightarrow> Message list \<Rightarrow> Message list) \<Rightarrow> nat \<Rightarrow> UTXOlist \<times> u32 list \<times> Block \<Rightarrow> Node list
    \<Rightarrow> Node list res" where
  "consensus_run rts arrival l run nodes = (case run of (utxolist, ids, b) \<Rightarrow> propose_run rts arrival l b (start_run utxolist ids nodes))"

text \<open>What a run needs of its block, of the size of the network, and of what the nodes remember.\<close>

definition run_ok :: "UTXOlist \<times> u32 list \<times> Block \<Rightarrow> bool" where
  "run_ok run \<longleftrightarrow> (case run of (utxolist, ids, b) \<Rightarrow> \<not> block_mutable b \<and> block_writable b \<and> verify b utxolist ids)"

definition quorate :: "Node list \<Rightarrow> bool" where
  "quorate nodes \<longleftrightarrow> (\<forall>nd \<in> set nodes. unat (num_nodes nd) = length nodes \<and> 2 * unat (num_faulty nd) + 1 < length nodes)"

definition unknown :: "string \<Rightarrow> Node \<Rightarrow> bool" where
  "unknown h nd \<longleftrightarrow> blk_list nd h = None \<and> node_blocks nd h = None \<and> h \<notin> ready_sent nd"

abbreviation run_block :: "UTXOlist \<times> u32 list \<times> Block \<Rightarrow> Block" where
  "run_block run \<equiv> snd (snd run)"

lemma untouched_unknown: "untouched h nd nd' \<Longrightarrow> unknown h nd' = unknown h nd"
  by (auto simp: untouched_def unknown_def)

text \<open>What a node keeps of a block it has accepted.\<close>

definition kept :: "nat \<Rightarrow> Block \<Rightarrow> Node \<Rightarrow> bool" where
  "kept k b nd \<longleftrightarrow> same_block b (getReceivedBlock (block_hash b) nd) \<and> k \<le> length (validatorSigs (getReceivedBlock (block_hash b) nd))"

lemma untouched_kept: "untouched (block_hash b) nd nd' \<Longrightarrow> kept k b nd' = kept k b nd"
  by (simp add: untouched_def kept_def getReceivedBlock_def)

lemma at_rest_map:
  assumes "\<And>nd. node_id (f nd) = node_id nd \<and> valid_pair (f nd) = valid_pair nd \<and> next_key (f nd) = next_key nd
     \<and> echo_this_round (f nd) = echo_this_round nd \<and> ready_this_round (f nd) = ready_this_round nd \<and> val_sig_keys (f nd) = val_sig_keys nd"
  shows "at_rest (map f nodes) = at_rest nodes"
  using assms by (simp add: at_rest_def comp_def)

lemma consensus_run_delivers:
  assumes "at_rest nodes" and "quorate nodes" and "l < length nodes" and "run_ok run" and "\<And>i. runtime_ok (rts i)" and "shuffles arrival"
    and "\<forall>nd \<in> set nodes. unknown (block_hash (run_block run)) nd"
  shows "\<exists>nodes'. consensus_run rts arrival l run nodes = Inr nodes' \<and> length nodes' = length nodes \<and> at_rest nodes' \<and> quorate nodes'
    \<and> (\<forall>i < length nodes. block_delivered (run_block run) (nodes ! i) (nodes' ! i) \<and> kept (2 * length nodes + 1) (run_block run) (nodes' ! i)
         \<and> (\<forall>h. h \<noteq> block_hash (run_block run) \<longrightarrow> untouched h (nodes ! i) (nodes' ! i)))"
proof -
  obtain utxolist ids b where run: "run = (utxolist, ids, b)" by (cases run)
  let ?f = "\<lambda>nd. (node_setUTXOlists utxolist ids nd)\<lparr>should_broadcast := True\<rparr>" let ?nodes = "map ?f nodes" let ?n = "length nodes"
  have rest: "at_rest ?nodes" using assms(1) by (subst at_rest_map) (simp_all add: node_setUTXOlists_def valid_pair_def next_key_def)
  have ok: "network_ok SEND b [] ?nodes"
    using assms(4,7) run by (intro at_rest_ready [OF rest]) (auto simp: run_ok_def unknown_def node_setUTXOlists_def)
  have q: "echo_quorum (num_nodes nd) (num_faulty nd) (length ?nodes) \<and> delivery_quorum (num_faulty nd) (length ?nodes)" if "nd \<in> set ?nodes" for nd
    using that assms(2) by (fastforce simp: quorate_def echo_quorum_def delivery_quorum_def node_setUTXOlists_def)
  have "unat (num_nodes (nodes ! l)) < 65536" using unsigned_less [of "num_nodes (nodes ! l)"] by simp
  then have n: "length ?nodes < 2 ^ 64" using assms(2,3) by (simp add: quorate_def)
  have b: "\<not> block_mutable b" "block_writable b" "l < length ?nodes" using assms(3,4) run by (simp_all add: run_ok_def)
  obtain ld nodes' where r: "Propose (rts l) b (?nodes ! l) = Inr ld"
    "network_run rts arrival 3 (drop (length (outbox (?nodes ! l))) (outbox ld)) (?nodes[l := ld]) = Inr (nodes', [])"
    "length nodes' = ?n" "at_rest nodes'" "\<forall>i < ?n. block_delivered b (?nodes ! i) (nodes' ! i) \<and> progress b (2 * ?n + 1) (?nodes ! i) (nodes' ! i)"
    using block_cycle [where rts = rts, OF ok b(3,1,2) assms(5,6) n q] by auto
  have "consensus_run rts arrival l run nodes = Inr nodes'" using r(1,2) run by (simp add: consensus_run_def propose_run_def start_run_def)
  moreover have "block_delivered b (nodes ! i) (nodes' ! i)" "kept (2 * ?n + 1) b (nodes' ! i)" "h \<noteq> block_hash b \<Longrightarrow> untouched h (nodes ! i) (nodes' ! i)"
    "num_nodes (nodes' ! i) = num_nodes (nodes ! i)" "num_faulty (nodes' ! i) = num_faulty (nodes ! i)" if i: "i < ?n" for i h
  proof -
    have p: "block_delivered b (?nodes ! i) (nodes' ! i)" "progress b (2 * ?n + 1) (?nodes ! i) (nodes' ! i)" using r(5) i by blast+
    show "block_delivered b (nodes ! i) (nodes' ! i)" using p(1) i by (simp add: block_delivered_def node_setUTXOlists_def)
    show "kept (2 * ?n + 1) b (nodes' ! i)"
      using p by (auto simp: kept_def block_delivered_def progress_def sigs_of_def getReceivedBlock_def split: option.splits)
    show "h \<noteq> block_hash b \<Longrightarrow> untouched h (nodes ! i) (nodes' ! i)" "num_nodes (nodes' ! i) = num_nodes (nodes ! i)" "num_faulty (nodes' ! i) = num_faulty (nodes ! i)"
      using p(2) i by (auto simp: progress_def untouched_def node_setUTXOlists_def)
  qed
  moreover have "quorate nodes'" using assms(2) r(3) calculation(5,6) unfolding quorate_def all_set_conv_all_nth by simp
  ultimately show ?thesis using r(3,4) run by simp
qed

lemma consensus_runs_deliver:
  assumes "at_rest nodes" and "quorate nodes" and "l < length nodes" and "\<forall>run \<in> set rs. run_ok run" and "\<And>i. runtime_ok (rts i)" and "shuffles arrival"
    and "distinct (map (\<lambda>run. block_hash (run_block run)) rs)" and "\<forall>nd \<in> set nodes. \<forall>run \<in> set rs. unknown (block_hash (run_block run)) nd"
  shows "\<exists>nodes'. rfold (consensus_run rts arrival l) rs nodes = Inr nodes' \<and> length nodes' = length nodes \<and> at_rest nodes' \<and> quorate nodes'
    \<and> (\<forall>i < length nodes. accepted_blocks (nodes' ! i) = accepted_blocks (nodes ! i) @ map (\<lambda>run. block_hash (run_block run)) rs
         \<and> (\<forall>run \<in> set rs. kept (2 * length nodes + 1) (run_block run) (nodes' ! i))
         \<and> (\<forall>h. h \<notin> (\<lambda>run. block_hash (run_block run)) ` set rs \<longrightarrow> untouched h (nodes ! i) (nodes' ! i)))"
  using assms(1-4,7,8)
proof (induction rs arbitrary: nodes)
  case (Cons run rs)
  let ?h = "block_hash (run_block run)" and ?hs = "(\<lambda>run. block_hash (run_block run)) ` set rs"
  have "\<forall>nd \<in> set nodes. unknown ?h nd" "run_ok run" using Cons.prems(4,6) by simp_all
  from consensus_run_delivers [where rts = rts, OF Cons.prems(1-3) this(2) assms(5,6) this(1)] obtain n1 where
    n1: "consensus_run rts arrival l run nodes = Inr n1" "length n1 = length nodes" "at_rest n1" "quorate n1"
    and d: "\<And>i. i < length nodes \<Longrightarrow> block_delivered (run_block run) (nodes ! i) (n1 ! i) \<and> kept (2 * length nodes + 1) (run_block run) (n1 ! i)
         \<and> (\<forall>h. h \<noteq> ?h \<longrightarrow> untouched h (nodes ! i) (n1 ! i))" by blast
  have new: "?h \<notin> ?hs" using Cons.prems(5) by simp
  have u: "\<forall>nd \<in> set n1. \<forall>r \<in> set rs. unknown (block_hash (run_block r)) nd"
  proof (intro ballI)
    fix nd r assume nd: "nd \<in> set n1" and r: "r \<in> set rs"
    obtain i where i: "i < length nodes" "nd = n1 ! i" using nd n1(2) by (auto simp: in_set_conv_nth)
    have "block_hash (run_block r) \<in> ?hs" using r by blast
    then have "block_hash (run_block r) \<noteq> ?h" using new by metis
    then have "unknown (block_hash (run_block r)) nd = unknown (block_hash (run_block r)) (nodes ! i)" using d [OF i(1)] i(2) untouched_unknown by blast
    then show "unknown (block_hash (run_block r)) nd" using Cons.prems(6) i(1) r by simp
  qed
  have p: "l < length n1" "\<forall>r \<in> set rs. run_ok r" "distinct (map (\<lambda>run. block_hash (run_block run)) rs)" using Cons.prems(3-5) n1(2) by simp_all
  obtain n2 where n2: "rfold (consensus_run rts arrival l) rs n1 = Inr n2" "length n2 = length nodes" "at_rest n2" "quorate n2"
    and e: "\<And>i. i < length nodes \<Longrightarrow> accepted_blocks (n2 ! i) = accepted_blocks (n1 ! i) @ map (\<lambda>run. block_hash (run_block run)) rs
         \<and> (\<forall>run \<in> set rs. kept (2 * length nodes + 1) (run_block run) (n2 ! i)) \<and> (\<forall>h. h \<notin> ?hs \<longrightarrow> untouched h (n1 ! i) (n2 ! i))"
    using Cons.IH [OF n1(3,4) p u] unfolding n1(2) by blast
  have "kept (2 * length nodes + 1) (run_block run) (n2 ! i)" if i: "i < length nodes" for i
  proof -
    have "untouched ?h (n1 ! i) (n2 ! i)" using e [OF i] new by blast
    then show ?thesis using d [OF i] untouched_kept by blast
  qed
  moreover have "untouched h (nodes ! i) (n2 ! i)" if "i < length nodes" "h \<noteq> ?h" "h \<notin> ?hs" for i h
    using d [OF that(1)] e [OF that(1)] that(2,3) untouched_trans by blast
  ultimately show ?case
    using n1(1,2) n2 d e by (intro exI [of _ n2]) (auto simp: block_delivered_def)
qed simp

end
