(* ===== verification/Server.thy ===== *)
theory Server
  imports Message Interfaces
begin

text \<open>
  The class \<^verbatim>\<open>ChatServiceImpl\<close> of \<^verbatim>\<open>include/comms/server.h\<close> and \<^verbatim>\<open>lib/comms/server.cc\<close>: the call objects that
  serve the three remote procedures, each with its own state machine, and the queues they fill for
  the consensus and the validator threads. The completion queue of gRPC is the environment: it hands
  the server a call object that is registered for requests, with a request, or one whose reply has
  been sent. Accesses are serialised by the mutexes of the program, so every call is one step.
\<close>

section \<open>The class\<close>

datatype CallStatus = CREATE | START_PROCESS | FINISH

datatype CallKind = CallDataTalk | CallDataNewTx | CallDataSync

datatype reply = Ack | SyncReply "chat_UTXO list"

text \<open>
  Call objects live on the heap: \<open>calls\<close> maps the address of each to its class and status,
  \<open>next_call\<close> is the address of the next one, \<open>replies\<close> records the replies that were finished.
\<close>

record Server =
  mq :: "Message list"
  txq :: "Transaction list"
  utxolists :: "u32 \<rightharpoonup> UTXOlist"
  calls :: "nat \<rightharpoonup> CallKind \<times> CallStatus"
  next_call :: nat
  replies :: "(nat \<times> reply) list"

section \<open>The queues\<close>

text \<open>The loop that moves a queue to the end of a list.\<close>

fun move_all :: "'a list \<Rightarrow> 'a list \<Rightarrow> 'a list \<times> 'a list" where
  "move_all [] out = ([], out)"
| "move_all (x # q) out = move_all q (out @ [x])"

definition getMessages :: "Message list \<Rightarrow> Server \<Rightarrow> bool \<times> Message list \<times> Server" where
  "getMessages msg_list s =
    (if mq s = [] then (False, msg_list, s)
     else let (q, out) = move_all (mq s) msg_list in (True, out, s\<lparr>mq := q\<rparr>))"

definition newConsensusMessages :: "Server \<Rightarrow> bool" where
  "newConsensusMessages s \<longleftrightarrow> mq s \<noteq> []"

definition newRequests :: "Server \<Rightarrow> bool" where
  "newRequests s \<longleftrightarrow> txq s \<noteq> []"

definition getTransactions :: "Transaction list \<Rightarrow> Server \<Rightarrow> bool \<times> Transaction list \<times> Server" where
  "getTransactions tx_list s =
    (if txq s = [] then (False, tx_list, s)
     else let (q, out) = move_all (txq s) tx_list in (True, out, s\<lparr>txq := q\<rparr>))"

definition setUTXOlists :: "(u32 \<rightharpoonup> UTXOlist) \<Rightarrow> Server \<Rightarrow> Server" where
  "setUTXOlists m s = s\<lparr>utxolists := m\<rparr>"

definition clearUTXOlists :: "Server \<Rightarrow> Server" where
  "clearUTXOlists s = s\<lparr>utxolists := Map.empty\<rparr>"

section \<open>Call objects\<close>

text \<open>The first branch of every \<^verbatim>\<open>Proceed\<close>: the object waits for a request of its kind.\<close>

definition proceed_create :: "nat \<Rightarrow> CallKind \<Rightarrow> Server \<Rightarrow> Server" where
  "proceed_create tag k s = s\<lparr>calls := (calls s)(tag \<mapsto> (k, START_PROCESS))\<rparr>"

text \<open>\<^verbatim>\<open>new CallData...\<close>: the constructor calls \<^verbatim>\<open>Proceed\<close> once.\<close>

definition new_call :: "CallKind \<Rightarrow> Server \<Rightarrow> Server" where
  "new_call k s = proceed_create (next_call s) k
     (s\<lparr>calls := (calls s)(next_call s \<mapsto> (k, CREATE)), next_call := next_call s + 1\<rparr>)"

definition finish_reply :: "nat \<Rightarrow> CallKind \<Rightarrow> reply \<Rightarrow> Server \<Rightarrow> Server" where
  "finish_reply tag k r s = s\<lparr>replies := replies s @ [(tag, r)], calls := (calls s)(tag \<mapsto> (k, FINISH))\<rparr>"

definition delete_call :: "nat \<Rightarrow> Server \<Rightarrow> Server" where
  "delete_call tag s = s\<lparr>calls := (calls s)(tag := None)\<rparr>"

definition push_message :: "Message \<Rightarrow> Server \<Rightarrow> Server" where
  "push_message m s = s\<lparr>mq := mq s @ [m]\<rparr>"

definition push_transaction :: "Transaction \<Rightarrow> Server \<Rightarrow> Server" where
  "push_transaction t s = s\<lparr>txq := txq s @ [t]\<rparr>"

definition Proceed_Talk :: "nat \<Rightarrow> CallStatus \<Rightarrow> chat_Message \<Rightarrow> Server \<Rightarrow> Server res" where
  "Proceed_Talk tag status request s = (case status of
       CREATE \<Rightarrow> Inr (proceed_create tag CallDataTalk s)
     | START_PROCESS \<Rightarrow> rbind (Message_of_proto request) (\<lambda>message.
         Inr (finish_reply tag CallDataTalk Ack (push_message message (new_call CallDataTalk s))))
     | FINISH \<Rightarrow> Inr (delete_call tag s))"

definition Proceed_NewTx :: "nat \<Rightarrow> CallStatus \<Rightarrow> chat_Transaction \<Rightarrow> Server \<Rightarrow> Server res" where
  "Proceed_NewTx tag status request s = (case status of
       CREATE \<Rightarrow> Inr (proceed_create tag CallDataNewTx s)
     | START_PROCESS \<Rightarrow> rbind (fromProtoTransaction new_Transaction request) (\<lambda>transaction.
         Inr (finish_reply tag CallDataNewTx Ack (push_transaction transaction (new_call CallDataNewTx s))))
     | FINISH \<Rightarrow> Inr (delete_call tag s))"

definition Proceed_Sync :: "nat \<Rightarrow> CallStatus \<Rightarrow> u32 \<Rightarrow> Server \<Rightarrow> Server res" where
  "Proceed_Sync tag status wallet_id s = (case status of
       CREATE \<Rightarrow> Inr (proceed_create tag CallDataSync s)
     | START_PROCESS \<Rightarrow>
         (let s = new_call CallDataSync s;
              utxolist = (case utxolists s wallet_id of None \<Rightarrow> [] | Some l \<Rightarrow> l)
          in Inr (finish_reply tag CallDataSync (SyncReply (toProtoUTXOlist utxolist [])) s))
     | FINISH \<Rightarrow> Inr (delete_call tag s))"

text \<open>What a remote caller may send.\<close>

datatype request = TalkRequest chat_Message | NewTxRequest chat_Transaction | SyncRequest u32

definition HandleRpcs_start :: "Server \<Rightarrow> Server" where
  "HandleRpcs_start s = new_call CallDataSync (new_call CallDataNewTx (new_call CallDataTalk s))"

text \<open>
  One turn of the loop: the completion queue returns a call object, with the request it was
  registered for when it is waiting for one; \<^verbatim>\<open>Proceed\<close> of its class runs. A request of another kind
  than the object's never comes with it.
\<close>

definition HandleRpcs_turn :: "nat \<Rightarrow> request \<Rightarrow> Server \<Rightarrow> Server res" where
  "HandleRpcs_turn tag req s = (case calls s tag of
       None \<Rightarrow> Inl (Undefined_behaviour ''deleted call object'')
     | Some (k, status) \<Rightarrow> (case (k, req) of
           (CallDataTalk, TalkRequest r) \<Rightarrow> Proceed_Talk tag status r s
         | (CallDataNewTx, NewTxRequest r) \<Rightarrow> Proceed_NewTx tag status r s
         | (CallDataSync, SyncRequest r) \<Rightarrow> Proceed_Sync tag status r s
         | _ \<Rightarrow> Inl (Not_modelled ''request of another kind'')))"

section \<open>The server as a state machine\<close>

definition new_Server :: Server where
  "new_Server = \<lparr>mq = [], txq = [], utxolists = Map.empty, calls = Map.empty, next_call = 0, replies = []\<rparr>"

inductive server_step :: "Server \<Rightarrow> Server \<Rightarrow> bool" where
  turn: "HandleRpcs_turn tag req s = Inr s' \<Longrightarrow> server_step s s'"
| messages: "getMessages out s = (b, out', s') \<Longrightarrow> server_step s s'"
| transactions: "getTransactions tout s = (b, tout', s') \<Longrightarrow> server_step s s'"
| set_lists: "server_step s (setUTXOlists m s)"
| clear_lists: "server_step s (clearUTXOlists s)"

inductive_cases server_stepE: "server_step s s'"

text \<open>The objects that wait for a request of a kind.\<close>

definition listening :: "CallKind \<Rightarrow> Server \<Rightarrow> nat set" where
  "listening k s = {tag. calls s tag = Some (k, START_PROCESS)}"

definition server_ok :: "Server \<Rightarrow> bool" where
  "server_ok s \<longleftrightarrow> (\<forall>k. card (listening k s) = 1) \<and> dom (calls s) \<subseteq> {..<next_call s}
     \<and> (\<forall>tag k. calls s tag \<noteq> Some (k, CREATE))"

lemma move_all_eq [simp]: "move_all q out = ([], out @ q)"
  by (induction q out rule: move_all.induct) simp_all

lemma getMessages_eq: "getMessages out s = (mq s \<noteq> [], out @ mq s, s\<lparr>mq := []\<rparr>)"
  by (cases s) (simp add: getMessages_def)

lemma getTransactions_eq: "getTransactions out s = (txq s \<noteq> [], out @ txq s, s\<lparr>txq := []\<rparr>)"
  by (cases s) (simp add: getTransactions_def)

lemma new_call_calls: "calls (new_call k s) = (calls s)(next_call s \<mapsto> (k, START_PROCESS))"
  "next_call (new_call k s) = Suc (next_call s)"
  by (simp_all add: new_call_def proceed_create_def)

lemma listening_new_call:
  "dom (calls s) \<subseteq> {..<next_call s} \<Longrightarrow>
   listening k (new_call k' s) = (if k = k' then insert (next_call s) (listening k s) else listening k s)"
  by (auto simp: listening_def new_call_calls dom_def)

text \<open>Serving a request: the object is replaced by a new one that listens, and is waiting for its reply to be sent.\<close>

lemma serve_ok:
  assumes "server_ok s" and "calls s tag = Some (k, START_PROCESS)"
    and "calls s' = ((calls s)(next_call s \<mapsto> (k, START_PROCESS)))(tag \<mapsto> (k, FINISH))" and "next_call s' = Suc (next_call s)"
  shows "server_ok s'"
proof -
  have lt: "tag < next_call s" and d: "dom (calls s) \<subseteq> {..<next_call s}" using assms by (auto simp: server_ok_def)
  have "card (listening j s') = 1" for j
  proof (cases "j = k")
    case True
    have "tag \<in> listening k s" using assms(2) by (simp add: listening_def)
    moreover have "card (listening k s) = 1" using assms(1) by (simp add: server_ok_def)
    ultimately have l: "listening k s = {tag}" by (metis card_1_singletonE singletonD)
    have "calls s' t = Some (k, START_PROCESS) \<longleftrightarrow> t = next_call s" for t
    proof (cases "t = tag \<or> t = next_call s")
      case True
      then show ?thesis using assms(3) lt by auto
    next
      case False
      then have "t \<notin> listening k s" using l by simp
      then show ?thesis using assms(3) False by (simp add: listening_def)
    qed
    then have "listening k s' = {next_call s}" by (simp add: listening_def)
    then show ?thesis using True by simp
  next
    case False
    then have "listening j s' = listening j s" using assms(2,3) d by (auto simp: listening_def split: if_splits)
    then show ?thesis using assms(1) by (simp add: server_ok_def)
  qed
  moreover have "dom (calls s') \<subseteq> {..<next_call s'}" using d assms(3,4) lt by auto
  ultimately show ?thesis using assms(1,3) by (auto simp: server_ok_def)
qed

lemma delete_ok:
  assumes "server_ok s" and "calls s tag = Some (k, FINISH)"
  shows "server_ok (delete_call tag s)"
proof -
  have "listening j (delete_call tag s) = listening j s" for j
    using assms(2) by (auto simp: listening_def delete_call_def)
  then show ?thesis using assms(1) by (auto simp: server_ok_def delete_call_def)
qed

lemma turn_ok:
  assumes "HandleRpcs_turn tag req s = Inr s'" and "server_ok s"
  shows "server_ok s'"
proof -
  obtain k status where c: "calls s tag = Some (k, status)"
    using assms(1) by (cases "calls s tag") (auto simp: HandleRpcs_turn_def)
  then have "status \<noteq> CREATE" using assms(2) by (auto simp: server_ok_def)
  then consider (start) "status = START_PROCESS" | (fin) "status = FINISH" by (cases status) auto
  then show ?thesis
  proof cases
    case start
    then have "calls s' = ((calls s)(next_call s \<mapsto> (k, START_PROCESS)))(tag \<mapsto> (k, FINISH)) \<and> next_call s' = Suc (next_call s)"
      using assms(1) c by (auto simp: HandleRpcs_turn_def Proceed_Talk_def Proceed_NewTx_def Proceed_Sync_def Let_def
          finish_reply_def push_message_def push_transaction_def new_call_calls split: CallKind.splits request.splits)
    then show ?thesis using serve_ok [OF assms(2)] c start by blast
  next
    case fin
    then have "s' = delete_call tag s"
      using assms(1) c by (auto simp: HandleRpcs_turn_def Proceed_Talk_def Proceed_NewTx_def Proceed_Sync_def
          split: CallKind.splits request.splits)
    then show ?thesis using delete_ok [OF assms(2)] c fin by blast
  qed
qed

lemma server_ok_queues [simp]:
  "server_ok (s\<lparr>mq := q\<rparr>) = server_ok s" "server_ok (s\<lparr>txq := t\<rparr>) = server_ok s"
  "server_ok (s\<lparr>utxolists := m\<rparr>) = server_ok s"
  by (simp_all add: server_ok_def listening_def)

lemma start_ok: "server_ok (HandleRpcs_start new_Server)"
proof -
  have "listening k (HandleRpcs_start new_Server) = {case k of CallDataTalk \<Rightarrow> 0 | CallDataNewTx \<Rightarrow> 1 | CallDataSync \<Rightarrow> 2}" for k
    by (cases k) (auto simp: listening_def HandleRpcs_start_def new_call_calls new_Server_def split: if_splits)
  then show ?thesis
    by (auto simp: server_ok_def HandleRpcs_start_def new_call_calls new_Server_def split: if_splits)
qed

interpretation server: invariant_system "\<lambda>s. s = HandleRpcs_start new_Server" server_step server_ok
proof
  fix s s' assume "server_step s s'" and "server_ok s"
  then show "server_ok s'"
    by (cases rule: server_stepE)
      (auto simp: getMessages_eq getTransactions_eq setUTXOlists_def clearUTXOlists_def dest: turn_ok)
qed (simp add: start_ok)

interpretation message_queue: fifo mq push_message "\<lambda>s. snd (getMessages [] s)"
  by unfold_locales (simp_all add: push_message_def getMessages_eq)

interpretation transaction_queue: fifo txq push_transaction "\<lambda>s. snd (getTransactions [] s)"
  by unfold_locales (simp_all add: push_transaction_def getTransactions_eq)

section \<open>Properties of the server\<close>

text \<open>
  C24. The server never stops listening: in every state it reaches, whatever requests arrive, in which
  order replies are sent and whenever the queues are emptied, exactly one call object waits for each
  of the three kinds of request, and no object is used after it was deleted.
\<close>

theorem server_always_listening:
  assumes "server_step\<^sup>*\<^sup>* (HandleRpcs_start new_Server) s"
  shows "\<exists>!tag. calls s tag = Some (k, START_PROCESS)"
proof -
  have "card (listening k s) = 1" using server.reachable_inv [OF refl assms] by (simp add: server_ok_def)
  then obtain tag where "listening k s = {tag}" by (rule card_1_singletonE)
  then have "calls s t = Some (k, START_PROCESS) \<longleftrightarrow> t = tag" for t unfolding listening_def by blast
  then show ?thesis by simp
qed

theorem server_always_listening_witness:
  "\<exists>!tag. calls (setUTXOlists [5 \<mapsto> []] (HandleRpcs_start new_Server)) tag = Some (CallDataSync, START_PROCESS)"
  by (rule server_always_listening, rule r_into_rtranclp, rule server_step.set_lists)

text \<open>
  No message is lost, duplicated or reordered between the network and the consensus thread: over
  any sequence of arrivals and of calls of \<^verbatim>\<open>getMessages\<close>, the messages returned so far, followed by
  those still queued, are the messages that arrived, in order. The same holds for transactions.
\<close>

theorem server_queues_fifo:
  "fst (run_queue push_message (\<lambda>s. snd (getMessages [] s)) ops s)
     @ mq (snd (run_queue push_message (\<lambda>s. snd (getMessages [] s)) ops s)) = mq s @ pushed ops
   \<and> fst (run_queue push_transaction (\<lambda>s. snd (getTransactions [] s)) tops s)
     @ txq (snd (run_queue push_transaction (\<lambda>s. snd (getTransactions [] s)) tops s)) = txq s @ pushed tops"
  using message_queue.run_fifo [of ops s] transaction_queue.run_fifo [of tops s] by simp

text \<open>
  A transaction sent by a wallet reaches the queue of the leader unchanged, and the wallet is
  answered: the server turns the request into the transaction the wallet converted, appends it and
  finishes the call with an acknowledgement.
\<close>

theorem new_transaction_delivered:
  assumes "key_writable (tx_public_key t)" and "toProtoTransaction t chat_Transaction_empty = Inr p"
    and "calls s tag = Some (CallDataNewTx, START_PROCESS)"
  shows "\<exists>s'. HandleRpcs_turn tag (NewTxRequest p) s = Inr s' \<and> txq s' = txq s @ [t] \<and> mq s' = mq s
            \<and> replies s' = replies s @ [(tag, Ack)]"
proof -
  have "fromProtoTransaction new_Transaction p = Inr t"
    using transaction_proto_round_trip [OF assms(1), of new_Transaction] assms(2) by (auto simp: new_Transaction_def)
  then show ?thesis
    using assms(3) by (simp add: HandleRpcs_turn_def Proceed_NewTx_def finish_reply_def push_transaction_def new_call_def proceed_create_def)
qed

theorem new_transaction_delivered_witness:
  "\<exists>p s'. toProtoTransaction example_spend chat_Transaction_empty = Inr p
     \<and> HandleRpcs_turn 1 (NewTxRequest p) (HandleRpcs_start new_Server) = Inr s' \<and> txq s' = [example_spend]"
proof -
  obtain p where p: "toProtoTransaction example_spend chat_Transaction_empty = Inr p"
    using transaction_proto_round_trip [of example_spend new_Transaction] by (auto simp: example_spend_def key_writable_def new_Transaction_def)
  have k: "key_writable (tx_public_key example_spend)" by (simp add: example_spend_def key_writable_def)
  have c: "calls (HandleRpcs_start new_Server) 1 = Some (CallDataNewTx, START_PROCESS)"
    by (simp add: HandleRpcs_start_def new_call_calls new_Server_def)
  have "txq (HandleRpcs_start new_Server) = []" by (simp add: HandleRpcs_start_def new_call_def proceed_create_def new_Server_def)
  then show ?thesis using new_transaction_delivered [OF k p c] p by auto
qed

end
