(* ===== verification/Validator.thy ===== *)
theory Validator
  imports Consensus Server "HOL-Library.Sublist"
begin

text \<open>
  The class \<^verbatim>\<open>Validator\<close> of \<^verbatim>\<open>include/cryptowallet/validator.h\<close> and \<^verbatim>\<open>lib/cryptowallet/validator.cc\<close>: the coins of
  the wallets, the memory pool, the creation of blocks from it and the update of the coins when a
  block is accepted; and the class \<^verbatim>\<open>EventHandler\<close>, through which the threads of a validator run their
  tasks. The server and the node are the models of their own theories.
\<close>

section \<open>The event handler\<close>

datatype Event = Event_NONE | SYNC | TX | PROPOSE | DBSTORE

text \<open>
  Published events, and for every event the list of subscribed tasks; \<open>executed\<close> records the tasks in
  the order they were run. Tasks are named by values of any type.
\<close>

record 'a EventHandler =
  publist :: "Event list"
  subsMap :: "Event \<Rightarrow> 'a list"
  executed :: "'a list"

definition SubscriberEvent :: "Event \<Rightarrow> 'a \<Rightarrow> 'a EventHandler \<Rightarrow> 'a EventHandler" where
  "SubscriberEvent e task h = h\<lparr>subsMap := (subsMap h)(e := subsMap h e @ [task])\<rparr>"

text \<open>
  Unsubscribing removes every task with the same owner pointer; \<open>owner\<close> gives the pointer of each. (Nothing
  in the program calls it.)
\<close>

definition releaseSubscriberEvent :: "('a \<Rightarrow> nat) \<Rightarrow> Event \<Rightarrow> 'a \<Rightarrow> 'a EventHandler \<Rightarrow> 'a EventHandler" where
  "releaseSubscriberEvent owner e task h =
     h\<lparr>subsMap := (subsMap h)(e := filter (\<lambda>t. owner t \<noteq> owner task) (subsMap h e))\<rparr>"

definition PublishEvent :: "Event \<Rightarrow> 'a EventHandler \<Rightarrow> 'a EventHandler" where
  "PublishEvent e h = h\<lparr>publist := publist h @ [e]\<rparr>"

text \<open>One turn of the handler's thread.\<close>

definition EventProcess_turn :: "'a EventHandler \<Rightarrow> 'a EventHandler" where
  "EventProcess_turn h = (case publist h of
       [] \<Rightarrow> h
     | e # rest \<Rightarrow> h\<lparr>publist := rest, executed := executed h @ subsMap h e\<rparr>)"

definition runInLoop :: "Event \<Rightarrow> 'a \<Rightarrow> 'a EventHandler \<Rightarrow> 'a EventHandler" where
  "runInLoop e task h = SubscriberEvent e task (PublishEvent e h)"

section \<open>The class\<close>

record Validator =
  wallets_ids :: "u32 list"
  pk_sets :: "u32 \<rightharpoonup> SigKey"
  utxo_sets :: "u32 \<rightharpoonup> UTXOlist"
  memory_pool :: "Transaction list"
  blist :: "Block list"

text \<open>\<^verbatim>\<open>utxo_sets_[id]\<close>: the list, and the validator with the list created when it was missing.\<close>

definition coins_of :: "Validator \<Rightarrow> u32 \<Rightarrow> UTXOlist" where
  "coins_of v w = (case utxo_sets v w of None \<Rightarrow> [] | Some l \<Rightarrow> l)"

definition touch_coins :: "u32 \<Rightarrow> Validator \<Rightarrow> Validator" where
  "touch_coins w v = v\<lparr>utxo_sets := (utxo_sets v)(w \<mapsto> coins_of v w)\<rparr>"

fun initial_coins :: "u32 list \<Rightarrow> u64 \<Rightarrow> u32 \<Rightarrow> Validator \<Rightarrow> UTXOlist \<Rightarrow> Validator \<times> UTXOlist" where
  "initial_coins [] coins initTX_id v l = (v, l)"
| "initial_coins (w # ids) coins initTX_id v l =
     (let utxo = UTXO initTX_id 0 (Output coins w) in
      initial_coins ids coins (initTX_id + 1)
        (v\<lparr>utxo_sets := (utxo_sets v)(w \<mapsto> utxolist_add (coins_of v w) utxo)\<rparr>) (utxolist_add l utxo))"

definition InitializeCoins :: "u64 \<Rightarrow> Validator \<times> Server \<times> Node \<Rightarrow> Validator \<times> Server \<times> Node" where
  "InitializeCoins coins s = (case s of (v, srv, nd) \<Rightarrow>
     let (v, init_utxolist) = initial_coins (wallets_ids v) coins 0 v [] in
     (v, setUTXOlists (utxo_sets v) srv, node_setUTXOlists init_utxolist (wallets_ids v) nd))"

section \<open>Transactions\<close>

definition UpdateKeys :: "u32 \<Rightarrow> Transaction \<Rightarrow> Validator \<Rightarrow> Validator" where
  "UpdateKeys sender_id tx v = v\<lparr>pk_sets := (pk_sets v)(sender_id \<mapsto> tx_public_key tx)\<rparr>"

text \<open>The spending conditions are evaluated in both cases, for the log when the signature is refused.\<close>

definition OnRecvTx :: "Transaction \<Rightarrow> Validator \<Rightarrow> (int \<times> Validator) res" where
  "OnRecvTx tx v =
     (let wallet_id = ucast (senderID tx); v = UpdateKeys wallet_id tx v in
      rbind (Verify (Transaction_getDigest tx) (senderSig tx)
               (case pk_sets v wallet_id of None \<Rightarrow> no_key | Some key \<Rightarrow> key)) (\<lambda>valid.
        let v = touch_coins wallet_id v in
        if valid \<noteq> 1 \<or> \<not> checkSpendingConditions tx (coins_of v wallet_id) (wallets_ids v) then Inr (0, v)
        else Inr (1, v\<lparr>memory_pool := memory_pool v @ [tx]\<rparr>)))"

definition OnTxReply :: "Transaction list \<Rightarrow> Validator \<Rightarrow> Validator res" where
  "OnTxReply txlist v = rfold (\<lambda>tx v. rbind (OnRecvTx tx v) (\<lambda>(_, v). Inr v)) txlist v"

text \<open>
  The task of \<^verbatim>\<open>Listen\<close>, built by \<^verbatim>\<open>OnRequest\<close>: take the transactions from the server and, if there are any,
  receive them. The task holds a reference to a vector of the iteration that submitted it; \<open>alive\<close>
  says whether that iteration still lasts, and using the vector afterwards is undefined.
\<close>

definition Listen_task :: "bool \<Rightarrow> Validator \<times> Server \<Rightarrow> (Validator \<times> Server) res" where
  "Listen_task alive s = (case s of (v, srv) \<Rightarrow>
     if \<not> alive then Inl (Undefined_behaviour ''dangling reference'')
     else case getTransactions [] srv of (some, tx_list, srv) \<Rightarrow>
       if some then rbind (OnTxReply tx_list v) (\<lambda>v. Inr (v, srv)) else Inr (v, srv))"

section \<open>Blocks\<close>

text \<open>
  The loop of \<^verbatim>\<open>CreateBlk\<close>, which takes transactions from the back of the memory pool; the list is the
  pool from the back.
\<close>

fun create_loop :: "Transaction list \<Rightarrow> Block \<Rightarrow> Validator \<Rightarrow> (Block \<times> Validator) res" where
  "create_loop [] bx v = Inr (bx, v\<lparr>memory_pool := []\<rparr>)"
| "create_loop (cur_tx # pool) bx v =
     (let wallet_id = ucast (senderID cur_tx); v = touch_coins wallet_id v in
      if \<not> checkSpendingConditions cur_tx (coins_of v wallet_id) (wallets_ids v) then create_loop pool bx v
      else if \<not> verifyTxConsist bx cur_tx then create_loop pool bx v
      else rbind (addTransaction cur_tx bx) (\<lambda>bx. create_loop pool bx v))"

definition CreateBlk :: "bool \<Rightarrow> Block \<Rightarrow> Validator \<Rightarrow> (int \<times> Block \<times> Validator) res" where
  "CreateBlk leader bx v =
    (if \<not> leader then Inl (Assertion_failed ''isLeader'')
     else if memory_pool v = [] then Inr (0, bx, v)
     else rbind (create_loop (rev (memory_pool v)) bx v) (\<lambda>(bx, v). rbind (finalize bx) (\<lambda>bx. Inr (1, bx, v))))"

text \<open>
  \<^verbatim>\<open>OnAgreeBlk\<close> looks inputs up in a copy of the coins made before the first of them is erased, and
  reads the output at the position of the input, which it does not use.
\<close>

fun agree_inputs :: "nat \<Rightarrow> Input list \<Rightarrow> Transaction \<Rightarrow> UTXOlist \<Rightarrow> Validator \<Rightarrow> Validator res" where
  "agree_inputs i [] cur_tx ulist v = Inr v"
| "agree_inputs i (cur_in # ins) cur_tx ulist v =
     (let w = ucast (senderID cur_tx); idx = utxolist_index ulist cur_in in
      if idx \<noteq> -1
      then rbind (utxolist_erase (coins_of v w) idx) (\<lambda>l.
           if i \<ge> length (outputs cur_tx) then Inl (Undefined_behaviour ''vector index'')
           else agree_inputs (i + 1) ins cur_tx ulist (v\<lparr>utxo_sets := (utxo_sets v)(w \<mapsto> l)\<rparr>))
      else agree_inputs (i + 1) ins cur_tx ulist v)"

definition agree_tx :: "Transaction \<Rightarrow> Validator \<Rightarrow> Validator res" where
  "agree_tx cur_tx v = (let w = ucast (senderID cur_tx); v = touch_coins w v in
     agree_inputs 0 (inputs cur_tx) cur_tx (coins_of v w) v)"

definition OnAgreeBlk :: "Block \<Rightarrow> Validator \<Rightarrow> Validator res" where
  "OnAgreeBlk bx v = rfold agree_tx (txs bx) v"

definition OnSyncReply :: "Validator \<Rightarrow> Server \<Rightarrow> Server" where
  "OnSyncReply v srv = setUTXOlists (utxo_sets v) srv"

definition Validator_Propose :: "runtime \<Rightarrow> Block \<Rightarrow> Node \<Rightarrow> Node res" where
  "Validator_Propose rt blk nd = (if \<not> is_lead nd then Inl (Assertion_failed ''isLeader'') else Propose rt blk nd)"

text \<open>What the tasks of the proposing and of the storing thread do, on the validator, its server and its node.\<close>

definition ProposeProcess_task :: "runtime \<Rightarrow> Validator \<times> Node \<Rightarrow> (Validator \<times> Node) res" where
  "ProposeProcess_task rt s = (case s of (v, nd) \<Rightarrow>
     rbind (CreateBlk (is_lead nd) empty_Block v) (\<lambda>(r, blk, v).
       if r \<noteq> 0 then rbind (Validator_Propose rt blk nd) (\<lambda>nd. Inr (v, nd)) else Inr (v, nd)))"

definition DBProcess_task :: "Validator \<times> Server \<Rightarrow> (Validator \<times> Server) res" where
  "DBProcess_task s = (case s of (v, srv) \<Rightarrow>
     rbind (rfold OnAgreeBlk (blist v) v) (\<lambda>v. Inr (v\<lparr>blist := []\<rparr>, OnSyncReply v srv)))"

section \<open>Threads\<close>

text \<open>
  The tasks a validator hands to its event handler, and the turns of its threads: the listening, the
  proposing and the storing thread submit tasks, the thread of the handler runs all tasks subscribed for
  the first published event. \<^verbatim>\<open>blist_\<close> is shared: a turn of the storing thread overwrites it, the task
  empties it. A listening task names the iteration that submitted it; \<open>alive\<close> says which iteration lasts.
\<close>

datatype ValidatorTask = ListenTask nat | ProposeTask | StoreTask

fun run_task :: "runtime \<Rightarrow> (nat \<Rightarrow> bool) \<Rightarrow> ValidatorTask \<Rightarrow> Validator \<times> Server \<times> Node \<Rightarrow> (Validator \<times> Server \<times> Node) res" where
  "run_task rt alive (ListenTask k) (v, srv, nd) = rbind (Listen_task (alive k) (v, srv)) (\<lambda>(v, srv). Inr (v, srv, nd))"
| "run_task rt alive ProposeTask (v, srv, nd) = rbind (ProposeProcess_task rt (v, nd)) (\<lambda>(v, nd). Inr (v, srv, nd))"
| "run_task rt alive StoreTask (v, srv, nd) = rbind (DBProcess_task (v, srv)) (\<lambda>(v, srv). Inr (v, srv, nd))"

definition Listen_turn :: "nat \<Rightarrow> ValidatorTask EventHandler \<Rightarrow> ValidatorTask EventHandler" where
  "Listen_turn k h = runInLoop TX (ListenTask k) h"

definition ProposeProcess_turn :: "ValidatorTask EventHandler \<Rightarrow> ValidatorTask EventHandler" where
  "ProposeProcess_turn h = runInLoop PROPOSE ProposeTask h"

definition DBProcess_turn :: "ValidatorTask EventHandler \<times> Validator \<times> Node \<Rightarrow> ValidatorTask EventHandler \<times> Validator \<times> Node" where
  "DBProcess_turn s = (case s of (h, v, nd) \<Rightarrow>
     if isConsensus nd then
       (let (bs, nd) = getConsensusBlocks True nd; v = v\<lparr>blist := bs\<rparr> in
        if blist v \<noteq> [] then (runInLoop DBSTORE StoreTask h, v, nd) else (h, v, nd))
     else (h, v, nd))"

definition handler_turn :: "runtime \<Rightarrow> (nat \<Rightarrow> bool) \<Rightarrow> ValidatorTask EventHandler \<Rightarrow> Validator \<times> Server \<times> Node
    \<Rightarrow> (ValidatorTask EventHandler \<times> Validator \<times> Server \<times> Node) res" where
  "handler_turn rt alive h s = (case publist h of
       [] \<Rightarrow> Inr (h, s)
     | e # rest \<Rightarrow> rbind (rfold (run_task rt alive) (subsMap h e) s) (\<lambda>s. Inr (EventProcess_turn h, s)))"

section \<open>Lemmas\<close>

lemma coins_of_touch [simp]: "coins_of (touch_coins w v) w' = coins_of v w'"
  by (simp add: coins_of_def touch_coins_def)

lemma touch_coins_fields [simp]: "wallets_ids (touch_coins w v) = wallets_ids v" "memory_pool (touch_coins w v) = memory_pool v"
  by (simp_all add: touch_coins_def)

lemma OnRecvTx_eq:
  "OnRecvTx tx v = (let w = ucast (senderID tx); v' = touch_coins w (UpdateKeys w tx v) in
     if Verify (Transaction_getDigest tx) (senderSig tx) (tx_public_key tx) = Inr 1
        \<and> checkSpendingConditions tx (coins_of v w) (wallets_ids v)
     then Inr (1, v'\<lparr>memory_pool := memory_pool v @ [tx]\<rparr>) else Inr (0, v'))"
proof -
  obtain r where "Verify (Transaction_getDigest tx) (senderSig tx) (tx_public_key tx) = Inr r" by (simp add: Verify_eq)
  moreover have "coins_of (UpdateKeys w tx v) w' = coins_of v w'" for w w' by (simp add: coins_of_def UpdateKeys_def)
  ultimately show ?thesis by (simp add: OnRecvTx_def Let_def UpdateKeys_def)
qed

text \<open>What decides about a received transaction, and what receiving a list of them does.\<close>

definition acceptable :: "Validator \<Rightarrow> Transaction \<Rightarrow> bool" where
  "acceptable v tx \<longleftrightarrow> Verify (Transaction_getDigest tx) (senderSig tx) (tx_public_key tx) = Inr 1
     \<and> checkSpendingConditions tx (coins_of v (ucast (senderID tx))) (wallets_ids v)"

lemma OnRecvTx_acceptable:
  "\<exists>r v'. OnRecvTx tx v = Inr (r, v') \<and> memory_pool v' = memory_pool v @ filter (acceptable v) [tx]
     \<and> (\<forall>w. coins_of v' w = coins_of v w) \<and> wallets_ids v' = wallets_ids v"
  by (auto simp: OnRecvTx_eq Let_def acceptable_def coins_of_def touch_coins_def UpdateKeys_def)

lemma OnTxReply_pool:
  "\<exists>v'. OnTxReply txlist v = Inr v' \<and> memory_pool v' = memory_pool v @ filter (acceptable v) txlist"
proof (induction txlist arbitrary: v)
  case (Cons tx txlist)
  obtain r v1 where o: "OnRecvTx tx v = Inr (r, v1)" "memory_pool v1 = memory_pool v @ filter (acceptable v) [tx]"
    "\<forall>w. coins_of v1 w = coins_of v w" "wallets_ids v1 = wallets_ids v" using OnRecvTx_acceptable by blast
  then have "acceptable v1 = acceptable v" by (simp add: acceptable_def fun_eq_iff)
  then show ?case using Cons [of v1] o(1,2) by (auto simp: OnTxReply_def)
qed (simp add: OnTxReply_def)

text \<open>Blocks built by the loop: what they contain and how their transactions relate.\<close>

definition inputs_disjoint :: "Transaction list \<Rightarrow> bool" where
  "inputs_disjoint ts \<longleftrightarrow> (\<forall>i j. i < j \<and> j < length ts \<longrightarrow> set (inputs (ts ! i)) \<inter> set (inputs (ts ! j)) = {})"

lemma inputs_disjoint_append:
  assumes "inputs_disjoint ts" and "\<forall>t \<in> set ts. set (inputs t) \<inter> set (inputs u) = {}"
  shows "inputs_disjoint (ts @ [u])"
  unfolding inputs_disjoint_def
proof (intro allI impI)
  fix i j assume a: "i < j \<and> j < length (ts @ [u])"
  show "set (inputs ((ts @ [u]) ! i)) \<inter> set (inputs ((ts @ [u]) ! j)) = {}"
  proof (cases "j = length ts")
    case True
    then show ?thesis using a assms(2) by (simp add: nth_append)
  next
    case False
    then show ?thesis using a assms(1) by (simp add: nth_append inputs_disjoint_def)
  qed
qed

lemma create_loop_total:
  assumes "block_mutable bx"
  shows "\<exists>bx' v'. create_loop pool bx v = Inr (bx', v') \<and> block_mutable bx' \<and> memory_pool v' = []
    \<and> (\<forall>w. coins_of v' w = coins_of v w) \<and> wallets_ids v' = wallets_ids v
    \<and> set (txs bx') \<subseteq> set (txs bx) \<union> {t \<in> set pool. checkSpendingConditions t (coins_of v (ucast (senderID t))) (wallets_ids v)}
    \<and> (inputs_disjoint (txs bx) \<longrightarrow> inputs_disjoint (txs bx'))
    \<and> set (txs bx) \<subseteq> set (txs bx')
    \<and> (\<forall>t \<in> set pool. checkSpendingConditions t (coins_of v (ucast (senderID t))) (wallets_ids v) \<longrightarrow>
         t \<in> set (txs bx') \<or> (\<exists>u \<in> set (txs bx'). set (inputs u) \<inter> set (inputs t) \<noteq> {}))"
  using assms
proof (induction pool arbitrary: bx v)
  case Nil
  then show ?case by (simp add: coins_of_def)
next
  case (Cons t pool)
  let ?w = "ucast (senderID t) :: u32" let ?v = "touch_coins ?w v"
  have ct: "set (block_inputs bx) = (\<Union>u \<in> set (txs bx). set (inputs u))" for bx by (simp add: block_inputs_def)
  consider (bad) "\<not> checkSpendingConditions t (coins_of v ?w) (wallets_ids v)"
    | (clash) "checkSpendingConditions t (coins_of v ?w) (wallets_ids v)" "\<not> verifyTxConsist bx t"
    | (add) "checkSpendingConditions t (coins_of v ?w) (wallets_ids v)" "verifyTxConsist bx t" by blast
  then show ?case
  proof cases
    case bad
    then show ?thesis using Cons.IH [OF Cons.prems, of ?v] by (simp add: Let_def) blast
  next
    case clash
    then have "\<exists>u \<in> set (txs bx). set (inputs u) \<inter> set (inputs t) \<noteq> {}" by (auto simp: verifyTxConsist_iff ct)
    then show ?thesis using clash Cons.IH [OF Cons.prems, of ?v] by (simp add: Let_def) blast
  next
    case add
    let ?b = "bx\<lparr>txs := txs bx @ [t]\<rparr>"
    have "\<forall>u \<in> set (txs bx). set (inputs u) \<inter> set (inputs t) = {}" using add(2) by (auto simp: verifyTxConsist_iff ct)
    then have "inputs_disjoint (txs bx) \<longrightarrow> inputs_disjoint (txs ?b)" using inputs_disjoint_append by simp
    moreover have "block_mutable ?b" using Cons.prems by simp
    ultimately show ?thesis
      using add Cons.prems Cons.IH [of ?b ?v] by (simp add: Let_def addTransaction_def) blast
  qed
qed

lemma erase_subseq: "utxolist_erase l k = Inr l' \<Longrightarrow> subseq l' l"
proof -
  assume "utxolist_erase l k = Inr l'"
  then have "l' = take (nat k) l @ drop (Suc (nat k)) l" by (auto simp: utxolist_erase_def split: if_splits)
  moreover have "subseq (drop (Suc n) l) (drop n l)" for n
    using suffix_imp_subseq [OF suffix_drop [of 1 "drop n l"]] by simp
  ultimately show ?thesis
    using list_emb_append_mono [of "(=)" "take (nat k) l" "take (nat k) l" "drop (Suc (nat k)) l" "drop (nat k) l"] by simp
qed

lemma agree_inputs_subseq:
  "agree_inputs i ins t ulist v = Inr v' \<Longrightarrow> subseq (coins_of v' w) (coins_of v w)"
proof (induction i ins t ulist v rule: agree_inputs.induct)
  case (2 i cur_in ins cur_tx ulist v)
  let ?w = "ucast (senderID cur_tx) :: u32" let ?idx = "utxolist_index ulist cur_in"
  show ?case
  proof (cases "?idx = - 1")
    case True
    then show ?thesis using 2 by (simp add: Let_def)
  next
    case False
    then obtain l where l: "utxolist_erase (coins_of v ?w) ?idx = Inr l" "\<not> i \<ge> length (outputs cur_tx)"
      and r: "agree_inputs (i + 1) ins cur_tx ulist (v\<lparr>utxo_sets := (utxo_sets v)(?w \<mapsto> l)\<rparr>) = Inr v'"
      using "2.prems" by (auto simp: Let_def split: if_splits)
    have "subseq (coins_of v' w) (coins_of (v\<lparr>utxo_sets := (utxo_sets v)(?w \<mapsto> l)\<rparr>) w)"
      using "2.IH"(1) [OF refl refl False l r] .
    moreover have "subseq (coins_of (v\<lparr>utxo_sets := (utxo_sets v)(?w \<mapsto> l)\<rparr>) w) (coins_of v w)"
      using erase_subseq [OF l(1)] by (cases "w = ?w") (simp_all add: coins_of_def)
    ultimately show ?thesis by (rule subseq_order.trans)
  qed
qed simp

lemma OnAgreeBlk_subseq: "OnAgreeBlk b v = Inr v' \<Longrightarrow> subseq (coins_of v' w) (coins_of v w)"
  unfolding OnAgreeBlk_def
  by (erule rfold_Inr_induct [where P = "\<lambda>v'. subseq (coins_of v' w) (coins_of v w)"])
    (auto simp: agree_tx_def Let_def dest!: agree_inputs_subseq [where w = w] intro: subseq_order.trans)

text \<open>Tasks submitted one after the other, the handler's thread taking a turn after each.\<close>

definition submit_all :: "Event \<Rightarrow> 'a list \<Rightarrow> 'a EventHandler \<Rightarrow> 'a EventHandler" where
  "submit_all e tasks h = foldl (\<lambda>h task. EventProcess_turn (runInLoop e task h)) h tasks"

lemma submit_all_eq:
  assumes "publist h = []"
  shows "publist (submit_all e tasks h) = [] \<and> subsMap (submit_all e tasks h) e = subsMap h e @ tasks
    \<and> executed (submit_all e tasks h) = executed h @ concat (map (\<lambda>k. subsMap h e @ take (Suc k) tasks) [0..<length tasks])"
proof (induction tasks rule: rev_induct)
  case (snoc t tasks)
  have m: "map (\<lambda>k. subsMap h e @ take (Suc k) (tasks @ [t])) [0..<length tasks] = map (\<lambda>k. subsMap h e @ take (Suc k) tasks) [0..<length tasks]"
    by simp
  have "submit_all e (tasks @ [t]) h = EventProcess_turn (runInLoop e t (submit_all e tasks h))" by (simp add: submit_all_def)
  then show ?case
    using snoc by (simp add: m runInLoop_def PublishEvent_def SubscriberEvent_def EventProcess_turn_def del: take_append)
qed (simp add: submit_all_def assms)

lemma CreateBlk_valid:
  assumes "memory_pool v \<noteq> []"
  shows "\<exists>bx v'. CreateBlk True empty_Block v = Inr (1, bx, v') \<and> memory_pool v' = [] \<and> \<not> block_mutable bx
    \<and> inputs_disjoint (txs bx)
    \<and> (\<forall>t \<in> set (txs bx). t \<in> set (memory_pool v) \<and> checkSpendingConditions t (coins_of v (ucast (senderID t))) (wallets_ids v))
    \<and> (\<forall>t \<in> set (memory_pool v). checkSpendingConditions t (coins_of v (ucast (senderID t))) (wallets_ids v) \<longrightarrow>
         t \<in> set (txs bx) \<or> (\<exists>u \<in> set (txs bx). set (inputs u) \<inter> set (inputs t) \<noteq> {}))
    \<and> merkleRoot (block_header bx) = merkleRoot (calculateMerkleRoot (txs bx) \<lparr>prevBlockDigest = [], merkleRoot = []\<rparr>)"
proof -
  have e: "block_mutable empty_Block" "txs empty_Block = []" "inputs_disjoint []"
    by (simp_all add: empty_Block_def new_Block_def inputs_disjoint_def)
  obtain bx' v' where c: "create_loop (rev (memory_pool v)) empty_Block v = Inr (bx', v')" "block_mutable bx'" "memory_pool v' = []"
    "set (txs bx') \<subseteq> {t \<in> set (memory_pool v). checkSpendingConditions t (coins_of v (ucast (senderID t))) (wallets_ids v)}"
    "inputs_disjoint (txs bx')"
    "\<forall>t \<in> set (memory_pool v). checkSpendingConditions t (coins_of v (ucast (senderID t))) (wallets_ids v) \<longrightarrow>
         t \<in> set (txs bx') \<or> (\<exists>u \<in> set (txs bx'). set (inputs u) \<inter> set (inputs t) \<noteq> {})"
    using create_loop_total [OF e(1), of "rev (memory_pool v)" v] e(2,3) by auto
  then have "CreateBlk True empty_Block v
     = Inr (1, bx'\<lparr>block_mutable := False, block_header := calculateMerkleRoot (txs bx') (block_header bx')\<rparr>, v')"
    using assms by (simp add: CreateBlk_def finalize_def)
  moreover have "merkleRoot (calculateMerkleRoot ts h) = merkleRoot (calculateMerkleRoot ts h')" for ts h h'
    by (simp add: calculateMerkleRoot_def)
  ultimately show ?thesis using c(3-6) by auto
qed

lemma created_block_facts:
  assumes "memory_pool v \<noteq> []"
  shows "\<exists>bx v'. CreateBlk True empty_Block v = Inr (1, bx, v') \<and> memory_pool v' = [] \<and> \<not> block_mutable bx
    \<and> inputs_disjoint (txs bx) \<and> set (txs bx) \<subseteq> set (memory_pool v)"
  using CreateBlk_valid [OF assms] by blast

text \<open>Tasks that run again: the second run of a task finds nothing left to do.\<close>

lemma create_loop_empties: "create_loop pool bx v = Inr (bx', v') \<Longrightarrow> memory_pool v' = []"
  by (induction pool arbitrary: bx v) (auto simp: Let_def split: if_splits)

lemma create_loop_keeps: "create_loop pool bx v = Inr (bx', v') \<Longrightarrow> coins_of v' w = coins_of v w \<and> wallets_ids v' = wallets_ids v"
proof (induction pool arbitrary: bx v)
  case Nil
  then show ?case by (auto simp: coins_of_def)
qed (auto simp: Let_def split: if_splits)

lemma CreateBlk_keeps: "CreateBlk leader bx v = Inr (r, bx', v') \<Longrightarrow> coins_of v' w = coins_of v w \<and> wallets_ids v' = wallets_ids v"
  by (auto simp: CreateBlk_def split: if_splits dest: create_loop_keeps)

lemma ProposeProcess_task_again:
  assumes "ProposeProcess_task rt (v, nd) = Inr (v', nd')"
  shows "ProposeProcess_task rt (v', nd') = Inr (v', nd')"
proof (cases "memory_pool v = []")
  case True
  then show ?thesis using assms by (auto simp: ProposeProcess_task_def CreateBlk_def split: if_splits)
next
  case False
  then obtain bx where lead: "is_lead nd" and c: "CreateBlk True empty_Block v = Inr (1, bx, v')" "Propose rt bx nd = Inr nd'"
    using assms by (auto simp: ProposeProcess_task_def Validator_Propose_def CreateBlk_def split: if_splits)
  have "memory_pool v' = []" using c(1) False create_loop_empties by (auto simp: CreateBlk_def)
  moreover have "is_lead nd'" using lead c(2) by (auto simp: Propose_def dest!: broadcastMessage_Inr)
  ultimately show ?thesis by (simp add: ProposeProcess_task_def CreateBlk_def)
qed

lemma DBProcess_task_again:
  assumes "DBProcess_task (v, srv) = Inr (v', srv')"
  shows "DBProcess_task (v', srv') = Inr (v', srv')"
  using assms by (auto simp: DBProcess_task_def OnSyncReply_def setUTXOlists_def)

lemma Listen_task_again:
  assumes "Listen_task alive (v, srv) = Inr (v', srv')"
  shows "Listen_task alive (v', srv') = Inr (v', srv')"
  using assms by (auto simp: Listen_task_def getTransactions_eq split: if_splits)

lemma run_task_again: "run_task rt alive task s = Inr s' \<Longrightarrow> run_task rt alive task s' = Inr s'"
  by (cases task; cases s) (auto simp: ProposeProcess_task_again DBProcess_task_again Listen_task_again)

lemma run_task_repeated: "run_task rt alive task s = Inr s' \<Longrightarrow> rfold (run_task rt alive) (replicate (Suc k) task) s = Inr s'"
  by (induction k arbitrary: s) (simp_all add: run_task_again)

definition demo_validator :: Validator where
  "demo_validator = \<lparr>wallets_ids = [7, 8], pk_sets = Map.empty, utxo_sets = [4 \<mapsto> [UTXO 1 0 (Output 5 4)]],
     memory_pool = [example_spend], blist = []\<rparr>"

section \<open>Properties of the validator\<close>

text \<open>
  C21. The leader turns its memory pool into a block: whenever the pool is not empty, \<^verbatim>\<open>CreateBlk\<close> empties
  it and gives an immutable block whose transactions all come from the pool, meet the spending
  conditions against the coins of their senders and share no input with each other; a valid
  transaction of the pool is left out only when it shares an input with one in the block.
\<close>

theorem created_block_valid:
  assumes "memory_pool v \<noteq> []"
  shows "\<exists>bx v'. CreateBlk True empty_Block v = Inr (1, bx, v') \<and> memory_pool v' = [] \<and> \<not> block_mutable bx
    \<and> inputs_disjoint (txs bx)
    \<and> (\<forall>t \<in> set (txs bx). t \<in> set (memory_pool v) \<and> checkSpendingConditions t (coins_of v (ucast (senderID t))) (wallets_ids v))
    \<and> (\<forall>t \<in> set (memory_pool v). checkSpendingConditions t (coins_of v (ucast (senderID t))) (wallets_ids v) \<longrightarrow>
         t \<in> set (txs bx) \<or> (\<exists>u \<in> set (txs bx). set (inputs u) \<inter> set (inputs t) \<noteq> {}))
    \<and> merkleRoot (block_header bx) = merkleRoot (calculateMerkleRoot (txs bx) \<lparr>prevBlockDigest = [], merkleRoot = []\<rparr>)"
  by (rule CreateBlk_valid [OF assms])

theorem created_block_valid_witness:
  "\<exists>bx v'. CreateBlk True empty_Block demo_validator = Inr (1, bx, v') \<and> memory_pool v' = [] \<and> example_spend \<in> set (txs bx)"
proof -
  have "checkSpendingConditions example_spend (coins_of demo_validator (ucast (senderID example_spend))) (wallets_ids demo_validator)"
    using example_spend_checked by (simp add: demo_validator_def coins_of_def example_spend_def)
  moreover have "memory_pool demo_validator = [example_spend]" by (simp add: demo_validator_def)
  moreover have "inputs example_spend \<noteq> []" by (simp add: example_spend_def)
  ultimately show ?thesis using created_block_valid [of demo_validator] by fastforce
qed

text \<open>
  C39. A transaction is accepted into the memory pool exactly when its signature verifies with the key
  the transaction itself carries and it meets the spending conditions; the key stored for the wallet
  before plays no role, so anybody can sign for any wallet.
\<close>

theorem transaction_authenticated_by_own_key:
  "(\<exists>v'. OnRecvTx tx v = Inr (1, v') \<and> memory_pool v' = memory_pool v @ [tx]) \<longleftrightarrow>
     Verify (Transaction_getDigest tx) (senderSig tx) (tx_public_key tx) = Inr 1
   \<and> checkSpendingConditions tx (coins_of v (ucast (senderID tx))) (wallets_ids v)"
  by (auto simp: OnRecvTx_eq Let_def split: if_splits)

text \<open>
  Accepting a block never adds coins: after \<^verbatim>\<open>OnAgreeBlk\<close>, the coins of every wallet are what was left
  of its coins before; the outputs of the block's transactions reach nobody.
\<close>

theorem agreed_block_only_removes_coins:
  assumes "OnAgreeBlk b v = Inr v'"
  shows "subseq (coins_of v' w) (coins_of v w)"
  using assms by (rule OnAgreeBlk_subseq)

theorem agreed_block_only_removes_coins_witness:
  "\<exists>v'. OnAgreeBlk demo_block demo_validator = Inr v' \<and> coins_of v' 7 = [] \<and> coins_of v' 4 = []"
proof -
  obtain v' where v: "OnAgreeBlk demo_block demo_validator = Inr v'" "coins_of v' 4 = []"
    by (simp add: OnAgreeBlk_def agree_tx_def example_spend_def demo_validator_def touch_coins_def coins_of_def Let_def
        utxolist_index_def utxo_matches_def utxolist_erase_def)
  have "coins_of demo_validator 7 = []" by (simp add: demo_validator_def coins_of_def)
  then show ?thesis using v agreed_block_only_removes_coins [OF v(1), of 7] by auto
qed



text \<open>
  The blocks are lost when the storing thread takes its next turn before the event handler: it
  overwrites the list with the blocks delivered since, of which there are none.
\<close>

lemma late_handler_loses_blocks:
  assumes "isConsensus nd" and "DBProcess_turn (h, v, nd) = (h1, v1, nd1)"
  shows "\<exists>h2 nd2. DBProcess_turn (h1, v1, nd1) = (h2, v\<lparr>blist := []\<rparr>, nd2) \<and> accepted_blocks nd2 = []"
  using assms by (auto simp: DBProcess_turn_def getConsensusBlocks_def Let_def isConsensus_def split: if_splits)

text \<open>
  The positions are stale from the second input on: a transaction that spends the first two of
  three coins removes the first and the third, and leaves the spent second coin with the wallet.
\<close>

theorem agreed_block_removes_wrong_coin:
  "\<exists>v'. OnAgreeBlk (empty_Block\<lparr>txs := [example_spend\<lparr>inputs := [Input 1 0, Input 2 0]\<rparr>]\<rparr>)
        (demo_validator\<lparr>utxo_sets := [4 \<mapsto> [UTXO 1 0 (Output 2 4), UTXO 2 0 (Output 3 4), UTXO 3 0 (Output 9 4)]]\<rparr>) = Inr v'
     \<and> coins_of v' 4 = [UTXO 2 0 (Output 3 4)]"
  by (simp add: OnAgreeBlk_def agree_tx_def example_spend_def touch_coins_def coins_of_def Let_def
      utxolist_index_def utxo_matches_def utxolist_erase_def)

text \<open>
  Tasks accumulate: no task is ever unsubscribed, so when tasks are submitted for one event and
  the handler runs after each, the n-th submission runs the first n tasks again, in order.
\<close>

theorem event_tasks_accumulate:
  assumes "publist h = []" and "subsMap h e = []"
  shows "executed (submit_all e tasks h) = executed h @ concat (map (\<lambda>k. take (Suc k) tasks) [0..<length tasks])"
  using submit_all_eq [OF assms(1), of e tasks] assms(2) by simp

theorem event_tasks_accumulate_witness:
  "executed (submit_all PROPOSE [''a'', ''b''] \<lparr>publist = [], subsMap = (\<lambda>_. []), executed = []\<rparr>) = [''a'', ''a'', ''b'']"
  using event_tasks_accumulate [of "\<lparr>publist = [], subsMap = (\<lambda>_. []), executed = []\<rparr>" PROPOSE "[''a'', ''b'']"]
  by (simp add: numeral_eq_Suc)

end
