(* ===== verification/Database.thy ===== *)
theory Database
  imports Block Interfaces
begin

text \<open>
  The class \<^verbatim>\<open>Database\<close> of \<^verbatim>\<open>include/database/database.h\<close> and \<^verbatim>\<open>lib/database/database.cc\<close>: the block chain a
  validator keeps in memory and in a JSON file. The file system is the map from names to contents
  the streams of the program read and write. The database is shown to refine an append-only chain of
  linked blocks, and saving followed by loading to restore it.
\<close>

section \<open>The class and the file system\<close>

record Database =
  db_blocks :: "string \<rightharpoonup> Block"
  db_digests :: "string list"
  db_filename :: string

text \<open>
  Files by name. An input stream opens when the file exists, an output stream when the name is
  writable; opening it for output empties the file.
\<close>

record disk =
  files :: "string \<rightharpoonup> string"
  writable :: "string \<Rightarrow> bool"

section \<open>JSON\<close>

text \<open>\<^verbatim>\<open>blocks_[digest]\<close>: a missing entry is created with the empty block.\<close>

definition block_at :: "Database \<Rightarrow> string \<Rightarrow> Block" where
  "block_at db digest = (case db_blocks db digest of None \<Rightarrow> empty_Block | Some b \<Rightarrow> b)"

definition entry_json :: "Database \<Rightarrow> string \<Rightarrow> json res" where
  "entry_json db digest = rbind (json_set JNull ''digest'' (JString digest)) (\<lambda>j.
     rbind (Block_to_string (block_at db digest)) (\<lambda>s. json_set j ''block'' (JString s)))"

definition Database_to_json :: "Database \<Rightarrow> json \<Rightarrow> json res" where
  "Database_to_json db j = rfold (\<lambda>digest j. rbind (entry_json db digest)
     (\<lambda>el. json_update j ''blockchain'' (\<lambda>e. json_push_back e el))) (db_digests db) j"

definition read_entry :: "json \<Rightarrow> Database \<Rightarrow> Database res" where
  "read_entry el db = rbind (json_at el ''digest'') (\<lambda>jd. rbind (get_string jd) (\<lambda>digest.
     rbind (json_at el ''block'') (\<lambda>jb. rbind (get_string jb) (\<lambda>s. rbind (Block_from_string empty_Block s) (\<lambda>b.
       Inr (db\<lparr>db_digests := db_digests db @ [digest], db_blocks := (db_blocks db)(digest \<mapsto> b)\<rparr>))))))"

definition Database_from_json :: "json \<Rightarrow> Database \<Rightarrow> Database res" where
  "Database_from_json j db = rbind (json_at j ''blockchain'') (\<lambda>jc.
     rfold read_entry (json_elements jc) (db\<lparr>db_blocks := Map.empty, db_digests := []\<rparr>))"

section \<open>Files\<close>

definition Database_save :: "string \<Rightarrow> Database \<Rightarrow> disk \<Rightarrow> disk res" where
  "Database_save filename db d = rbind (Database_to_json db JNull) (\<lambda>j.
     if \<not> writable d filename then Inl (Runtime_error (''Could not open file for writing: '' @ filename))
     else rbind (json_dump_indent 4 j) (\<lambda>text. Inr (d\<lparr>files := (files d)(filename \<mapsto> text)\<rparr>)))"

definition Database_load :: "string \<Rightarrow> disk \<Rightarrow> Database \<Rightarrow> Database res" where
  "Database_load filename d db = (let db = db\<lparr>db_filename := filename\<rparr> in
     case files d filename of
       None \<Rightarrow> Inr (db\<lparr>db_blocks := Map.empty, db_digests := []\<rparr>)
     | Some text \<Rightarrow> rbind (json_read text) (\<lambda>(j, _). Database_from_json j db))"

text \<open>The constructor does what \<^verbatim>\<open>load\<close> does, on a new object.\<close>

definition new_Database :: "string \<Rightarrow> disk \<Rightarrow> Database res" where
  "new_Database filename d = (case files d filename of
       None \<Rightarrow> Inr \<lparr>db_blocks = Map.empty, db_digests = [], db_filename = filename\<rparr>
     | Some text \<Rightarrow> rbind (json_read text)
         (\<lambda>(j, _). Database_from_json j \<lparr>db_blocks = Map.empty, db_digests = [], db_filename = filename\<rparr>))"

section \<open>Blocks\<close>

text \<open>
  \<^verbatim>\<open>addBlock\<close> changes the object before it saves: when saving throws, the block stays in memory, so the
  object is returned beside the result. The result carries the changed file system.
\<close>

definition addBlock :: "Block \<Rightarrow> disk \<Rightarrow> Database \<Rightarrow> Database \<times> (disk \<times> int) res" where
  "addBlock b d db =
    (if db_digests db = [] \<or> last (db_digests db) = prevBlockDigest (block_header b)
     then case Block_getDigest b of
            Inl e \<Rightarrow> (db, Inl e)
          | Inr digest \<Rightarrow>
              let db = db\<lparr>db_blocks := (db_blocks db)(digest \<mapsto> b), db_digests := db_digests db @ [digest]\<rparr>
              in (db, rbind (Database_save (db_filename db) db d) (\<lambda>d. Inr (d, 0)))
     else (db, Inr (d, 1)))"

definition getBlock :: "string \<Rightarrow> Database \<Rightarrow> Block res" where
  "getBlock digest db = (case db_blocks db digest of
       Some b \<Rightarrow> Inr b
     | None \<Rightarrow> Inl (Runtime_error (''No block with digest '' @ digest @ '' in blockchain'')))"

definition getBlockDigests :: "Database \<Rightarrow> string list" where
  "getBlockDigests db = db_digests db"

section \<open>Specification: an append-only chain\<close>

text \<open>
  A chain is the list of its blocks, oldest first. It is linked when every block names the digest of
  the one before it; a block is appended when it names the digest of the last one.
\<close>

definition digest_of :: "Block \<Rightarrow> string" where
  "digest_of b = (case Block_getDigest b of Inl _ \<Rightarrow> [] | Inr d \<Rightarrow> d)"

fun linked :: "Block list \<Rightarrow> bool" where
  "linked (a # b # chain) \<longleftrightarrow> prevBlockDigest (block_header b) = digest_of a \<and> linked (b # chain)"
| "linked _ \<longleftrightarrow> True"

definition extends_chain :: "Block list \<Rightarrow> Block \<Rightarrow> bool" where
  "extends_chain chain b \<longleftrightarrow> chain = [] \<or> prevBlockDigest (block_header b) = digest_of (last chain)"

definition chain_add :: "Block \<Rightarrow> Block list \<Rightarrow> Block list" where
  "chain_add b chain = (if extends_chain chain b then chain @ [b] else chain)"

text \<open>The database represents a chain: its digests in order, and the latest block of each digest.\<close>

definition represents :: "Database \<Rightarrow> Block list \<Rightarrow> bool" where
  "represents db chain \<longleftrightarrow> db_digests db = map digest_of chain
     \<and> db_blocks db = map_of (rev (map (\<lambda>b. (digest_of b, b)) chain))
     \<and> (\<forall>b \<in> set chain. Block_getDigest b = Inr (digest_of b))"

lemma linked_append: "linked (chain @ [b]) \<longleftrightarrow> linked chain \<and> extends_chain chain b"
  by (induction chain rule: linked.induct) (auto simp: extends_chain_def)

lemma chain_add_linked: "linked chain \<Longrightarrow> linked (chain_add b chain)"
  by (simp add: chain_add_def linked_append)

lemma represents_extends:
  "represents db chain \<Longrightarrow> db_digests db = [] \<or> last (db_digests db) = prevBlockDigest (block_header b) \<longleftrightarrow> extends_chain chain b"
  by (cases "chain = []") (auto simp: represents_def extends_chain_def last_map)

lemma addBlock_refines:
  assumes "represents db chain" and "Block_getDigest b = Inr digest" and "addBlock b d db = (db', r)"
  shows "represents db' (chain_add b chain)"
proof -
  have "digest_of b = digest" using assms(2) by (simp add: digest_of_def)
  then show ?thesis
    using assms represents_extends [OF assms(1), of b]
    by (auto simp: addBlock_def chain_add_def Let_def represents_def)
qed

lemma getBlock_represents:
  assumes "represents db chain" and "getBlock digest db = Inr b"
  shows "b \<in> set chain \<and> Block_getDigest b = Inr digest"
  using assms by (auto simp: represents_def getBlock_def dest!: map_of_SomeD split: option.splits)

text \<open>The calls that change a database, with any file system.\<close>

inductive db_step :: "Database \<Rightarrow> Database \<Rightarrow> bool" where
  add: "addBlock b d db = (db', r) \<Longrightarrow> db_step db db'"

interpretation db_chain: invariant_system
  "\<lambda>db. db_digests db = [] \<and> db_blocks db = Map.empty" db_step "\<lambda>db. \<exists>chain. represents db chain \<and> linked chain"
proof
  fix db db' assume "db_step db db'" and "\<exists>chain. represents db chain \<and> linked chain"
  then obtain b d r chain where s: "addBlock b d db = (db', r)" and c: "represents db chain" "linked chain"
    by (auto elim: db_step.cases)
  show "\<exists>chain. represents db' chain \<and> linked chain"
  proof (cases "Block_getDigest b")
    case (Inl e)
    then have "db' = db" using s by (auto simp: addBlock_def split: if_splits)
    then show ?thesis using c by blast
  next
    case (Inr digest)
    then show ?thesis using addBlock_refines [OF c(1) Inr s] chain_add_linked [OF c(2)] by blast
  qed
qed (auto simp: represents_def intro!: exI [of _ "[]"])

section \<open>Persistence\<close>

text \<open>A database whose blocks can all be stored.\<close>

definition db_storable :: "Database \<Rightarrow> bool" where
  "db_storable db \<longleftrightarrow> db_digests db \<noteq> [] \<and> list_all ascii (db_digests db) \<and> dom (db_blocks db) = set (db_digests db)
     \<and> (\<forall>digest b. db_blocks db digest = Some b \<longrightarrow> block_storable b)"

lemma entry_round_trip:
  assumes "ascii digest" and "db_blocks db digest = Some b" and "block_storable b"
  shows "\<exists>el. entry_json db digest = Inr el \<and> json_ascii el \<and> json_ok el \<and> json_norm el = el
    \<and> (\<forall>db0. read_entry el db0 = Inr (db0\<lparr>db_digests := db_digests db0 @ [digest], db_blocks := (db_blocks db0)(digest \<mapsto> b)\<rparr>))"
proof -
  obtain s where "Block_to_string b = Inr s" "ascii s" "Block_from_string empty_Block s = Inr b"
    using Block_round_trip [OF assms(3)] by blast
  then show ?thesis using assms(1,2) by (simp add: entry_json_def block_at_def read_entry_def)
qed

lemma entries_round_trip:
  assumes "list_all ascii digests" and "\<forall>digest \<in> set digests. \<exists>b. db_blocks db digest = Some b \<and> block_storable b"
  shows "\<exists>els. rmap (entry_json db) digests = Inr els \<and> list_all (\<lambda>j. json_ascii j \<and> json_ok j \<and> json_norm j = j) els
    \<and> (\<forall>db0. rfold read_entry els db0 = Inr (db0\<lparr>db_digests := db_digests db0 @ digests,
          db_blocks := (\<lambda>d. if d \<in> set digests then db_blocks db d else db_blocks db0 d)\<rparr>))"
  using assms
proof (induction digests)
  case (Cons digest digests)
  then obtain els where els: "rmap (entry_json db) digests = Inr els"
      "list_all (\<lambda>j. json_ascii j \<and> json_ok j \<and> json_norm j = j) els"
    and r: "\<And>db0. rfold read_entry els db0 = Inr (db0\<lparr>db_digests := db_digests db0 @ digests,
          db_blocks := (\<lambda>d. if d \<in> set digests then db_blocks db d else db_blocks db0 d)\<rparr>)" by auto
  obtain b where b: "db_blocks db digest = Some b" "block_storable b" using Cons.prems(2) by auto
  have "ascii digest" using Cons.prems(1) by simp
  from entry_round_trip [OF this b] obtain el where el: "entry_json db digest = Inr el" "json_ascii el" "json_ok el" "json_norm el = el"
    and e: "\<And>db0. read_entry el db0 = Inr (db0\<lparr>db_digests := db_digests db0 @ [digest], db_blocks := (db_blocks db0)(digest \<mapsto> b)\<rparr>)"
    by blast
  have "(\<lambda>d. if d \<in> set digests then db_blocks db d else ((db_blocks db0)(digest \<mapsto> b)) d)
      = (\<lambda>d. if d \<in> set (digest # digests) then db_blocks db d else db_blocks db0 d)" for db0 :: Database
    using b(1) by (auto simp: fun_eq_iff)
  then show ?case using els el by (intro exI [of _ "el # els"]) (simp add: e r del: fun_upd_apply cong: if_cong)
qed (simp add: fun_eq_iff)

lemma save_load:
  assumes "db_storable db" and "writable d filename"
  shows "\<exists>d'. Database_save filename db d = Inr d'
    \<and> Database_load filename d' db0 = Inr (db0\<lparr>db_filename := filename, db_digests := db_digests db, db_blocks := db_blocks db\<rparr>)"
proof -
  have a: "list_all ascii (db_digests db)" "db_digests db \<noteq> []"
    "\<forall>digest \<in> set (db_digests db). \<exists>b. db_blocks db digest = Some b \<and> block_storable b"
    using assms(1) unfolding db_storable_def by (auto dest!: equalityD2)
  obtain els where els: "rmap (entry_json db) (db_digests db) = Inr els"
      "list_all (\<lambda>j. json_ascii j \<and> json_ok j \<and> json_norm j = j) els"
    and r: "\<And>db0. rfold read_entry els db0 = Inr (db0\<lparr>db_digests := db_digests db0 @ db_digests db,
          db_blocks := (\<lambda>d. if d \<in> set (db_digests db) then db_blocks db d else db_blocks db0 d)\<rparr>)"
    using entries_round_trip [OF a(1,3)] by blast
  let ?j = "JObject [(''blockchain'', JArray els)]"
  have "Database_to_json db JNull = Database_to_json db (JObject [])"
    using a(2) by (cases "db_digests db") (simp_all add: Database_to_json_def json_update_def)
  also have "\<dots> = Inr ?j"
    using push_all [OF els(1) a(2), of "[]" "''blockchain''" "\<lambda>x. x"] by (simp add: Database_to_json_def)
  finally have t: "Database_to_json db JNull = Inr ?j" .
  have "map json_norm els = els" using els(2) by (intro map_idI) (simp add: list_all_iff)
  then have j: "json_ascii ?j" "json_ok ?j" "json_norm ?j = ?j" using els(2) by (simp_all add: list_all_iff)
  obtain str where str: "json_dump_indent 4 ?j = Inr str"
    using dump_ascii [OF j(1)] unfolding json_dump_indent_def by blast
  then have "json_read str = Inr (?j, [])"
    using json_read_dump [OF _ j(2), of True 4 0 str "[]"] j(3) by (simp add: json_dump_indent_def ends_number_def)
  moreover have "d \<notin> set (db_digests db) \<Longrightarrow> db_blocks db d = None" for d
    using assms(1) unfolding db_storable_def by (metis domIff)
  then have "(\<lambda>d. if d \<in> set (db_digests db) then db_blocks db d else None) = db_blocks db"
    by (auto simp: fun_eq_iff)
  ultimately show ?thesis
    using assms(2) t str
    by (simp add: Database_save_def Database_load_def Database_from_json_def r Let_def cong: if_cong)
qed

section \<open>Properties of the database\<close>

text \<open>
  C15. The database implements an append-only chain: adding a block to a database that represents a
  chain gives a database that represents the chain with the block appended when the block names the
  digest of the last one (any block, when the chain is empty), and the unchanged chain otherwise, in
  which case \<^verbatim>\<open>addBlock\<close> returns 1; this holds also when saving throws.
\<close>

theorem database_refines_chain:
  assumes "represents db chain" and "Block_getDigest b = Inr digest" and "addBlock b d db = (db', r)"
  shows "represents db' (chain_add b chain) \<and> (\<not> extends_chain chain b \<longrightarrow> r = Inr (d, 1))
       \<and> (extends_chain chain b \<longrightarrow> getBlock digest db' = Inr b)"
  using addBlock_refines [OF assms] assms represents_extends [OF assms(1), of b]
  by (auto simp: addBlock_def getBlock_def Let_def)

theorem database_refines_chain_witness:
  "\<exists>db'. represents db' [demo_block]"
proof -
  let ?db = "\<lparr>db_blocks = Map.empty, db_digests = [], db_filename = ''f''\<rparr>"
  have r: "represents ?db []" by (simp add: represents_def)
  obtain dg where dg: "Block_getDigest demo_block = Inr dg"
    using Block_getDigest_total [of demo_block] demo_public_storable
    by (auto simp: demo_block_def new_Block_def key_writable_def key_storable_def)
  obtain db' r' where "addBlock demo_block \<lparr>files = Map.empty, writable = \<lambda>_. True\<rparr> ?db = (db', r')" by fastforce
  from database_refines_chain [OF r dg this] show ?thesis by (auto simp: chain_add_def extends_chain_def)
qed





end
