(* ===== verification/Validator_Process.thy ===== *)
theory Validator_Process
  imports Validator Network Database
begin

text \<open>
  A validator as a process: the constructor, the move constructor and the threads of the class
  \<^verbatim>\<open>Validator\<close> (\<^verbatim>\<open>include/cryptowallet/validator.h\<close>, \<^verbatim>\<open>lib/cryptowallet/validator.cc\<close>), which share the
  validator's data, its server, its node and its event handler. A step is one critical section or turn of one
  thread; the invariant holds for every interleaving of them.
\<close>

section \<open>The process\<close>

datatype Thread = ListenThread | ConsensusThread | ProposeThread | DBstoreThread

text \<open>
  \<open>listen_iteration\<close> counts the iterations of \<^verbatim>\<open>Listen\<close>, \<open>listen_inside\<close> says whether the last one has not
  ended. \<open>delivered\<close> lists all blocks the node has ever accepted.
\<close>

record ValidatorProcess =
  val_id :: u32
  val_ipaddr :: string
  val_port :: u32
  val_state :: Validator
  val_server :: Server
  val_node :: Node
  val_handler :: "ValidatorTask EventHandler"
  val_db :: Database
  val_threads :: "Thread set"
  listen_iteration :: nat
  listen_inside :: bool
  delivered :: "string list"

definition new_EventHandler :: "'a EventHandler" where
  "new_EventHandler = \<lparr>publist = [], subsMap = (\<lambda>_. []), executed = []\<rparr>"

definition database_file :: "u32 \<Rightarrow> string" where
  "database_file vid = ''../../database'' @ show_nat (unat vid) @ ''.json''"

definition new_Validator :: "u32 \<Rightarrow> Settings \<Rightarrow> Server \<Rightarrow> Node \<Rightarrow> u32 list \<Rightarrow> disk \<Rightarrow> ValidatorProcess res" where
  "new_Validator vid settings srv nd wids d = (let info = fst (getValidatorInfo vid settings) in
     rbind (new_Database (database_file vid) d) (\<lambda>db.
       Inr \<lparr>val_id = vid, val_ipaddr = ai_address info, val_port = ai_port info,
            val_state = \<lparr>wallets_ids = wids, pk_sets = Map.empty, utxo_sets = Map.empty, memory_pool = [], blist = []\<rparr>,
            val_server = srv, val_node = nd, val_handler = new_EventHandler, val_db = db, val_threads = {},
            listen_iteration = 0, listen_inside = False, delivered = []\<rparr>))"

text \<open>The move constructor takes everything over but the list of blocks to store and the threads.\<close>

definition move_Validator :: "ValidatorProcess \<Rightarrow> ValidatorProcess" where
  "move_Validator p = p\<lparr>val_state := (val_state p)\<lparr>blist := []\<rparr>, val_threads := {}\<rparr>"

definition process_InitializeCoins :: "u64 \<Rightarrow> ValidatorProcess \<Rightarrow> ValidatorProcess" where
  "process_InitializeCoins coins p = (case InitializeCoins coins (val_state p, val_server p, val_node p) of
     (v, srv, nd) \<Rightarrow> p\<lparr>val_state := v, val_server := srv, val_node := nd\<rparr>)"

definition SaveBlockchain :: "string \<Rightarrow> disk \<Rightarrow> ValidatorProcess \<Rightarrow> disk res" where
  "SaveBlockchain filename d p = Database_save filename (val_db p) d"

text \<open>\<^verbatim>\<open>Run\<close> starts the threads; the consensus thread begins by setting the flag of its loop to \<^verbatim>\<open>_consensus\<close>, which is true.\<close>

definition ConsensusProcess_start :: "Node \<Rightarrow> Node" where
  "ConsensusProcess_start nd = nd\<lparr>should_broadcast := True\<rparr>"

definition Run :: "ValidatorProcess \<Rightarrow> ValidatorProcess" where
  "Run p = p\<lparr>val_threads := {ListenThread, ConsensusThread, DBstoreThread} \<union> (if is_lead (val_node p) then {ProposeThread} else {}),
     val_node := ConsensusProcess_start (val_node p)\<rparr>"

section \<open>Turns of the threads\<close>

definition Listen_submit :: "ValidatorProcess \<Rightarrow> ValidatorProcess" where
  "Listen_submit p = p\<lparr>listen_iteration := listen_iteration p + 1, listen_inside := True,
     val_handler := Listen_turn (listen_iteration p + 1) (val_handler p)\<rparr>"

definition task_alive :: "ValidatorProcess \<Rightarrow> nat \<Rightarrow> bool" where
  "task_alive p k \<longleftrightarrow> listen_inside p \<and> k = listen_iteration p"

definition process_handler :: "runtime \<Rightarrow> ValidatorProcess \<Rightarrow> ValidatorProcess res" where
  "process_handler rt p = rbind (handler_turn rt (task_alive p) (val_handler p) (val_state p, val_server p, val_node p))
     (\<lambda>(h, v, srv, nd). Inr (p\<lparr>val_handler := h, val_state := v, val_server := srv, val_node := nd\<rparr>))"

definition process_store :: "ValidatorProcess \<Rightarrow> ValidatorProcess" where
  "process_store p = (case DBProcess_turn (val_handler p, val_state p, val_node p) of
     (h, v, nd) \<Rightarrow> p\<lparr>val_handler := h, val_state := v, val_node := nd\<rparr>)"

text \<open>
  One iteration of the loop of \<^verbatim>\<open>RunProtocol\<close>: \<^verbatim>\<open>RunTaskInWait\<close> takes the messages from the server, the round
  follows; the thread ends when the loop does.
\<close>

definition ConsensusProcess_turn :: "runtime \<Rightarrow> ValidatorProcess \<Rightarrow> ValidatorProcess res" where
  "ConsensusProcess_turn rt p = (case getMessages [] (val_server p) of (_, msg_list, srv) \<Rightarrow>
     rbind (node_turn rt msg_list (val_node p)) (\<lambda>nd.
       Inr (p\<lparr>val_server := srv, val_node := nd,
              val_threads := (if should_broadcast nd then val_threads p else val_threads p - {ConsensusThread}),
              delivered := delivered p @ drop (length (accepted_blocks (val_node p))) (accepted_blocks nd)\<rparr>)))"

inductive process_step :: "runtime \<Rightarrow> ValidatorProcess \<Rightarrow> ValidatorProcess \<Rightarrow> bool" for rt where
  listen: "ListenThread \<in> val_threads p \<Longrightarrow> \<not> listen_inside p \<Longrightarrow> newRequests (val_server p) \<Longrightarrow> process_step rt p (Listen_submit p)"
| listen_end: "listen_inside p \<Longrightarrow> process_step rt p (p\<lparr>listen_inside := False\<rparr>)"
| propose: "ProposeThread \<in> val_threads p \<Longrightarrow> process_step rt p (p\<lparr>val_handler := ProposeProcess_turn (val_handler p)\<rparr>)"
| store: "DBstoreThread \<in> val_threads p \<Longrightarrow> process_step rt p (process_store p)"
| handler: "process_handler rt p = Inr p' \<Longrightarrow> process_step rt p p'"
| consensus: "ConsensusThread \<in> val_threads p \<Longrightarrow> newConsensusMessages (val_server p) \<Longrightarrow> ConsensusProcess_turn rt p = Inr p'
     \<Longrightarrow> process_step rt p p'"
| rpc: "HandleRpcs_turn tag req (val_server p) = Inr srv \<Longrightarrow> process_step rt p (p\<lparr>val_server := srv\<rparr>)"

section \<open>The invariant\<close>

text \<open>What a process looks like that has been constructed and has its coins, before \<^verbatim>\<open>Run\<close>.\<close>

definition fresh_process :: "ValidatorProcess \<Rightarrow> bool" where
  "fresh_process p \<longleftrightarrow> val_handler p = new_EventHandler \<and> listen_iteration p = 0 \<and> \<not> listen_inside p \<and> delivered p = []
     \<and> accepted_blocks (val_node p) = []"

definition process_inv :: "ValidatorProcess \<Rightarrow> ValidatorProcess \<Rightarrow> bool" where
  "process_inv p0 p \<longleftrightarrow> val_db p = val_db p0 \<and> (\<forall>w. subseq (coins_of (val_state p) w) (coins_of (val_state p0) w))
     \<and> wallets_ids (val_state p) = wallets_ids (val_state p0) \<and> node_utxolist (val_node p) = node_utxolist (val_node p0)
     \<and> subsMap (val_handler p) TX = map ListenTask [1..<Suc (listen_iteration p)]
     \<and> length (delivered p) \<le> 1
     \<and> (ConsensusThread \<in> val_threads p \<longrightarrow> should_broadcast (val_node p) \<and> accepted_blocks (val_node p) = [] \<and> delivered p = [])"

text \<open>What tasks leave alone.\<close>

definition task_keeps :: "Validator \<times> Server \<times> Node \<Rightarrow> Validator \<times> Server \<times> Node \<Rightarrow> bool" where
  "task_keeps s s' = (case s of (v, srv, nd) \<Rightarrow> case s' of (v', srv', nd') \<Rightarrow>
     (\<forall>w. subseq (coins_of v' w) (coins_of v w)) \<and> wallets_ids v' = wallets_ids v \<and> node_utxolist nd' = node_utxolist nd
     \<and> should_broadcast nd' = should_broadcast nd \<and> accepted_blocks nd' = accepted_blocks nd)"

lemma task_keeps_refl [simp]: "task_keeps s s"
  by (cases s) (simp add: task_keeps_def)

lemma task_keeps_trans: "task_keeps s s' \<Longrightarrow> task_keeps s' s'' \<Longrightarrow> task_keeps s s''"
  by (cases s; cases s'; cases s'') (auto simp: task_keeps_def intro: subseq_order.trans)

lemma OnTxReply_keeps: "OnTxReply txlist v = Inr v' \<Longrightarrow> (\<forall>w. coins_of v' w = coins_of v w) \<and> wallets_ids v' = wallets_ids v"
  unfolding OnTxReply_def
proof (erule rfold_Inr_induct [where P = "\<lambda>v'. (\<forall>w. coins_of v' w = coins_of v w) \<and> wallets_ids v' = wallets_ids v"])
  fix t s s'
  assume "(\<forall>w. coins_of s w = coins_of v w) \<and> wallets_ids s = wallets_ids v" "rbind (OnRecvTx t s) (\<lambda>(_, v). Inr v) = Inr s'"
  then show "(\<forall>w. coins_of s' w = coins_of v w) \<and> wallets_ids s' = wallets_ids v"
    using OnRecvTx_acceptable [of t s] by auto
qed simp

lemma agree_inputs_wallets: "agree_inputs i ins t ulist v = Inr v' \<Longrightarrow> wallets_ids v' = wallets_ids v"
  by (induction i ins t ulist v rule: agree_inputs.induct) (auto simp: Let_def split: if_splits)

lemma OnAgreeBlk_wallets: "OnAgreeBlk b v = Inr v' \<Longrightarrow> wallets_ids v' = wallets_ids v"
  unfolding OnAgreeBlk_def
  by (erule rfold_Inr_induct [where P = "\<lambda>v'. wallets_ids v' = wallets_ids v"])
    (auto simp: agree_tx_def Let_def dest!: agree_inputs_wallets)

lemma Listen_task_keeps: "Listen_task alive (v, srv) = Inr (v', srv') \<Longrightarrow> task_keeps (v, srv, nd) (v', srv', nd)"
  by (auto simp: Listen_task_def task_keeps_def getTransactions_eq split: if_splits dest!: OnTxReply_keeps)

lemma ProposeProcess_task_keeps:
  assumes "ProposeProcess_task rt (v, nd) = Inr (v', nd')"
  shows "task_keeps (v, srv, nd) (v', srv, nd')"
proof -
  obtain r bx where c: "CreateBlk (is_lead nd) empty_Block v = Inr (r, bx, v')" and "nd' = nd \<or> Propose rt bx nd = Inr nd'"
    using assms by (auto simp: ProposeProcess_task_def Validator_Propose_def split: if_splits)
  then have "node_utxolist nd' = node_utxolist nd \<and> should_broadcast nd' = should_broadcast nd \<and> accepted_blocks nd' = accepted_blocks nd"
    by (auto simp: Propose_def dest!: broadcastMessage_Inr)
  then show ?thesis using CreateBlk_keeps [OF c] by (simp add: task_keeps_def)
qed

lemma DBProcess_task_keeps:
  assumes "DBProcess_task (v, srv) = Inr (v', srv')"
  shows "task_keeps (v, srv, nd) (v', srv', nd)"
proof -
  obtain v1 where r: "rfold OnAgreeBlk (blist v) v = Inr v1" and v': "v' = v1\<lparr>blist := []\<rparr>"
    using assms by (auto simp: DBProcess_task_def)
  have "(\<forall>w. subseq (coins_of v1 w) (coins_of v w)) \<and> wallets_ids v1 = wallets_ids v"
    using r by (rule rfold_Inr_induct [where P = "\<lambda>v1. (\<forall>w. subseq (coins_of v1 w) (coins_of v w)) \<and> wallets_ids v1 = wallets_ids v"])
      (auto dest: OnAgreeBlk_wallets intro: subseq_order.trans [OF OnAgreeBlk_subseq])
  then show ?thesis by (simp add: v' task_keeps_def coins_of_def)
qed

lemma run_task_keeps: "run_task rt alive t s = Inr s' \<Longrightarrow> task_keeps s s'"
  by (cases t; cases s) (auto intro: Listen_task_keeps ProposeProcess_task_keeps DBProcess_task_keeps)

lemma handler_turn_keeps:
  assumes "handler_turn rt alive h s = Inr (h', s')"
  shows "task_keeps s s' \<and> subsMap h' = subsMap h"
proof (cases "publist h")
  case (Cons e rest)
  then have r: "rfold (run_task rt alive) (subsMap h e) s = Inr s'" and h': "h' = EventProcess_turn h"
    using assms by (auto simp: handler_turn_def)
  have "task_keeps s s'"
    using r by (rule rfold_Inr_induct) (auto intro: task_keeps_trans run_task_keeps)
  then show ?thesis using Cons h' by (simp add: EventProcess_turn_def)
qed (use assms in \<open>simp add: handler_turn_def\<close>)

lemma process_handler_keeps:
  assumes "process_handler rt p = Inr p'" and "process_inv p0 p"
  shows "process_inv p0 p'"
proof -
  obtain h v srv nd where t: "handler_turn rt (task_alive p) (val_handler p) (val_state p, val_server p, val_node p) = Inr (h, v, srv, nd)"
    and p': "p' = p\<lparr>val_handler := h, val_state := v, val_server := srv, val_node := nd\<rparr>" using assms(1) by (auto simp: process_handler_def)
  have "task_keeps (val_state p, val_server p, val_node p) (v, srv, nd)" "subsMap h = subsMap (val_handler p)" using handler_turn_keeps [OF t] by auto
  then show ?thesis using assms(2) unfolding p' by (auto simp: process_inv_def task_keeps_def intro: subseq_order.trans)
qed

lemma process_store_keeps: "process_inv p0 p \<Longrightarrow> process_inv p0 (process_store p)"
  by (auto simp: process_store_def DBProcess_turn_def process_inv_def getConsensusBlocks_def Let_def isConsensus_def coins_of_def
      runInLoop_def PublishEvent_def SubscriberEvent_def)

text \<open>The coins a node verifies against change in \<^verbatim>\<open>InitializeCoins\<close> only.\<close>

lemma send_ready_utxo: "send_ready rt h rnd nd = Inr nd' \<Longrightarrow> node_utxolist nd' = node_utxolist nd"
  by (auto simp: send_ready_def dest!: broadcastMessage_Inr)

lemma echo_rounds_utxo: "rfold (echo_round rt) hks nd = Inr nd' \<Longrightarrow> node_utxolist nd' = node_utxolist nd"
  by (erule rfold_Inr_induct [where P = "\<lambda>nd'. node_utxolist nd' = node_utxolist nd"])
    (auto simp: echo_round_def dest!: send_ready_utxo split: if_splits)

lemma ready_loop_utxo: "ready_loop rt hks nd = Inr nd' \<Longrightarrow> node_utxolist nd' = node_utxolist nd"
proof (induction hks arbitrary: nd)
  case (Cons hk hks)
  obtain h k where hk: "hk = (h, k)" by (cases hk)
  then obtain nd1 where
    r: "(if ready_quorum (num_faulty nd) (unat k) \<and> h \<notin> ready_sent nd then send_ready rt h 3 nd else Inr nd) = Inr nd1"
    and l: "(if delivery_quorum (num_faulty nd1) (unat k) then deliver rt h nd1 else ready_loop rt hks nd1) = Inr nd'"
    using Cons.prems by auto
  have "node_utxolist nd1 = node_utxolist nd" using r by (auto dest: send_ready_utxo split: if_splits)
  then show ?case using l Cons.IH by (auto simp: deliver_def Let_def split: if_splits)
qed simp

lemma broadcastRound_utxo:
  assumes "broadcastRound rt nd = Inr nd'"
  shows "node_utxolist nd' = node_utxolist nd"
proof -
  let ?nd = "nd\<lparr>should_broadcast := True\<rparr>"
  obtain nd1 nd2 where s: "(if send_this_round ?nd \<noteq> []
            then rbind (broadcastMessage rt ECHO (listed_block ?nd (send_this_round ?nd)) 1 ?nd)
                   (\<lambda>nd. Inr (nd\<lparr>send_this_round := []\<rparr>))
            else Inr ?nd) = Inr nd1"
    and e: "rfold (echo_round rt) (rt_order rt (echo_this_round nd1)) nd1 = Inr nd2"
    and l: "ready_loop rt (rt_order rt (ready_this_round nd2)) nd2 = Inr nd'"
    using assms by (auto simp: broadcastRound_def Let_def)
  have "node_utxolist nd1 = node_utxolist nd" using s by (auto split: if_splits dest!: broadcastMessage_Inr)
  then show ?thesis using echo_rounds_utxo [OF e] ready_loop_utxo [OF l] by simp
qed

lemma node_turn_delivers:
  assumes "node_turn rt ms nd = Inr nd'" and "\<And>l. set (rt_order rt l) = set l"
  shows "node_utxolist nd' = node_utxolist nd
    \<and> (if should_broadcast nd' then accepted_blocks nd' = accepted_blocks nd else \<exists>h. accepted_blocks nd' = accepted_blocks nd @ [h])"
proof -
  obtain nd1 where u: "updateRecvMessages ms nd = Inr nd1" and b: "broadcastRound rt nd1 = Inr nd'" using assms(1) by (auto simp: node_turn_def)
  show ?thesis
    using updateRecv_keeps [OF u] broadcastRound_utxo [OF b] broadcastRound_result(2) [OF b assms(2)] by (auto split: if_splits)
qed

lemma consensus_keeps:
  assumes "ConsensusProcess_turn rt p = Inr p'" and "process_inv p0 p" and "ConsensusThread \<in> val_threads p" and "\<And>l. set (rt_order rt l) = set l"
  shows "process_inv p0 p'"
proof -
  obtain b ms srv nd where m: "getMessages [] (val_server p) = (b, ms, srv)" by (metis prod_cases3)
  then obtain nd where t: "node_turn rt ms (val_node p) = Inr nd" and p': "p' = p\<lparr>val_server := srv, val_node := nd,
              val_threads := (if should_broadcast nd then val_threads p else val_threads p - {ConsensusThread}),
              delivered := delivered p @ drop (length (accepted_blocks (val_node p))) (accepted_blocks nd)\<rparr>"
    using assms(1) by (auto simp: ConsensusProcess_turn_def)
  show ?thesis using node_turn_delivers [OF t assms(4)] assms(2,3) unfolding p' by (auto simp: process_inv_def)
qed

lemma submit_keeps:
  assumes "process_inv p0 p"
  shows "process_inv p0 (Listen_submit p)" and "process_inv p0 (p\<lparr>listen_inside := False\<rparr>)"
    and "process_inv p0 (p\<lparr>val_handler := ProposeProcess_turn (val_handler p)\<rparr>)" and "process_inv p0 (p\<lparr>val_server := srv\<rparr>)"
  using assms
  by (simp_all add: process_inv_def Listen_submit_def Listen_turn_def ProposeProcess_turn_def runInLoop_def PublishEvent_def SubscriberEvent_def)

definition fair_order :: "runtime \<Rightarrow> bool" where
  "fair_order rt \<longleftrightarrow> (\<forall>l. set (rt_order rt l) = set l)"

interpretation process: invariant_system "\<lambda>p. fair_order rt \<and> fresh_process p0 \<and> p = Run p0" "process_step rt"
   "\<lambda>p. fair_order rt \<and> process_inv p0 p" for p0 rt
proof
  fix p p' assume s: "process_step rt p p'" and "fair_order rt \<and> process_inv p0 p"
  then have inv: "process_inv p0 p" and o: "\<And>l. set (rt_order rt l) = set l" and f: "fair_order rt" by (auto simp: fair_order_def)
  show "fair_order rt \<and> process_inv p0 p'"
    using s by (cases rule: process_step.cases)
      (simp_all add: f submit_keeps [OF inv] process_handler_keeps [OF _ inv] process_store_keeps [OF inv] consensus_keeps [OF _ inv _ o])
qed (auto simp: fresh_process_def process_inv_def Run_def ConsensusProcess_start_def new_EventHandler_def)

lemma new_Validator_fresh:
  assumes "new_Validator vid settings srv nd wids d = Inr p" and "accepted_blocks nd = []"
  shows "fresh_process (process_InitializeCoins coins p)" and "fresh_process (process_InitializeCoins coins (move_Validator p))"
  using assms
  by (auto simp: new_Validator_def fresh_process_def process_InitializeCoins_def InitializeCoins_def node_setUTXOlists_def move_Validator_def
      Let_def split: prod.splits)

section \<open>Example\<close>

definition demo_process :: ValidatorProcess where
  "demo_process = \<lparr>val_id = 2, val_ipaddr = ''localhost'', val_port = 50051, val_state = demo_validator,
     val_server = push_transaction example_spend new_Server, val_node = demo_node 0, val_handler = new_EventHandler,
     val_db = \<lparr>db_blocks = Map.empty, db_digests = [], db_filename = ''db''\<rparr>, val_threads = {}, listen_iteration = 0,
     listen_inside = False, delivered = []\<rparr>"

lemma demo_process_fresh: "fresh_process demo_process"
  by (simp add: fresh_process_def demo_process_def demo_node_def)

lemma demo_runtime_fair: "fair_order demo_runtime"
  by (simp add: fair_order_def)

lemma demo_submits:
  "process_step demo_runtime (Run demo_process) (Listen_submit (Run demo_process))"
  "process_step demo_runtime (Listen_submit (Run demo_process)) ((Listen_submit (Run demo_process))\<lparr>listen_inside := False\<rparr>)"
  "process_step demo_runtime ((Listen_submit (Run demo_process))\<lparr>listen_inside := False\<rparr>)
     (Listen_submit ((Listen_submit (Run demo_process))\<lparr>listen_inside := False\<rparr>))"
  by (intro process_step.listen process_step.listen_end;
      simp add: Run_def Listen_submit_def demo_process_def newRequests_def push_transaction_def)+

section \<open>Properties of the process\<close>

text \<open>
  C16. Whatever the threads of a validator do, in any interleaving, and whatever requests and messages arrive:
  the coins of every wallet are what is left of its initial coins, the node verifies blocks against the
  initial coins, the chain in the database never grows, and the node accepts at most one block.
\<close>

theorem validator_process_invariant:
  assumes "fair_order rt" and "fresh_process p0" and "(process_step rt)\<^sup>*\<^sup>* (Run p0) p"
  shows "(\<forall>w. subseq (coins_of (val_state p) w) (coins_of (val_state p0) w)) \<and> node_utxolist (val_node p) = node_utxolist (val_node p0)
    \<and> getBlockDigests (val_db p) = getBlockDigests (val_db p0) \<and> length (delivered p) \<le> 1"
proof -
  have "process_inv p0 p" using process.reachable_inv [OF _ assms(3)] assms(1,2) by blast
  then show ?thesis by (simp add: process_inv_def getBlockDigests_def)
qed

theorem validator_process_invariant_witness:
  "\<exists>p. (process_step demo_runtime)\<^sup>*\<^sup>* (Run demo_process) p \<and> listen_iteration p = 1
     \<and> subseq (coins_of (val_state p) 4) [UTXO 1 0 (Output 5 4)] \<and> length (delivered p) \<le> 1"
proof -
  have r: "(process_step demo_runtime)\<^sup>*\<^sup>* (Run demo_process) (Listen_submit (Run demo_process))" using demo_submits(1) by blast
  have "listen_iteration (Listen_submit (Run demo_process)) = 1" by (simp add: Listen_submit_def Run_def demo_process_def)
  moreover have "coins_of (val_state demo_process) 4 = [UTXO 1 0 (Output 5 4)]" by (simp add: demo_process_def demo_validator_def coins_of_def)
  ultimately show ?thesis using validator_process_invariant [OF demo_runtime_fair demo_process_fresh r] r by metis
qed

text \<open>
  C33. The second batch of transactions is lost: from the second iteration of \<^verbatim>\<open>Listen\<close> on, the handling of
  any transaction event first runs the task of the first iteration, which refers to a vector that no longer
  exists; whatever else the threads have done, the behaviour is undefined.
\<close>

theorem second_listen_task_undefined:
  assumes "fair_order rt" and "fresh_process p0" and "(process_step rt)\<^sup>*\<^sup>* (Run p0) p"
    and "2 \<le> listen_iteration p" and "publist (val_handler p) = TX # rest"
  shows "process_handler rt p = Inl (Undefined_behaviour ''dangling reference'')"
proof -
  have "process_inv p0 p" using process.reachable_inv [OF _ assms(3)] assms(1,2) by blast
  moreover have "[1..<Suc (listen_iteration p)] = 1 # [2..<Suc (listen_iteration p)]"
    using assms(4) by (subst upt_conv_Cons) (simp_all add: numeral_2_eq_2)
  ultimately have "subsMap (val_handler p) TX = ListenTask 1 # map ListenTask [2..<Suc (listen_iteration p)]"
    unfolding process_inv_def by (simp only: list.map)
  moreover have "\<not> task_alive p 1" using assms(4) by (simp add: task_alive_def)
  ultimately show ?thesis using assms(5) by (simp add: process_handler_def handler_turn_def Listen_task_def)
qed

theorem second_listen_task_undefined_witness:
  "\<exists>p. (process_step demo_runtime)\<^sup>*\<^sup>* (Run demo_process) p \<and> process_handler demo_runtime p = Inl (Undefined_behaviour ''dangling reference'')"
proof -
  let ?p = "Listen_submit ((Listen_submit (Run demo_process))\<lparr>listen_inside := False\<rparr>)"
  have r: "(process_step demo_runtime)\<^sup>*\<^sup>* (Run demo_process) ?p"
    using demo_submits by (meson converse_rtranclp_into_rtranclp r_into_rtranclp)
  have "listen_iteration ?p = 2" "publist (val_handler ?p) = [TX, TX]"
    by (simp_all add: Listen_submit_def Run_def demo_process_def Listen_turn_def runInLoop_def PublishEvent_def SubscriberEvent_def new_EventHandler_def)
  then show ?thesis using second_listen_task_undefined [OF demo_runtime_fair demo_process_fresh r] r by auto
qed
end
