(* ===== verification/Client.thy ===== *)
theory Client
  imports Message Settings
begin

text \<open>
  The clients of \<^verbatim>\<open>include/comms/client.h\<close> and \<^verbatim>\<open>lib/comms/client.cc\<close>: the validator's client keeps one
  queue of messages per server and one thread per queue that sends them; the wallet's client sends
  requests to the leader. A remote call is the request handed to gRPC; its delivery is the
  environment's.
\<close>

section \<open>The validator's client\<close>

record ValidatorClient =
  cl_servers :: "string list"
  cl_leader :: string
  message_queues :: "string \<rightharpoonup> Message list"
  cl_sent :: "(string \<times> chat_Message) list"

text \<open>The number of threads is kept in eight bits.\<close>

definition startThreads :: "ValidatorClient \<Rightarrow> ValidatorClient" where
  "startThreads c = (let num_servers = (of_nat (length (cl_servers c)) :: u8) in
     foldl (\<lambda>c i. c\<lparr>message_queues := (message_queues c)(cl_servers c ! i \<mapsto> [])\<rparr>) c [0..<unat num_servers])"

definition new_ValidatorClient :: "Settings \<Rightarrow> ValidatorClient" where
  "new_ValidatorClient settings = startThreads \<lparr>cl_servers = getValidatorAdresses settings,
     cl_leader = fst (getLeaderAddress settings), message_queues = Map.empty, cl_sent = []\<rparr>"

text \<open>\<^verbatim>\<open>message_queues_[address]->push(message)\<close>: a missing queue is a null pointer.\<close>

definition push_queue :: "string \<Rightarrow> Message \<Rightarrow> ValidatorClient \<Rightarrow> ValidatorClient res" where
  "push_queue addr message c = (case message_queues c addr of
       None \<Rightarrow> Inl (Undefined_behaviour ''null queue'')
     | Some q \<Rightarrow> Inr (c\<lparr>message_queues := (message_queues c)(addr \<mapsto> q @ [message])\<rparr>))"

definition Broadcast :: "Message \<Rightarrow> ValidatorClient \<Rightarrow> ValidatorClient res" where
  "Broadcast message c = rfold (\<lambda>addr c. push_queue addr message c) (cl_servers c) c"

definition Client_SendToLeader :: "Message \<Rightarrow> ValidatorClient \<Rightarrow> ValidatorClient res" where
  "Client_SendToLeader message c = push_queue (cl_leader c) message c"

text \<open>One turn of the thread of a server that finds its queue filled.\<close>

definition RunThread_turn :: "string \<Rightarrow> ValidatorClient \<Rightarrow> ValidatorClient res" where
  "RunThread_turn addr c = (case message_queues c addr of
       Some (msg # q) \<Rightarrow> rbind (toProtoMessage msg) (\<lambda>p.
         Inr (c\<lparr>message_queues := (message_queues c)(addr \<mapsto> q), cl_sent := cl_sent c @ [(addr, p)]\<rparr>))
     | _ \<Rightarrow> Inr c)"

section \<open>The wallet's client\<close>

text \<open>The requests of \<^verbatim>\<open>ChatClient\<close>, and what \<^verbatim>\<open>Sync\<close> does with the reply.\<close>

definition NewTx_request :: "Transaction \<Rightarrow> chat_Transaction res" where
  "NewTx_request transaction = toProtoTransaction transaction chat_Transaction_empty"

definition Sync_result :: "chat_UTXO list \<Rightarrow> UTXOlist \<Rightarrow> UTXOlist" where
  "Sync_result reply utxolist = fromProtoUTXOlist utxolist reply"

text \<open>The constructor of \<^verbatim>\<open>WalletClientImpl\<close>: the address of the leader, and the settings, which the lookup may change.\<close>

definition new_WalletClient :: "Settings \<Rightarrow> string \<times> Settings" where
  "new_WalletClient settings = getLeaderAddress settings"

text \<open>\<^verbatim>\<open>WalletClientImpl\<close>: the status of the call is not looked at, and the result is always 1.\<close>

definition Wallet_SendToLeader :: "Transaction \<Rightarrow> (int \<times> chat_Transaction) res" where
  "Wallet_SendToLeader transaction = rbind (NewTx_request transaction) (\<lambda>p. Inr (1, p))"

definition SendSyncRequest :: "chat_UTXO list \<Rightarrow> UTXOlist \<Rightarrow> int \<times> UTXOlist" where
  "SendSyncRequest reply utxolist = (1, Sync_result reply utxolist)"

section \<open>Lemmas\<close>

lemma startThreads_fold:
  "foldl (\<lambda>c i. c\<lparr>message_queues := (message_queues c)(cl_servers c ! i \<mapsto> [])\<rparr>) c is
   = c\<lparr>message_queues := (\<lambda>a. if a \<in> (\<lambda>i. cl_servers c ! i) ` set is then Some [] else message_queues c a)\<rparr>"
  by (induction "is" arbitrary: c) (auto simp: fun_eq_iff)

lemma queues_startThreads:
  "message_queues c = Map.empty \<Longrightarrow> message_queues (startThreads c) a =
     (if a \<in> set (take (unat (of_nat (length (cl_servers c)) :: u8)) (cl_servers c)) then Some [] else None)"
proof -
  assume e: "message_queues c = Map.empty"
  have le: "unat (of_nat (length (cl_servers c)) :: u8) \<le> length (cl_servers c)"
    by (simp add: unat_of_nat)
  define n where "n = unat (of_nat (length (cl_servers c)) :: u8)"
  have "n \<le> length (cl_servers c)" using le by (simp add: n_def)
  then have "(\<lambda>i. cl_servers c ! i) ` set [0..<n] = set (take n (cl_servers c))" using nth_image by simp
  then show ?thesis unfolding startThreads_def Let_def n_def [symmetric] startThreads_fold by (simp add: e)
qed

lemma servers_startThreads [simp]: "cl_servers (startThreads c) = cl_servers c"
  by (simp add: startThreads_def startThreads_fold Let_def)

lemma push_all_queues:
  assumes "distinct addrs"
  shows "rfold (\<lambda>addr c. push_queue addr m c) addrs c =
    (if set addrs \<subseteq> dom (message_queues c)
     then Inr (c\<lparr>message_queues := (\<lambda>a. if a \<in> set addrs then map_option (\<lambda>q. q @ [m]) (message_queues c a) else message_queues c a)\<rparr>)
     else Inl (Undefined_behaviour ''null queue''))"
  using assms
proof (induction addrs arbitrary: c)
  case (Cons a addrs)
  show ?case
  proof (cases "message_queues c a")
    case None
    then show ?thesis by (auto simp: push_queue_def)
  next
    case (Some q)
    let ?c = "c\<lparr>message_queues := (message_queues c)(a \<mapsto> q @ [m])\<rparr>"
    have d: "set addrs \<subseteq> dom (message_queues ?c) \<longleftrightarrow> set (a # addrs) \<subseteq> dom (message_queues c)"
      using Some Cons.prems by auto
    have "(\<lambda>b. if b \<in> set addrs then map_option (\<lambda>q. q @ [m]) (message_queues ?c b) else message_queues ?c b)
      = (\<lambda>b. if b \<in> set (a # addrs) then map_option (\<lambda>q. q @ [m]) (message_queues c b) else message_queues c b)"
      using Some Cons.prems by (auto simp: fun_eq_iff)
    then show ?thesis
      using Cons.IH [of ?c] Cons.prems Some d by (simp add: push_queue_def del: fun_upd_apply cong: if_cong)
  qed
qed (simp add: fun_eq_iff)

section \<open>Properties of the clients\<close>

text \<open>
  C37. A broadcast reaches every server exactly once, for up to 255 servers with different addresses:
  right after the client has started its threads, \<^verbatim>\<open>Broadcast\<close> puts the message into every queue. With
  256 servers or more the thread count wraps around, some servers have no queue, and \<^verbatim>\<open>Broadcast\<close>
  dereferences a null pointer.
\<close>

theorem broadcast_reaches_all:
  assumes "distinct (cl_servers c)" and "message_queues c = Map.empty"
  shows "if length (cl_servers c) < 256
     then \<exists>c'. Broadcast m (startThreads c) = Inr c' \<and> (\<forall>a \<in> set (cl_servers c). message_queues c' a = Some [m])
     else Broadcast m (startThreads c) = Inl (Undefined_behaviour ''null queue'')"
proof (cases "length (cl_servers c) < 256")
  case True
  then have "unat (of_nat (length (cl_servers c)) :: u8) = length (cl_servers c)" by (simp add: unat_of_nat)
  then have "message_queues (startThreads c) a = (if a \<in> set (cl_servers c) then Some [] else None)" for a
    using queues_startThreads [OF assms(2)] by simp
  then show ?thesis using True push_all_queues [OF assms(1), of m "startThreads c"] by (auto simp: Broadcast_def)
next
  case False
  let ?n = "length (cl_servers c) mod 256"
  have n: "unat (of_nat (length (cl_servers c)) :: u8) = ?n" by (simp add: unat_of_nat)
  have lt: "?n < length (cl_servers c)" using False mod_less_divisor [of 256 "length (cl_servers c)"] by linarith
  have "cl_servers c ! ?n \<notin> set (take ?n (cl_servers c))"
  proof
    assume "cl_servers c ! ?n \<in> set (take ?n (cl_servers c))"
    then obtain i where "i < ?n" "cl_servers c ! i = cl_servers c ! ?n" using lt by (auto simp: in_set_conv_nth)
    then show False using assms(1) lt by (simp add: nth_eq_iff_index_eq)
  qed
  then have "message_queues (startThreads c) (cl_servers c ! ?n) = None" using queues_startThreads [OF assms(2)] n by simp
  moreover have "cl_servers c ! ?n \<in> set (cl_servers c)" using lt by simp
  ultimately have "\<not> set (cl_servers c) \<subseteq> dom (message_queues (startThreads c))" by (auto simp: domIff)
  then show ?thesis using False push_all_queues [OF assms(1), of m "startThreads c"] by (simp add: Broadcast_def)
qed

theorem broadcast_reaches_all_witness:
  "\<exists>c'. Broadcast (new_Message SEND demo_block 1 0) (startThreads \<lparr>cl_servers = [''a:1'', ''b:2''], cl_leader = ''a:1'',
       message_queues = Map.empty, cl_sent = []\<rparr>) = Inr c'
     \<and> message_queues c' ''b:2'' = Some [new_Message SEND demo_block 1 0]"
  using broadcast_reaches_all [of "\<lparr>cl_servers = [''a:1'', ''b:2''], cl_leader = ''a:1'', message_queues = Map.empty, cl_sent = []\<rparr>"
      "new_Message SEND demo_block 1 0"] by auto

end
