(* ===== verification/Wallet.thy ===== *)
theory Wallet
  imports Client Server
begin

text \<open>
  The class \<^verbatim>\<open>Wallet\<close> of \<^verbatim>\<open>include/cryptowallet/wallet.h\<close> and \<^verbatim>\<open>lib/cryptowallet/wallet.cc\<close>, with the reading of
  transaction files of \<^verbatim>\<open>lib/json/jsonparser.cc\<close>: a wallet creates a signed transaction from a file, under
  a new key pair, sends it to the leader and asks the leader for its coins.
\<close>

section \<open>Transaction files\<close>

record TransInfo =
  walletid :: u32
  out_value_list :: "u64 list"
  out_walletID_list :: "u32 list"
  in_outIDX_list :: "u64 list"
  in_txID_list :: "u32 list"

definition new_TransInfo :: TransInfo where
  "new_TransInfo = \<lparr>walletid = 0, out_value_list = [], out_walletID_list = [], in_outIDX_list = [], in_txID_list = []\<rparr>"

definition read_in :: "json \<Rightarrow> TransInfo \<Rightarrow> TransInfo res" where
  "read_in el t = rbind (json_at el ''txID'') (\<lambda>jt. rbind (get_arith jt) (\<lambda>tx.
     rbind (json_at el ''outIDX'') (\<lambda>jo. rbind (get_u64 jo) (\<lambda>idx.
       Inr (t\<lparr>in_txID_list := in_txID_list t @ [tx], in_outIDX_list := in_outIDX_list t @ [idx]\<rparr>)))))"

definition read_out :: "json \<Rightarrow> TransInfo \<Rightarrow> TransInfo res" where
  "read_out el t = rbind (json_at el ''value'') (\<lambda>jv. rbind (get_u64 jv) (\<lambda>val.
     rbind (json_at el ''outwalletID'') (\<lambda>jw. rbind (get_arith jw) (\<lambda>w.
       Inr (t\<lparr>out_value_list := out_value_list t @ [val], out_walletID_list := out_walletID_list t @ [w]\<rparr>)))))"

definition TransInfo_from_json :: "json \<Rightarrow> TransInfo \<Rightarrow> TransInfo res" where
  "TransInfo_from_json j t = rbind (json_at j ''walletID'') (\<lambda>jw. rbind (get_arith jw) (\<lambda>w.
     rbind (json_at j ''ins'') (\<lambda>ji. rbind (rfold read_in (json_elements ji) (t\<lparr>walletid := w\<rparr>)) (\<lambda>t.
     rbind (json_at j ''outs'') (\<lambda>jo. rfold read_out (json_elements jo) t)))))"

text \<open>\<^verbatim>\<open>Parser(filename)\<close>: \<open>content\<close> is what the file holds, nothing when it does not open.\<close>

definition Parser_read :: "string \<Rightarrow> string option \<Rightarrow> json res" where
  "Parser_read filename content = (case content of
       None \<Rightarrow> Inl (Runtime_error (''Tx file oppen failed'' @ filename))
     | Some str \<Rightarrow> rbind (json_read str) (\<lambda>(j, _). Inr j))"

text \<open>The constructor without arguments, and \<^verbatim>\<open>output\<close>: the file that is written and its text. The name it is given is not used.\<close>

definition Parser_default :: "string option \<Rightarrow> json res" where
  "Parser_default content = Parser_read ''../../tx.json'' content"

definition Parser_output :: "string \<Rightarrow> json \<Rightarrow> (string \<times> string) res" where
  "Parser_output outname j = rbind (json_dump j) (\<lambda>str. Inr (''test.json'', str))"

section \<open>The class\<close>

text \<open>\<open>tx_id\<close> is the static counter that all wallets of a process share.\<close>

record Wallet =
  wallet_id :: u32
  pk_generator :: signature_state
  wallet_pk :: SigKey
  wallet_sk :: SigKey
  local_utxo :: UTXOlist
  wallet_random_calls :: nat

definition wallet_UpdateKeys :: "urandom \<Rightarrow> Wallet \<Rightarrow> Wallet res" where
  "wallet_UpdateKeys env w = (case KeyGen env (wallet_random_calls w) (pk_generator w) of
     (kp, r) \<Rightarrow> rbind r (\<lambda>_. Inr (w\<lparr>pk_generator := kp, wallet_pk := public_key kp, wallet_sk := private_key kp,
        wallet_random_calls := wallet_random_calls w + 2 * KEY_LEN\<rparr>)))"

definition element_at :: "'a list \<Rightarrow> nat \<Rightarrow> 'a res" where
  "element_at xs i = (if i < length xs then Inr (xs ! i) else Inl (Undefined_behaviour ''vector index''))"

definition CreateTx :: "urandom \<Rightarrow> string \<Rightarrow> string option \<Rightarrow> u32 \<Rightarrow> Wallet \<Rightarrow> (Transaction \<times> u32 \<times> Wallet) res" where
  "CreateTx env filename content tx_id w =
     rbind (Parser_read filename content) (\<lambda>jf. rbind (TransInfo_from_json jf new_TransInfo) (\<lambda>t.
     rbind (rmap (\<lambda>i. rbind (element_at (in_txID_list t) i) (\<lambda>tx. rbind (element_at (in_outIDX_list t) i) (\<lambda>idx.
              Inr (Input tx idx)))) [0..<length (in_txID_list t)]) (\<lambda>ins.
     rbind (rmap (\<lambda>i. rbind (element_at (out_value_list t) i) (\<lambda>val. rbind (element_at (out_walletID_list t) i) (\<lambda>r.
              Inr (Output val r)))) [0..<length (out_value_list t)]) (\<lambda>outs.
     rbind (wallet_UpdateKeys env w) (\<lambda>w.
       let tx = \<lparr>inputs = ins, outputs = outs, senderSig = [], senderID = ucast (wallet_id w), tx_ID = tx_id,
                 tx_public_key = wallet_pk w\<rparr> in
       rbind (Sign (Transaction_getDigest tx) (private_key (pk_generator w))) (\<lambda>signature.
         Inr (tx\<lparr>senderSig := signature\<rparr>, tx_id + 1, w)))))))"

text \<open>\<^verbatim>\<open>Sync\<close> with the leader's reply.\<close>

definition wallet_Sync :: "chat_UTXO list \<Rightarrow> Wallet \<Rightarrow> Wallet" where
  "wallet_Sync reply w = w\<lparr>local_utxo := snd (SendSyncRequest reply [])\<rparr>"

definition new_Wallet :: "urandom \<Rightarrow> u32 \<Rightarrow> Wallet res" where
  "new_Wallet env id0 = wallet_UpdateKeys env \<lparr>wallet_id = id0, pk_generator = \<lparr>public_key = \<lparr>S0 = [], S1 = []\<rparr>, private_key = \<lparr>S0 = [], S1 = []\<rparr>\<rparr>,
     wallet_pk = \<lparr>S0 = [], S1 = []\<rparr>, wallet_sk = \<lparr>S0 = [], S1 = []\<rparr>, local_utxo = [], wallet_random_calls = 0\<rparr>"

text \<open>
  \<^verbatim>\<open>SendTx\<close>: synchronise, create the transaction, send it to the leader. The result is 1 whatever the
  client reports; the request is what leaves the wallet.
\<close>

definition SendTx :: "urandom \<Rightarrow> string \<Rightarrow> string option \<Rightarrow> chat_UTXO list \<Rightarrow> u32 \<Rightarrow> Wallet
    \<Rightarrow> (int \<times> chat_Transaction \<times> u32 \<times> Wallet) res" where
  "SendTx env filename content reply tx_id w =
     rbind (CreateTx env filename content tx_id (wallet_Sync reply w)) (\<lambda>(tx, tx_id, w).
     rbind (Wallet_SendToLeader tx) (\<lambda>(_, request). Inr (1, request, tx_id, w)))"

section \<open>Lemmas\<close>

lemma UpdateKeys_Inr:
  "wallet_UpdateKeys env w = Inr w' \<Longrightarrow> key_pair (private_key (pk_generator w')) (wallet_pk w') \<and> wallet_id w' = wallet_id w"
  by (auto simp: wallet_UpdateKeys_def split: prod.splits dest: KeyGen_key_pair(2))

lemma CreateTx_signed:
  assumes "CreateTx env filename content tx_id w = Inr (tx, tx_id', w')"
  shows "Verify (Transaction_getDigest tx) (senderSig tx) (tx_public_key tx) = Inr 1 \<and> tx_ID tx = tx_id
    \<and> tx_id' = tx_id + 1 \<and> senderID tx = ucast (wallet_id w) \<and> key_pair (private_key (pk_generator w')) (tx_public_key tx)"
proof -
  obtain ins outs sig where u: "wallet_UpdateKeys env w = Inr w'" and
    s: "Sign (Transaction_getDigest \<lparr>inputs = ins, outputs = outs, senderSig = [], senderID = ucast (wallet_id w'), tx_ID = tx_id,
                 tx_public_key = wallet_pk w'\<rparr>) (private_key (pk_generator w')) = Inr sig"
    and tx: "tx = \<lparr>inputs = ins, outputs = outs, senderSig = sig, senderID = ucast (wallet_id w'), tx_ID = tx_id,
                 tx_public_key = wallet_pk w'\<rparr>" "tx_id' = tx_id + 1"
    using assms by (auto simp: CreateTx_def Let_def)
  have "Transaction_getDigest tx = Transaction_getDigest \<lparr>inputs = ins, outputs = outs, senderSig = [],
      senderID = ucast (wallet_id w'), tx_ID = tx_id, tx_public_key = wallet_pk w'\<rparr>"
    by (simp add: tx(1) Transaction_getDigest_def getStringDigest_def)
  then show ?thesis
    using lamport.verify_sign [OF _ s] UpdateKeys_Inr [OF u] tx by simp
qed

lemma TransInfo_lengths:
  assumes "TransInfo_from_json j new_TransInfo = Inr t"
  shows "length (in_txID_list t) = length (in_outIDX_list t) \<and> length (out_value_list t) = length (out_walletID_list t)"
proof -
  let ?P = "\<lambda>t. length (in_txID_list t) = length (in_outIDX_list t) \<and> length (out_value_list t) = length (out_walletID_list t)"
  obtain w t1 ji jo where r: "rfold read_in (json_elements ji) (new_TransInfo\<lparr>walletid := w\<rparr>) = Inr t1"
    "rfold read_out (json_elements jo) t1 = Inr t" using assms by (auto simp: TransInfo_from_json_def)
  have "?P t1"
    using r(1) by (rule rfold_Inr_induct [where P = ?P]) (auto simp: new_TransInfo_def read_in_def)
  with r(2) show ?thesis by (rule rfold_Inr_induct [where P = ?P]) (auto simp: read_out_def)
qed

lemma rmap_elements:
  assumes "length xs = length ys"
  shows "rmap (\<lambda>i. rbind (element_at xs i) (\<lambda>x. rbind (element_at ys i) (\<lambda>y. Inr (f x y)))) [0..<length xs] = Inr (map2 f xs ys)"
proof -
  have "rmap (\<lambda>i. rbind (element_at xs i) (\<lambda>x. rbind (element_at ys i) (\<lambda>y. Inr (f x y)))) [0..<length xs]
      = Inr (map (\<lambda>i. f (xs ! i) (ys ! i)) [0..<length xs])"
    using assms by (intro rmap_all_Inr) (simp add: element_at_def)
  also have "map (\<lambda>i. f (xs ! i) (ys ! i)) [0..<length xs] = map2 f xs ys"
    using assms by (auto intro: nth_equalityI)
  finally show ?thesis .
qed

lemma CreateTx_total:
  assumes "Parser_read filename content = Inr j" and "TransInfo_from_json j new_TransInfo = Inr t"
    and "\<And>n. open_ok env n" and "\<And>n. read_byte env n \<noteq> None"
  shows "\<exists>tx w'. CreateTx env filename content tx_id w = Inr (tx, tx_id + 1, w')
     \<and> inputs tx = map2 Input (in_txID_list t) (in_outIDX_list t)
     \<and> outputs tx = map2 Output (out_value_list t) (out_walletID_list t)
     \<and> tx_ID tx = tx_id \<and> senderID tx = ucast (wallet_id w)
     \<and> Verify (Transaction_getDigest tx) (senderSig tx) (tx_public_key tx) = Inr 1"
proof -
  obtain kp where "KeyGen env (wallet_random_calls w) (pk_generator w) = (kp, Inr 1)"
    using KeyGen_total [of env "wallet_random_calls w" "pk_generator w"] assms(3,4) by blast
  then obtain w' where u: "wallet_UpdateKeys env w = Inr w'" by (simp add: wallet_UpdateKeys_def)
  obtain sig where s: "Sign m (private_key (pk_generator w')) = Inr (sig m)" for m by (simp add: Sign_eq)
  note l = TransInfo_lengths [OF assms(2)]
  note e = rmap_elements [of "in_txID_list t" "in_outIDX_list t" Input] rmap_elements [of "out_value_list t" "out_walletID_list t" Output]
  obtain tx where c: "CreateTx env filename content tx_id w = Inr (tx, tx_id + 1, w')"
    "inputs tx = map2 Input (in_txID_list t) (in_outIDX_list t)" "outputs tx = map2 Output (out_value_list t) (out_walletID_list t)"
    using assms(1,2) l e u s by (simp add: CreateTx_def Let_def)
  then show ?thesis using CreateTx_signed [OF c(1)] by auto
qed

definition demo_payment :: json where
  "demo_payment = JObject [(''ins'', JArray [JObject [(''outIDX'', JUnsigned 0), (''txID'', JUnsigned 1)]]),
     (''outs'', JArray [JObject [(''outwalletID'', JUnsigned 7), (''value'', JUnsigned 5)]]), (''walletID'', JUnsigned 4)]"

definition demo_wallet :: Wallet where
  "demo_wallet = \<lparr>wallet_id = 4, pk_generator = \<lparr>public_key = \<lparr>S0 = [], S1 = []\<rparr>, private_key = \<lparr>S0 = [], S1 = []\<rparr>\<rparr>,
     wallet_pk = \<lparr>S0 = [], S1 = []\<rparr>, wallet_sk = \<lparr>S0 = [], S1 = []\<rparr>, local_utxo = [], wallet_random_calls = 0\<rparr>"

lemma payment_file:
  assumes "json_ascii j" and "json_ok j" and "json_norm j = j"
  shows "\<exists>str. Parser_read filename (Some str) = Inr j"
proof -
  obtain str where "json_dump j = Inr str" using json_dump_ascii [OF assms(1)] by blast
  then have "json_read str = Inr (j, [])"
    using json_read_dump [OF _ assms(2), of False 0 0 str "[]"] assms(3) by (simp add: json_dump_def ends_number_def)
  then show ?thesis by (intro exI [of _ str]) (simp add: Parser_read_def)
qed

lemma demo_payment_file: "\<exists>str. Parser_read ''pay'' (Some str) = Inr demo_payment"
  by (rule payment_file) (simp_all add: demo_payment_def)

lemma demo_payment_info:
  "TransInfo_from_json demo_payment new_TransInfo = Inr \<lparr>walletid = 4, out_value_list = [5], out_walletID_list = [7],
      in_outIDX_list = [0], in_txID_list = [1]\<rparr>"
  by (simp add: demo_payment_def TransInfo_from_json_def new_TransInfo_def read_in_def read_out_def get_arith_def get_u64_def)

lemma demo_payment_transaction:
  assumes "Parser_read ''pay'' (Some str) = Inr demo_payment"
  shows "\<exists>tx w'. CreateTx \<lparr>open_ok = \<lambda>_. True, read_byte = \<lambda>_. Some CHR ''k''\<rparr> ''pay'' (Some str) 100 demo_wallet = Inr (tx, 101, w')
     \<and> inputs tx = [Input 1 0] \<and> outputs tx = [Output 5 7] \<and> senderID tx = 4"
  using CreateTx_total [OF assms demo_payment_info, of "\<lparr>open_ok = \<lambda>_. True, read_byte = \<lambda>_. Some CHR ''k''\<rparr>" 100 demo_wallet]
  by (auto simp: demo_wallet_def)

section \<open>Properties of wallets\<close>

text \<open>
  A wallet creates what its file says: with a readable file and a working random device,
  \<^verbatim>\<open>CreateTx\<close> reads inputs and outputs pairwise from the file without leaving a vector, gives the
  transaction the next number, and signs it with a new key whose public part verifies the signature
  and travels with the transaction.
\<close>

theorem created_transaction_signed:
  assumes "Parser_read filename content = Inr j" and "TransInfo_from_json j new_TransInfo = Inr t"
    and "\<And>n. open_ok env n" and "\<And>n. read_byte env n \<noteq> None"
  shows "\<exists>tx w'. CreateTx env filename content tx_id w = Inr (tx, tx_id + 1, w')
     \<and> inputs tx = map2 Input (in_txID_list t) (in_outIDX_list t)
     \<and> outputs tx = map2 Output (out_value_list t) (out_walletID_list t)
     \<and> tx_ID tx = tx_id \<and> senderID tx = ucast (wallet_id w)
     \<and> Verify (Transaction_getDigest tx) (senderSig tx) (tx_public_key tx) = Inr 1"
  by (rule CreateTx_total [OF assms])

theorem created_transaction_signed_witness:
  "\<exists>str tx w'. CreateTx \<lparr>open_ok = \<lambda>_. True, read_byte = \<lambda>_. Some CHR ''k''\<rparr> ''pay'' (Some str) 100 demo_wallet = Inr (tx, 101, w')
     \<and> inputs tx = [Input 1 0] \<and> outputs tx = [Output 5 7]
     \<and> Verify (Transaction_getDigest tx) (senderSig tx) (tx_public_key tx) = Inr 1"
proof -
  obtain str where p: "Parser_read ''pay'' (Some str) = Inr demo_payment" using demo_payment_file by blast
  show ?thesis
    using created_transaction_signed [OF p demo_payment_info, of "\<lparr>open_ok = \<lambda>_. True, read_byte = \<lambda>_. Some CHR ''k''\<rparr>" 100 demo_wallet]
    by (auto intro!: exI [of _ str])
qed

end
