(* ===== verification/Genesis.thy ===== *)
theory Genesis
  imports Validator_Process Wallet
begin

text \<open>
  The program \<^verbatim>\<open>src/demo.cc\<close>: one process that creates the wallets, the servers, the nodes and the validators of
  a network of four, gives every wallet its first coins and runs the validators. The lemmas show that the
  coins of the validators and of the nodes agree at the start, that the nodes admit the blocks the leader
  creates from them, and that such a block is delivered everywhere.
\<close>

section \<open>The stages of the demo\<close>

definition create_servers :: "Server list" where
  "create_servers = replicate 4 (HandleRpcs_start new_Server)"

definition create_nodes :: "(nat \<Rightarrow> runtime) \<Rightarrow> Settings \<Rightarrow> Node list res" where
  "create_nodes rts settings = rmap (\<lambda>i. new_Node (rts i) (of_nat i) settings (i = 0)) [0..<4]"

text \<open>\<^verbatim>\<open>args.getValidators()[i]\<close>, \<^verbatim>\<open>servers[i]\<close> and \<^verbatim>\<open>nodes[i]\<close> are indexed without a check.\<close>

definition create_validators :: "Settings \<Rightarrow> disk \<Rightarrow> Server list \<Rightarrow> Node list \<Rightarrow> ValidatorProcess list res" where
  "create_validators settings d servers nodes = rmap (\<lambda>i.
     rbind (element_at (getValidators settings) i) (\<lambda>v. rbind (element_at servers i) (\<lambda>srv. rbind (element_at nodes i) (\<lambda>nd.
     rbind (new_Validator (ai_id v) settings srv nd (wallets settings) d) (\<lambda>p. Inr (move_Validator p))))))
     [0..<unat (getTotalNumberOfValidators settings)]"

definition demo_setup :: "(nat \<Rightarrow> runtime) \<Rightarrow> urandom \<Rightarrow> Settings \<Rightarrow> disk \<Rightarrow> (Wallet list \<times> ValidatorProcess list) res" where
  "demo_setup rts env settings d =
     rbind (rmap (new_Wallet env) (wallets settings)) (\<lambda>ws.
     rbind (rmap (element_at (getValidators settings)) [0..<4]) (\<lambda>_.
     rbind (create_nodes rts settings) (\<lambda>nodes.
     rbind (element_at nodes 0) (\<lambda>nd. if \<not> is_lead nd then Inl (Assertion_failed ''isLeader'') else
     rbind (create_validators settings d create_servers nodes) (\<lambda>vals.
       Inr (ws, map (\<lambda>p. Run (process_InitializeCoins 100 p)) vals))))))"

section \<open>The first coins\<close>

text \<open>The validator's view of the coins is the node's, wallet by wallet, and no two coins refer to the same output.\<close>

definition genesis_ok :: "Validator \<Rightarrow> UTXOlist \<Rightarrow> bool" where
  "genesis_ok v l \<longleftrightarrow> (\<forall>w. coins_of v w = filter (\<lambda>u. out_receiverID (utxo_output u) = w) l) \<and> coins_distinct l \<and> length l = length (wallets_ids v)"

definition first_coin :: "u64 \<Rightarrow> u32 \<Rightarrow> u32 \<Rightarrow> UTXO" where
  "first_coin coins i w = UTXO i 0 (Output coins w)"

definition genesis_coins :: "u64 \<Rightarrow> u32 list \<Rightarrow> UTXOlist" where
  "genesis_coins coins ids = map (\<lambda>k. first_coin coins (of_nat k) (ids ! k)) [0..<length ids]"

lemma initial_coins_eq:
  "\<exists>v' new. initial_coins ids coins t v l = (v', l @ new) \<and> length new = length ids \<and> wallets_ids v' = wallets_ids v \<and> memory_pool v' = memory_pool v
     \<and> (\<forall>k < length ids. new ! k = first_coin coins (t + of_nat k) (ids ! k))
     \<and> (\<forall>w. coins_of v' w = coins_of v w @ filter (\<lambda>u. out_receiverID (utxo_output u) = w) new)"
proof (induction ids arbitrary: t v l)
  case (Cons w ids)
  let ?u = "first_coin coins t w"
  let ?v = "v\<lparr>utxo_sets := (utxo_sets v)(w \<mapsto> coins_of v w @ [?u])\<rparr>"
  obtain v' new where n: "initial_coins ids coins (t + 1) ?v (l @ [?u]) = (v', (l @ [?u]) @ new)" "length new = length ids"
    "wallets_ids v' = wallets_ids v" "memory_pool v' = memory_pool v" "\<forall>k < length ids. new ! k = first_coin coins (t + 1 + of_nat k) (ids ! k)"
    "\<forall>w'. coins_of v' w' = coins_of ?v w' @ filter (\<lambda>u. out_receiverID (utxo_output u) = w') new"
    using Cons [of "t + 1" ?v "l @ [?u]"] by auto
  have "coins_of ?v w' = coins_of v w' @ filter (\<lambda>u. out_receiverID (utxo_output u) = w') [?u]" for w'
    by (simp add: coins_of_def first_coin_def)
  moreover have "initial_coins (w # ids) coins t v l = (v', l @ ?u # new)"
    using n(1) by (simp add: Let_def first_coin_def utxolist_add_def)
  moreover have "(?u # new) ! k = first_coin coins (t + of_nat k) ((w # ids) ! k)" if "k < length (w # ids)" for k
    using that n(5) by (cases k) (simp_all add: add.assoc)
  ultimately show ?case using n(2-4,6) by (intro exI [of _ v'] exI [of _ "?u # new"]) auto
qed simp

lemma genesis_coins_distinct:
  assumes "length ids < 2 ^ 32"
  shows "coins_distinct (genesis_coins coins ids)"
proof -
  have "a = b" if "a < length ids" "b < length ids" "(of_nat a :: u32) = of_nat b" for a b
    using that assms by (simp add: word_of_nat_eq_iff take_bit_nat_eq_self)
  then show ?thesis
    by (auto simp: coins_distinct_def genesis_coins_def coin_input_def first_coin_def comp_def distinct_map inj_on_def)
qed

lemma InitializeCoins_genesis:
  assumes "InitializeCoins coins (v, srv, nd) = (v', srv', nd')" and "utxo_sets v = Map.empty" and "length (wallets_ids v) < 2 ^ 32"
  shows "genesis_ok v' (genesis_coins coins (wallets_ids v)) \<and> wallets_ids v' = wallets_ids v \<and> memory_pool v' = memory_pool v
    \<and> nd' = nd\<lparr>node_utxolist := genesis_coins coins (wallets_ids v), node_wallet_ids := wallets_ids v\<rparr>"
proof -
  obtain v1 new where i: "initial_coins (wallets_ids v) coins 0 v [] = (v1, [] @ new)" "length new = length (wallets_ids v)" "wallets_ids v1 = wallets_ids v"
    "memory_pool v1 = memory_pool v" "\<forall>k < length (wallets_ids v). new ! k = first_coin coins (0 + of_nat k) (wallets_ids v ! k)"
    "\<forall>w. coins_of v1 w = coins_of v w @ filter (\<lambda>u. out_receiverID (utxo_output u) = w) new"
    using initial_coins_eq [of "wallets_ids v" coins 0 v "[]"] by blast
  have "new = genesis_coins coins (wallets_ids v)" using i(2,5) by (intro nth_equalityI) (simp_all add: genesis_coins_def)
  moreover have "coins_of v w = []" for w using assms(2) by (simp add: coins_of_def)
  ultimately show ?thesis
    using assms(1) i genesis_coins_distinct [OF assms(3)] by (auto simp: InitializeCoins_def genesis_ok_def node_setUTXOlists_def)
qed

section \<open>Blocks made from the first coins\<close>

lemma disjoint_block_inputs:
  assumes "inputs_disjoint ts" and "\<forall>t \<in> set ts. distinct (inputs t)"
  shows "distinct (concat (map inputs ts))"
  using assms
proof (induction ts rule: rev_induct)
  case (snoc t ts)
  have "set (inputs u) \<inter> set (inputs t) = {}" if "u \<in> set ts" for u
  proof -
    obtain i where "i < length ts" "u = ts ! i" using \<open>u \<in> set ts\<close> by (auto simp: in_set_conv_nth)
    then show ?thesis using snoc.prems(1) [unfolded inputs_disjoint_def, rule_format, of i "length ts"] by (simp add: nth_append)
  qed
  moreover have "inputs_disjoint ts"
    unfolding inputs_disjoint_def
  proof (intro allI impI)
    fix i j assume "i < j \<and> j < length ts"
    then show "set (inputs (ts ! i)) \<inter> set (inputs (ts ! j)) = {}"
      using snoc.prems(1) [unfolded inputs_disjoint_def, rule_format, of i j] by (simp add: nth_append)
  qed
  ultimately show ?case using snoc by auto
qed simp

lemma created_block_admitted:
  assumes "genesis_ok v l" and "memory_pool v \<noteq> []" and "\<forall>t \<in> set (memory_pool v). distinct (inputs t)" and "length l < 2 ^ 31"
  shows "\<exists>bx v'. CreateBlk True empty_Block v = Inr (1, bx, v') \<and> memory_pool v' = [] \<and> \<not> block_mutable bx
    \<and> set (txs bx) \<subseteq> set (memory_pool v) \<and> inputs_disjoint (txs bx) \<and> verify bx l (wallets_ids v)
    \<and> (\<forall>t \<in> set (memory_pool v). checkSpendingConditions t (coins_of v (ucast (senderID t))) (wallets_ids v) \<longrightarrow>
         t \<in> set (txs bx) \<or> (\<exists>u \<in> set (txs bx). set (inputs u) \<inter> set (inputs t) \<noteq> {}))"
proof -
  obtain bx v' where c: "CreateBlk True empty_Block v = Inr (1, bx, v')" "memory_pool v' = []" "\<not> block_mutable bx" "inputs_disjoint (txs bx)"
    "\<forall>t \<in> set (txs bx). t \<in> set (memory_pool v) \<and> checkSpendingConditions t (coins_of v (ucast (senderID t))) (wallets_ids v)"
    "\<forall>t \<in> set (memory_pool v). checkSpendingConditions t (coins_of v (ucast (senderID t))) (wallets_ids v) \<longrightarrow>
         t \<in> set (txs bx) \<or> (\<exists>u \<in> set (txs bx). set (inputs u) \<inter> set (inputs t) \<noteq> {})"
    using CreateBlk_valid [OF assms(2)] by blast
  have sub: "set (coins_of v w) \<subseteq> set l" and d: "coins_distinct l" for w using assms(1) by (auto simp: genesis_ok_def)
  have ok: "checkSpendingConditions t l (wallets_ids v)" if "t \<in> set (txs bx)" for t
    using c(5) that spending_conditions_mono [OF _ sub d] by blast
  have di: "distinct (block_inputs bx)"
    unfolding block_inputs_def using c(4,5) assms(3) by (intro disjoint_block_inputs) auto
  have "set (block_inputs bx) \<subseteq> coin_input ` set l"
  proof
    fix i assume "i \<in> set (block_inputs bx)"
    then obtain t where t: "t \<in> set (txs bx)" "i \<in> set (inputs t)" by (auto simp: block_inputs_def)
    then show "i \<in> coin_input ` set l" using ok [OF t(1)] by (fastforce simp: checkSpendingConditions_iff coin_input_matches split: if_splits)
  qed
  then have "card (set (block_inputs bx)) \<le> card (coin_input ` set l)" by (intro card_mono) simp_all
  also have "\<dots> \<le> length l" by (metis card_length list.set_map length_map)
  finally have "length (block_inputs bx) < 2 ^ 31" using di assms(4) by (simp add: distinct_card)
  then have "verify bx l (wallets_ids v)" using verify_iff ok di by blast
  then show ?thesis using c by (intro exI [of _ bx] exI [of _ v']) auto
qed

lemma new_Node_awaits:
  assumes "new_Node rt vid settings lead = Inr nd" and "verify b l ids"
  shows "awaits SEND b (nd\<lparr>node_utxolist := l, node_wallet_ids := ids, should_broadcast := flag\<rparr>)" and "val_sig_keys nd = Map.empty" and "node_id nd = vid"
    and "outbox nd = []" and "accepted_blocks nd = []" and "is_lead nd = lead"
  using assms
  by (auto simp: new_Node_def Let_def awaits_def valid_pair_def admits_def keeps_block_def split: prod.splits dest!: node_KeyGen_Inr)

lemma new_Node_counts:
  assumes "new_Node rt vid settings lead = Inr nd" and "ucast vid \<in> fst ` set (validators settings)"
  shows "num_nodes nd = ucast (getTotalNumberOfValidators settings)" and "num_faulty nd = ucast (getNumberOfFaultyValidators settings)"
proof -
  obtain info where "map_of (validators settings) (ucast vid) = Some info" using assms(2) by (metis map_of_eq_None_iff not_None_eq)
  then show "num_nodes nd = ucast (getTotalNumberOfValidators settings)" and "num_faulty nd = ucast (getNumberOfFaultyValidators settings)"
    using assms(1) by (auto simp: new_Node_def getValidatorInfo_def validator_at_def Let_def)
qed

lemma started_process:
  assumes "new_Validator vid settings srv nd wids d = Inr p" and "length wids < 2 ^ 32" and "q = Run (process_InitializeCoins coins (move_Validator p))"
  shows "genesis_ok (val_state q) (genesis_coins coins wids)" and "wallets_ids (val_state q) = wids" and "memory_pool (val_state q) = []"
    and "val_node q = nd\<lparr>node_utxolist := genesis_coins coins wids, node_wallet_ids := wids, should_broadcast := True\<rparr>"
    and "\<exists>m. val_server q = setUTXOlists m srv"
proof -
  let ?p = "move_Validator p"
  have v: "utxo_sets (val_state ?p) = Map.empty" "wallets_ids (val_state ?p) = wids" "memory_pool (val_state ?p) = []" "val_node ?p = nd"
    using assms(1) by (auto simp: new_Validator_def move_Validator_def Let_def)
  obtain v' srv' nd' where i: "InitializeCoins coins (val_state ?p, val_server ?p, val_node ?p) = (v', srv', nd')" by (metis prod_cases3)
  note g = InitializeCoins_genesis [OF i v(1)]
  have q: "val_state q = v'" "val_node q = nd'\<lparr>should_broadcast := True\<rparr>"
    using i by (simp_all add: assms(3) process_InitializeCoins_def Run_def ConsensusProcess_start_def)
  show "genesis_ok (val_state q) (genesis_coins coins wids)" and "wallets_ids (val_state q) = wids" and "memory_pool (val_state q) = []"
    and "val_node q = nd\<lparr>node_utxolist := genesis_coins coins wids, node_wallet_ids := wids, should_broadcast := True\<rparr>"
    using g v assms(2) q by auto
  show "\<exists>m. val_server q = setUTXOlists m srv"
    using i assms(1) by (auto simp: assms(3) process_InitializeCoins_def Run_def InitializeCoins_def new_Validator_def move_Validator_def Let_def split: prod.splits)
qed

lemma demo_setup_parts:
  assumes "demo_setup rts env settings d = Inr (ws, ps)" and "map fst (validators settings) = [0, 1, 2, 3]" and "length (wallets settings) < 2 ^ 32" and "i < 4"
  shows "length ps = 4"
    and "\<exists>nd. new_Node (rts i) (of_nat i) settings (i = 0) = Inr nd
      \<and> val_node (ps ! i) = nd\<lparr>node_utxolist := genesis_coins 100 (wallets settings), node_wallet_ids := wallets settings, should_broadcast := True\<rparr>"
    and "genesis_ok (val_state (ps ! i)) (genesis_coins 100 (wallets settings)) \<and> wallets_ids (val_state (ps ! i)) = wallets settings"
    and "memory_pool (val_state (ps ! i)) = []" and "\<exists>m. val_server (ps ! i) = setUTXOlists m (HandleRpcs_start new_Server)"
proof -
  have n: "length (validators settings) = 4" using arg_cong [OF assms(2), of length] by simp
  then have t: "unat (getTotalNumberOfValidators settings) = 4" by (simp add: getTotalNumberOfValidators_def)
  obtain nodes vals where nodes: "create_nodes rts settings = Inr nodes" and vals: "create_validators settings d create_servers nodes = Inr vals"
    and ps: "ps = map (\<lambda>p. Run (process_InitializeCoins 100 p)) vals"
    using assms(1) by (auto simp: demo_setup_def split: if_splits)
  have l: "length vals = 4" using rmap_Inr_length [OF vals [unfolded create_validators_def]] t by simp
  then show "length ps = 4" by (simp add: ps)
  have ln: "length nodes = 4" using rmap_Inr_length [OF nodes [unfolded create_nodes_def]] by simp
  have nd: "new_Node (rts i) (of_nat i) settings (i = 0) = Inr (nodes ! i)"
    using list_all2_nthD2 [OF rmap_list_all2 [OF nodes [unfolded create_nodes_def]], of i] assms(4) ln by simp
  obtain p where p: "new_Validator (ai_id (getValidators settings ! i)) settings (create_servers ! i) (nodes ! i) (wallets settings) d = Inr p"
    "vals ! i = move_Validator p"
    using list_all2_nthD2 [OF rmap_list_all2 [OF vals [unfolded create_validators_def]], of i] assms(4) l t ln
    by (auto simp: element_at_def split: if_splits)
  have q: "ps ! i = Run (process_InitializeCoins 100 (move_Validator p))" using p(2) l assms(4) by (simp add: ps)
  note f = started_process [OF p(1) assms(3) q]
  show "\<exists>nd. new_Node (rts i) (of_nat i) settings (i = 0) = Inr nd
      \<and> val_node (ps ! i) = nd\<lparr>node_utxolist := genesis_coins 100 (wallets settings), node_wallet_ids := wallets settings, should_broadcast := True\<rparr>"
    using nd f(4) by blast
  show "genesis_ok (val_state (ps ! i)) (genesis_coins 100 (wallets settings)) \<and> wallets_ids (val_state (ps ! i)) = wallets settings"
    using f(1,2) by blast
  show "memory_pool (val_state (ps ! i)) = []" using f(3) .
  have "create_servers ! i = HandleRpcs_start new_Server" using assms(4) by (simp add: create_servers_def)
  then show "\<exists>m. val_server (ps ! i) = setUTXOlists m (HandleRpcs_start new_Server)" using f(5) by simp
qed

lemma genesis_network:
  assumes "\<And>i. i < length nodes \<Longrightarrow> \<exists>nd. new_Node (rts i) (of_nat i) settings (i = 0) = Inr nd
      \<and> nodes ! i = nd\<lparr>node_utxolist := l, node_wallet_ids := ids, should_broadcast := True\<rparr>"
    and "verify b l ids" and "length nodes < 2 ^ 16"
  shows "network_ok SEND b [] nodes"
  unfolding network_ok_def
proof (intro conjI ballI)
  have id: "node_id (nodes ! i) = of_nat i" "awaits SEND b (nodes ! i)" "val_sig_keys (nodes ! i) = Map.empty" if "i < length nodes" for i
    using assms(1) [OF that] new_Node_awaits [OF _ assms(2), of "rts i" "of_nat i" settings "i = 0"] by auto
  have "(of_nat a :: u16) \<noteq> of_nat c" if "a < length nodes" "c < length nodes" "a \<noteq> c" for a c
    using that assms(3) by (simp add: word_of_nat_eq_iff take_bit_nat_eq_self)
  then show "distinct (map node_id nodes)" using id by (simp add: distinct_conv_nth)
  show "awaits SEND b nd" if "nd \<in> set nodes" for nd using that id by (auto simp: in_set_conv_nth)
  show "in_sync [] r s" if "r \<in> set nodes" for r s using that id by (auto simp: in_set_conv_nth in_sync_def)
qed simp_all

lemma new_Node_total:
  assumes "device_works rt"
  shows "\<exists>nd. new_Node rt vid settings lead = Inr nd \<and> is_lead nd = lead"
proof -
  obtain g where "\<And>k s. KeyGen (rt_random rt) k s = (g k s, Inr 1)"
    using KeyGen_total [of "rt_random rt"] assms unfolding device_works_def by metis
  then show ?thesis by (simp add: new_Node_def node_KeyGen_def Let_def split_beta)
qed

lemma new_Wallet_total:
  assumes "\<And>n. open_ok env n" and "\<And>n. read_byte env n \<noteq> None"
  shows "\<exists>w. new_Wallet env vid = Inr w"
proof -
  obtain g where "\<And>k s. KeyGen env k s = (g k s, Inr 1)" using KeyGen_total [of env] assms by metis
  then show ?thesis by (simp add: new_Wallet_def wallet_UpdateKeys_def)
qed

lemma demo_setup_total:
  assumes "map fst (validators settings) = [0, 1, 2, 3]" and "\<And>i. device_works (rts i)" and "\<And>n. open_ok env n" and "\<And>n. read_byte env n \<noteq> None"
    and "files d = Map.empty"
  shows "\<exists>ws ps. demo_setup rts env settings d = Inr (ws, ps)"
proof -
  have n: "length (validators settings) = 4" using arg_cong [OF assms(1), of length] by simp
  then have t: "unat (getTotalNumberOfValidators settings) = 4" "length (getValidators settings) = 4"
    by (simp_all add: getTotalNumberOfValidators_def getValidators_def)
  obtain ws where ws: "rmap (new_Wallet env) (wallets settings) = Inr ws"
    using rmap_Inr_exists [of "wallets settings" "new_Wallet env"] new_Wallet_total [OF assms(3,4)] by blast
  have "rmap (element_at (getValidators settings)) [0..<4] = Inr (map ((!) (getValidators settings)) [0..<4])"
    using t by (intro rmap_all_Inr) (simp add: element_at_def)
  moreover have "\<exists>nodes. create_nodes rts settings = Inr nodes"
    unfolding create_nodes_def
  proof (rule rmap_Inr_exists)
    show "\<exists>nd. new_Node (rts i) (of_nat i) settings (i = 0) = Inr nd" for i
      using new_Node_total [OF assms(2), of i "of_nat i" settings "i = 0"] by blast
  qed
  then obtain nodes where nodes: "create_nodes rts settings = Inr nodes" ..
  moreover have ln: "length nodes = 4" using rmap_Inr_length [OF nodes [unfolded create_nodes_def]] by simp
  moreover have "is_lead (nodes ! 0)"
    using list_all2_nthD2 [OF rmap_list_all2 [OF nodes [unfolded create_nodes_def]], of 0] new_Node_total [OF assms(2), of 0 0 settings True] ln by auto
  moreover obtain vals where "create_validators settings d create_servers nodes = Inr vals"
  proof -
    have "\<exists>p. new_Validator vid settings srv nd (wallets settings) d = Inr p" for vid srv nd
      using assms(5) by (simp add: new_Validator_def new_Database_def Let_def)
    then have "\<forall>vid srv nd. \<exists>p. new_Validator vid settings srv nd (wallets settings) d = Inr p" by blast
    then obtain g where "new_Validator vid settings srv nd (wallets settings) d = Inr (g vid srv nd)" for vid srv nd
      unfolding choice_iff by blast
    then have "create_validators settings d create_servers nodes
       = Inr (map (\<lambda>i. move_Validator (g (ai_id (getValidators settings ! i)) (create_servers ! i) (nodes ! i))) [0..<4])"
      unfolding create_validators_def t(1) using t(2) ln by (intro rmap_all_Inr) (simp add: element_at_def create_servers_def)
    then show thesis by (rule that)
  qed
  moreover have "nodes \<noteq> []" using ln by auto
  ultimately show ?thesis using ws by (simp add: demo_setup_def element_at_def)
qed

definition demo_settings :: Settings where
  "demo_settings = new_Settings (map (\<lambda>i. \<lparr>ai_id = i, ai_address = ''localhost'', ai_port = 50051 + i, ai_faulty = False\<rparr>) [0, 1, 2, 3]) 0 [4, 7, 8] 0 4"

definition demo_tx :: Transaction where
  "demo_tx = example_spend\<lparr>inputs := [Input 0 0], outputs := [Output 60 7, Output 40 8]\<rparr>"

definition demo_disk :: disk where
  "demo_disk = \<lparr>files = Map.empty, writable = (\<lambda>_. True)\<rparr>"

lemma pool_delivered:
  assumes "demo_setup rts env settings d = Inr (ws, ps)" and "map fst (validators settings) = [0, 1, 2, 3]"
    and "unat (getNumberOfFaultyValidators settings) \<le> 1" and "length (wallets settings) < 2 ^ 31"
    and "\<And>i. runtime_ok (rts i)" and "shuffles arrival" and "memory_pool v \<noteq> []"
    and "\<forall>t \<in> set (memory_pool v). distinct (inputs t) \<and> key_writable (tx_public_key t)"
    and "genesis_ok v (genesis_coins 100 (wallets settings))" and "wallets_ids v = wallets settings"
  shows "\<exists>v' ld b nodes'. ProposeProcess_task (rts 0) (v, val_node (ps ! 0)) = Inr (v', ld)
    \<and> (\<forall>w. coins_of v' w = coins_of v w) \<and> wallets_ids v' = wallets_ids v \<and> set (txs b) \<subseteq> set (memory_pool v) \<and> inputs_disjoint (txs b)
    \<and> (\<forall>t \<in> set (memory_pool v). checkSpendingConditions t (coins_of v (ucast (senderID t))) (wallets settings)
         \<longrightarrow> t \<in> set (txs b) \<or> (\<exists>u \<in> set (txs b). set (inputs u) \<inter> set (inputs t) \<noteq> {}))
    \<and> network_run rts arrival 3 (outbox ld) ((map val_node ps)[0 := ld]) = Inr (nodes', [])
    \<and> (\<forall>i < 4. accepted_blocks (nodes' ! i) = [block_hash b] \<and> isConsensus (nodes' ! i) \<and> same_block b (getReceivedBlock (block_hash b) (nodes' ! i)))"
proof -
  let ?l = "genesis_coins 100 (wallets settings)" let ?nodes = "map val_node ps"
  have len: "length (wallets settings) < 2 ^ 32" "length ?l < 2 ^ 31" using assms(4) by (simp_all add: genesis_coins_def)
  note parts = demo_setup_parts [OF assms(1,2) len(1)]
  have ps: "length ps = 4" using parts(1) [of 0] by simp
  obtain bx v' where c: "CreateBlk True empty_Block v = Inr (1, bx, v')" "\<not> block_mutable bx" "set (txs bx) \<subseteq> set (memory_pool v)"
    "verify bx ?l (wallets settings)" "inputs_disjoint (txs bx)"
    "\<forall>t \<in> set (memory_pool v). checkSpendingConditions t (coins_of v (ucast (senderID t))) (wallets settings)
         \<longrightarrow> t \<in> set (txs bx) \<or> (\<exists>u \<in> set (txs bx). set (inputs u) \<inter> set (inputs t) \<noteq> {})"
    using created_block_admitted [OF assms(9,7) _ len(2)] assms(8) unfolding assms(10) by blast
  have n: "\<exists>nd. new_Node (rts i) (of_nat i) settings (i = 0) = Inr nd
      \<and> ?nodes ! i = nd\<lparr>node_utxolist := ?l, node_wallet_ids := wallets settings, should_broadcast := True\<rparr>" if "i < length ?nodes" for i
    using parts(2) [of i] that ps by simp
  have ok: "network_ok SEND bx [] ?nodes" using genesis_network [OF n c(4)] ps by simp
  have w: "block_writable bx" using c(3) assms(8) by (auto simp: block_writable_def list_all_iff)
  have q: "echo_quorum (num_nodes nd) (num_faulty nd) (length ?nodes) \<and> delivery_quorum (num_faulty nd) (length ?nodes)" if nd: "nd \<in> set ?nodes" for nd
  proof -
    obtain i nd0 where i: "i < 4" "new_Node (rts i) (of_nat i) settings (i = 0) = Inr nd0" "num_nodes nd = num_nodes nd0" "num_faulty nd = num_faulty nd0"
    proof -
      obtain i where "i < 4" "nd = ?nodes ! i" using nd ps by (auto simp: in_set_conv_nth)
      then show thesis using n [of i] ps that by (auto intro: that)
    qed
    have "i = 0 \<or> i = 1 \<or> i = 2 \<or> i = 3" using i(1) by auto
    moreover have "fst ` set (validators settings) = {0, 1, 2, 3}" using arg_cong [OF assms(2), of set] by simp
    ultimately have "ucast (of_nat i :: u16) \<in> fst ` set (validators settings)" by auto
    note f = new_Node_counts [OF i(2) this]
    have "length (validators settings) = 4" using arg_cong [OF assms(2), of length] by simp
    then have "unat (num_nodes nd) = 4" using f(1) i(3) by (simp add: getTotalNumberOfValidators_def)
    moreover have "unat (num_faulty nd) \<le> 1"
      unfolding f(2) i(4) unsigned_ucast_eq using order_trans [OF take_bit_nat_less_eq_self assms(3)] by simp
    ultimately show ?thesis using ps by (simp add: echo_quorum_def delivery_quorum_def)
  qed
  have o: "outbox (?nodes ! i) = []" "accepted_blocks (?nodes ! i) = []" "is_lead (?nodes ! i) = (i = 0)" if "i < length ?nodes" for i
    using n [OF that] new_Node_awaits(4-6) [OF _ c(4)] by auto
  obtain ld nodes' where r: "Propose (rts 0) bx (?nodes ! 0) = Inr ld" "network_run rts arrival 3 (outbox ld) (?nodes[0 := ld]) = Inr (nodes', [])"
    "\<forall>i < 4. accepted_blocks (nodes' ! i) = [block_hash bx] \<and> isConsensus (nodes' ! i) \<and> same_block bx (getReceivedBlock (block_hash bx) (nodes' ! i))"
    using network_three_rounds [where rts = rts, OF ok _ c(2) w assms(5,6) _ q, of 0] o ps by (auto simp: block_delivered_def)
  moreover have "ProposeProcess_task (rts 0) (v, val_node (ps ! 0)) = Inr (v', ld)"
    using c(1) r(1) o(3) [of 0] ps by (simp add: ProposeProcess_task_def Validator_Propose_def)
  ultimately show ?thesis using c(3,5,6) CreateBlk_keeps [OF c(1)] by blast
qed

lemma demo_settings_facts:
  "map fst (validators demo_settings) = [0, 1, 2, 3]" "wallets demo_settings = [4, 7, 8]" "unat (getNumberOfFaultyValidators demo_settings) \<le> 1"
  by (simp_all add: demo_settings_def new_Settings_def getNumberOfFaultyValidators_def)

lemma demo_genesis:
  "\<exists>ws ps. demo_setup (\<lambda>_. demo_runtime) (rt_random demo_runtime) demo_settings demo_disk = Inr (ws, ps)
     \<and> coins_of (val_state (ps ! 0)) 4 = [UTXO 0 0 (Output 100 4)]"
proof -
  note s = demo_settings_facts
  obtain ws ps where d: "demo_setup (\<lambda>_. demo_runtime) (rt_random demo_runtime) demo_settings demo_disk = Inr (ws, ps)"
    using demo_setup_total [OF s(1), of "\<lambda>_. demo_runtime" "rt_random demo_runtime" demo_disk] by (auto simp: demo_runtime_def device_works_def demo_disk_def)
  have "genesis_ok (val_state (ps ! 0)) (genesis_coins 100 [4, 7, 8])" using demo_setup_parts(3) [OF d s(1), of 0] s(2) by simp
  then have "coins_of (val_state (ps ! 0)) 4 = [UTXO 0 0 (Output 100 4)]" by (simp add: genesis_ok_def genesis_coins_def first_coin_def upt_rec)
  then show ?thesis using d by blast
qed

lemma demo_pool_state:
  assumes "demo_setup rts env settings d = Inr (ws, ps)" and "map fst (validators settings) = [0, 1, 2, 3]" and "length (wallets settings) < 2 ^ 31"
  shows "genesis_ok ((val_state (ps ! 0))\<lparr>memory_pool := pool\<rparr>) (genesis_coins 100 (wallets settings))"
    and "wallets_ids (val_state (ps ! 0)) = wallets settings"
  using demo_setup_parts(3) [OF assms(1,2), of 0] assms(3) by (auto simp: genesis_ok_def coins_of_def)

section \<open>Properties of the demo\<close>

text \<open>
  The demo from its constructors to agreement: once the program has set up its four validators with at most
  one of them declared faulty, whatever payments with different inputs have reached the leader's pool, the leader's
  proposing task makes a block of them that every node verifies against its own coins, and after three rounds
  all four nodes have accepted it. A payment that meets the spending conditions is in the block, or shares an
  input with one that is.
\<close>

theorem demo_pool_delivered:
  assumes "demo_setup rts env settings d = Inr (ws, ps)" and "map fst (validators settings) = [0, 1, 2, 3]"
    and "unat (getNumberOfFaultyValidators settings) \<le> 1" and "length (wallets settings) < 2 ^ 31"
    and "\<And>i. runtime_ok (rts i)" and "shuffles arrival" and "pool \<noteq> []"
    and "\<forall>t \<in> set pool. distinct (inputs t) \<and> key_writable (tx_public_key t)"
  shows "\<exists>v' ld b nodes'. ProposeProcess_task (rts 0) ((val_state (ps ! 0))\<lparr>memory_pool := pool\<rparr>, val_node (ps ! 0)) = Inr (v', ld)
    \<and> set (txs b) \<subseteq> set pool
    \<and> (\<forall>t \<in> set pool. checkSpendingConditions t (coins_of (val_state (ps ! 0)) (ucast (senderID t))) (wallets settings)
         \<longrightarrow> t \<in> set (txs b) \<or> (\<exists>u \<in> set (txs b). set (inputs u) \<inter> set (inputs t) \<noteq> {}))
    \<and> network_run rts arrival 3 (outbox ld) ((map val_node ps)[0 := ld]) = Inr (nodes', [])
    \<and> (\<forall>i < 4. accepted_blocks (nodes' ! i) = [block_hash b])"
proof -
  let ?v = "(val_state (ps ! 0))\<lparr>memory_pool := pool\<rparr>"
  have v: "wallets_ids ?v = wallets settings" "memory_pool ?v = pool" "coins_of ?v w = coins_of (val_state (ps ! 0)) w" for w
    using demo_pool_state(2) [OF assms(1,2,4)] by (simp_all add: coins_of_def)
  show ?thesis
    using pool_delivered [OF assms(1-6) _ _ demo_pool_state(1) [OF assms(1,2,4)] v(1)] assms(7,8) unfolding v by blast
qed

theorem demo_pool_delivered_witness:
  "\<exists>ws ps v' ld b nodes'. demo_setup (\<lambda>_. demo_runtime) (rt_random demo_runtime) demo_settings demo_disk = Inr (ws, ps)
    \<and> ProposeProcess_task demo_runtime ((val_state (ps ! 0))\<lparr>memory_pool := [demo_tx]\<rparr>, val_node (ps ! 0)) = Inr (v', ld)
    \<and> set (txs b) = {demo_tx} \<and> network_run (\<lambda>_. demo_runtime) (\<lambda>_. rev) 3 (outbox ld) ((map val_node ps)[0 := ld]) = Inr (nodes', [])
    \<and> (\<forall>i < 4. accepted_blocks (nodes' ! i) = [block_hash b])"
proof -
  note s = demo_settings_facts
  obtain ws ps where d: "demo_setup (\<lambda>_. demo_runtime) (rt_random demo_runtime) demo_settings demo_disk = Inr (ws, ps)"
    "coins_of (val_state (ps ! 0)) 4 = [UTXO 0 0 (Output 100 4)]" using demo_genesis by blast
  have t: "distinct (inputs demo_tx)" "key_writable (tx_public_key demo_tx)" "senderID demo_tx = 4"
    by (simp_all add: demo_tx_def example_spend_def key_writable_def)
  have "checkSpendingConditions demo_tx (coins_of (val_state (ps ! 0)) (ucast (senderID demo_tx))) [4, 7, 8]"
    unfolding t(3) by (simp add: d(2) demo_tx_def example_spend_def checkSpendingConditions_iff total_spent_def total_paid_def spent_value_def utxo_matches_def)
  moreover have "shuffles (\<lambda>_. rev)" by (simp add: shuffles_def)
  from demo_pool_delivered [OF d(1) s(1,3) _ demo_runtime_ok this, of "[demo_tx]"]
  obtain v' ld b nodes' where "ProposeProcess_task demo_runtime ((val_state (ps ! 0))\<lparr>memory_pool := [demo_tx]\<rparr>, val_node (ps ! 0)) = Inr (v', ld)"
    "set (txs b) \<subseteq> {demo_tx}" "checkSpendingConditions demo_tx (coins_of (val_state (ps ! 0)) (ucast (senderID demo_tx))) [4, 7, 8]
         \<longrightarrow> demo_tx \<in> set (txs b) \<or> (\<exists>u \<in> set (txs b). set (inputs u) \<inter> set (inputs demo_tx) \<noteq> {})"
    "network_run (\<lambda>_. demo_runtime) (\<lambda>_. rev) 3 (outbox ld) ((map val_node ps)[0 := ld]) = Inr (nodes', [])"
    "\<forall>i < 4. accepted_blocks (nodes' ! i) = [block_hash b]"
    unfolding s(2) using t(1,2) by (simp del: Int_iff) blast
  ultimately show ?thesis using d(1) by blast
qed

end
