(* ===== verification/Node_Test.thy ===== *)
theory Node_Test
  imports Network_Runs Genesis
begin

text \<open>
  The program \<^verbatim>\<open>src/node_test_ex.cc\<close>: three nodes agree on a block and then, with the protocol started again, on a second one. Its
  assertions are branches of the model; what the program prints, the names of the nodes and the copies of nodes it makes and drops are left out.
\<close>

section \<open>The configuration\<close>

definition get_local_settings :: "nat \<Rightarrow> nat \<Rightarrow> Settings" where
  "get_local_settings num_servers num_wallets = new_Settings
     (map (\<lambda>i. \<lparr>ai_id = of_nat i, ai_address = ''127.0.0.1'', ai_port = 50000 + of_nat i, ai_faulty = False\<rparr>) [0..<num_servers]) 0
     (map (\<lambda>i. 100 + of_nat i) [0..<num_wallets]) (- 1) (- 1)"

section \<open>The blocks\<close>

text \<open>\<^verbatim>\<open>Transaction(txID)\<close> does not initialise \<^verbatim>\<open>senderID_\<close>: \<open>sid\<close> is what the memory holds.\<close>

definition test_transaction :: "u16 \<Rightarrow> u32 \<Rightarrow> Input list \<Rightarrow> Output list \<Rightarrow> Transaction" where
  "test_transaction sid id0 ins outs = fold addOutput outs (fold addInput ins (new_Transaction\<lparr>tx_ID := id0, senderID := sid\<rparr>))"

definition sign_transaction :: "signature_state \<Rightarrow> Transaction \<Rightarrow> Transaction res" where
  "sign_transaction kp tx = rbind (Sign (Transaction_getDigest tx) (private_key kp)) (\<lambda>signat.
     Inr (tx\<lparr>senderSig := signat, tx_public_key := public_key kp\<rparr>))"

definition new_signature :: signature_state where
  "new_signature = \<lparr>public_key = \<lparr>S0 = [], S1 = []\<rparr>, private_key = \<lparr>S0 = [], S1 = []\<rparr>\<rparr>"

definition test_utxolist1 :: UTXOlist where
  "test_utxolist1 = foldl utxolist_add [] [UTXO 3001 0 (Output 10 201), UTXO 3002 1 (Output 2 201), UTXO 3001 2 (Output 8 202),
     UTXO 3001 3 (Output 9 203), UTXO 3002 4 (Output 1 203)]"

definition test_utxolist2 :: UTXOlist where
  "test_utxolist2 = foldl utxolist_add [] [UTXO 3001 10 (Output 4 201), UTXO 3002 8 (Output 3 201)]"

definition receiverIDs :: "u32 list" where
  "receiverIDs = [201, 202, 203]"

definition test_block1 :: "urandom \<Rightarrow> u16 \<Rightarrow> Block res" where
  "test_block1 env sid =
     (let transaction1 = test_transaction sid 3003 [Input 3001 0, Input 3002 1] [Output 6 201, Output 6 202];
          transaction2 = test_transaction sid 3004 [Input 3001 2] [Output 1 201, Output 7 202];
          transaction3 = test_transaction sid 3005 [Input 3001 3, Input 3002 4] [Output 10 203] in
      case KeyGen env 0 new_signature of (kp, r) \<Rightarrow> rbind r (\<lambda>_.
      rbind (sign_transaction kp transaction1) (\<lambda>transaction1. rbind (sign_transaction kp transaction2) (\<lambda>transaction2.
      rbind (rfold addTransaction [transaction1, transaction2, transaction3] (new_Block 101 ''prevblock'')) finalize))))"

definition test_block2 :: "urandom \<Rightarrow> u16 \<Rightarrow> Block \<Rightarrow> Block res" where
  "test_block2 env sid block =
     (let transaction4 = test_transaction sid 3006 [Input 3001 10, Input 3002 8] [Output 7 201] in
      case KeyGen env (2 * KEY_LEN) new_signature of (kp, r) \<Rightarrow> rbind r (\<lambda>_.
      rbind (sign_transaction kp transaction4) (\<lambda>transaction4.
      rbind (addTransaction transaction4 (new_Block 102 (Header_getID (block_header block)))) finalize)))"

section \<open>The program\<close>

definition assert_that :: "string \<Rightarrow> bool \<Rightarrow> unit res" where
  "assert_that what c = (if c then Inr () else Inl (Assertion_failed what))"

definition test_nodes :: "(nat \<Rightarrow> runtime) \<Rightarrow> Settings \<Rightarrow> Node list res" where
  "test_nodes rts settings = rbind (new_LeaderNode (rts 0) 0 settings) (\<lambda>nodeLeader.
     rbind (new_Node (rts 1) 1 settings False) (\<lambda>node1. rbind (new_Node (rts 2) 2 settings False) (\<lambda>node2.
       Inr [nodeLeader, node1, node2])))"

definition min_sigs :: "Settings \<Rightarrow> int" where
  "min_sigs settings = (let n = int (unat (getTotalNumberOfValidators settings)); f = int (unat (getNumberOfFaultyValidators settings)) in
     1 + (n + f + 1) div 2 + 2 * f + 1)"

text \<open>A consensus run with the assertions before and after it; \<open>k\<close> is the number of blocks agreed on by then.\<close>

definition test_run :: "(nat \<Rightarrow> runtime) \<Rightarrow> (nat \<Rightarrow> Message list \<Rightarrow> Message list) \<Rightarrow> Settings \<Rightarrow> nat \<Rightarrow> UTXOlist \<Rightarrow> Block \<Rightarrow> Node list \<Rightarrow> Node list res" where
  "test_run rts arrival settings k utxolist block nodes =
     (let nodes = start_run utxolist receiverIDs nodes in
      rbind (assert_that ''isConsensus'' (list_all (\<lambda>nd. \<not> isConsensus nd) nodes)) (\<lambda>_.
      rbind (propose_run rts arrival 0 block nodes) (\<lambda>nodes.
      rbind (assert_that ''consensus'' (list_all isConsensus nodes)) (\<lambda>_.
      rbind (assert_that ''getVotedHash'' (list_all (\<lambda>nd. getVotedHash nd = Header_getID (block_header block)) nodes)) (\<lambda>_.
      let received = map (\<lambda>nd. getReceivedBlock (getVotedHash nd) nd) nodes in
      rbind (assert_that ''min_sigs'' (list_all (\<lambda>b. int (length (validatorSigs b)) \<ge> min_sigs settings) received)) (\<lambda>_.
      rbind (assert_that ''block'' (list_all (\<lambda>b. Block_eq (removeSignatures block) (removeSignatures b)) received)) (\<lambda>_.
      rbind (assert_that ''getConsensusBlocks'' (list_all (\<lambda>nd. length (fst (getConsensusBlocks False nd)) = k) nodes)) (\<lambda>_.
        Inr (map (\<lambda>nd. snd (getConsensusBlocks False nd)) nodes)))))))))"

definition node_test :: "(nat \<Rightarrow> runtime) \<Rightarrow> (nat \<Rightarrow> Message list \<Rightarrow> Message list) \<Rightarrow> urandom \<Rightarrow> u16 \<Rightarrow> u16 \<Rightarrow> (Block \<times> Block \<times> Node list) res" where
  "node_test rts arrival env sid sid' =
     (let settings = get_local_settings 3 2 in
      rbind (test_block1 env sid) (\<lambda>block.
      rbind (assert_that ''verify'' (verify block test_utxolist1 receiverIDs)) (\<lambda>_.
      rbind (test_nodes rts settings) (\<lambda>nodes.
      rbind (assert_that ''getId'' (map node_id nodes = [0, 1, 2])) (\<lambda>_.
      rbind (assert_that ''isLeader'' (map isLeader nodes = [True, False, False])) (\<lambda>_.
      rbind (assert_that ''getConsensusBlocks'' (list_all (\<lambda>nd. length (fst (getConsensusBlocks False nd)) = 0) nodes)) (\<lambda>_.
      rbind (test_run rts arrival settings 1 test_utxolist1 block nodes) (\<lambda>nodes.
      rbind (test_block2 env sid' block) (\<lambda>block2.
      rbind (assert_that ''verify'' (verify block2 test_utxolist2 receiverIDs)) (\<lambda>_.
      rbind (test_run rts arrival settings 2 test_utxolist2 block2 nodes) (\<lambda>nodes.
        Inr (block, block2, nodes))))))))))))"

section \<open>Lemmas\<close>

lemma assert_that_simps [simp]: "assert_that what True = Inr ()" "assert_that what c = Inr u \<longleftrightarrow> c"
  by (simp_all add: assert_that_def)

lemma test_transaction_fields [simp]:
  "inputs (test_transaction sid id0 ins outs) = ins" "outputs (test_transaction sid id0 ins outs) = outs"
  "tx_public_key (test_transaction sid id0 ins outs) = \<lparr>S0 = [], S1 = []\<rparr>"
proof -
  have i: "fold addInput ins t = t\<lparr>inputs := inputs t @ ins\<rparr>" for ins t by (induction ins arbitrary: t) (simp_all add: addInput_def)
  have o: "fold addOutput outs t = t\<lparr>outputs := outputs t @ outs\<rparr>" for outs t by (induction outs arbitrary: t) (simp_all add: addOutput_def)
  show "inputs (test_transaction sid id0 ins outs) = ins" "outputs (test_transaction sid id0 ins outs) = outs"
    "tx_public_key (test_transaction sid id0 ins outs) = \<lparr>S0 = [], S1 = []\<rparr>"
    by (simp_all add: test_transaction_def i o new_Transaction_def)
qed

lemma signed_transaction:
  assumes "\<And>n. open_ok env n" and "\<And>n. read_byte env n \<noteq> None"
  shows "\<exists>kp. KeyGen env call s = (kp, Inr 1) \<and> (\<forall>tx. \<exists>tx'. sign_transaction kp tx = Inr tx' \<and> inputs tx' = inputs tx \<and> outputs tx' = outputs tx
    \<and> key_writable (tx_public_key tx'))"
proof -
  obtain kp where k: "KeyGen env call s = (kp, Inr 1)" using KeyGen_total assms by blast
  have "key_storable (public_key kp)" using KeyGen_key_pair(2) [OF k] key_pair_public by blast
  then have "key_writable (public_key kp)" by (simp add: key_writable_def key_storable_def)
  then show ?thesis using k by (auto simp: sign_transaction_def Sign_eq)
qed

lemma test_block1_ok:
  assumes "\<And>n. open_ok env n" and "\<And>n. read_byte env n \<noteq> None"
  shows "\<exists>b. test_block1 env sid = Inr b \<and> run_ok (test_utxolist1, receiverIDs, b)"
proof -
  obtain kp where k: "KeyGen env 0 new_signature = (kp, Inr 1)" and s: "\<And>tx. \<exists>tx'. sign_transaction kp tx = Inr tx' \<and> inputs tx' = inputs tx \<and> outputs tx' = outputs tx
    \<and> key_writable (tx_public_key tx')" using signed_transaction [OF assms] by blast
  let ?t = "test_transaction sid"
  obtain t1 where t1: "sign_transaction kp (?t 3003 [Input 3001 0, Input 3002 1] [Output 6 201, Output 6 202]) = Inr t1" "inputs t1 = [Input 3001 0, Input 3002 1]"
    "outputs t1 = [Output 6 201, Output 6 202]" "key_writable (tx_public_key t1)" using s by fastforce
  obtain t2 where t2: "sign_transaction kp (?t 3004 [Input 3001 2] [Output 1 201, Output 7 202]) = Inr t2" "inputs t2 = [Input 3001 2]"
    "outputs t2 = [Output 1 201, Output 7 202]" "key_writable (tx_public_key t2)" using s by fastforce
  let ?t3 = "?t 3005 [Input 3001 3, Input 3002 4] [Output 10 203]"
  obtain b where b: "test_block1 env sid = Inr b" "txs b = [t1, t2, ?t3]" "\<not> block_mutable b"
    using k t1(1) t2(1) by (simp add: test_block1_def Let_def addTransaction_def new_Block_def finalize_def)
  have u: "test_utxolist1 = [UTXO 3001 0 (Output 10 201), UTXO 3002 1 (Output 2 201), UTXO 3001 2 (Output 8 202), UTXO 3001 3 (Output 9 203), UTXO 3002 4 (Output 1 203)]"
    by (simp add: test_utxolist1_def utxolist_add_def)
  have "\<forall>t \<in> set (txs b). checkSpendingConditions t test_utxolist1 receiverIDs" 
    using t1(2,3) t2(2,3) by (simp add: b(2) u receiverIDs_def checkSpendingConditions_iff total_spent_def total_paid_def spent_value_def utxo_matches_def)
  moreover have "block_inputs b = [Input 3001 0, Input 3002 1, Input 3001 2, Input 3001 3, Input 3002 4]" using t1(2) t2(2) by (simp add: block_inputs_def b(2))
  ultimately have "verify b test_utxolist1 receiverIDs" using verify_iff [of b] by simp
  moreover have "block_writable b" using t1(4) t2(4) by (simp add: block_writable_def b(2) key_writable_def)
  ultimately show ?thesis using b(1,3) by (simp add: run_ok_def)
qed

lemma test_block2_ok:
  assumes "\<And>n. open_ok env n" and "\<And>n. read_byte env n \<noteq> None"
  shows "\<exists>b. test_block2 env sid block = Inr b \<and> run_ok (test_utxolist2, receiverIDs, b)"
proof -
  obtain kp where k: "KeyGen env (2 * KEY_LEN) new_signature = (kp, Inr 1)" and s: "\<And>tx. \<exists>tx'. sign_transaction kp tx = Inr tx' \<and> inputs tx' = inputs tx \<and> outputs tx' = outputs tx
    \<and> key_writable (tx_public_key tx')" using signed_transaction [OF assms] by blast
  obtain t4 where t4: "sign_transaction kp (test_transaction sid 3006 [Input 3001 10, Input 3002 8] [Output 7 201]) = Inr t4" "inputs t4 = [Input 3001 10, Input 3002 8]"
    "outputs t4 = [Output 7 201]" "key_writable (tx_public_key t4)" using s by fastforce
  obtain b where b: "test_block2 env sid block = Inr b" "txs b = [t4]" "\<not> block_mutable b"
    using k t4(1) by (simp add: test_block2_def Let_def addTransaction_def new_Block_def finalize_def)
  have u: "test_utxolist2 = [UTXO 3001 10 (Output 4 201), UTXO 3002 8 (Output 3 201)]" by (simp add: test_utxolist2_def utxolist_add_def)
  have "\<forall>t \<in> set (txs b). checkSpendingConditions t test_utxolist2 receiverIDs" 
    using t4(2,3) by (simp add: b(2) u receiverIDs_def checkSpendingConditions_iff total_spent_def total_paid_def spent_value_def utxo_matches_def)
  moreover have "block_inputs b = [Input 3001 10, Input 3002 8]" using t4(2) by (simp add: block_inputs_def b(2))
  ultimately have "verify b test_utxolist2 receiverIDs" using verify_iff [of b] by simp
  moreover have "block_writable b" using t4(4) by (simp add: block_writable_def b(2))
  ultimately show ?thesis using b(1,3) by (simp add: run_ok_def)
qed

lemma transaction_eq_refl: "Transaction_eq t t"
  by (simp add: Transaction_eq_def any_differs_iff output_neq_def)

lemma same_block_eq: "same_block b b' \<Longrightarrow> Block_eq (removeSignatures b) (removeSignatures b')"
  by (auto simp: same_block_def Block_eq_def removeSignatures_def any_differs_iff transaction_eq_refl)

lemma known_blocks_kept: "\<forall>h \<in> set (accepted_blocks nd). node_blocks nd h \<noteq> None \<Longrightarrow> snd (getConsensusBlocks False nd) = nd"
  by (cases nd) (auto simp: getConsensusBlocks_def getReceivedBlock_def Let_def fun_eq_iff split: option.split)

lemma new_Node_fresh:
  assumes "new_Node rt vid settings lead = Inr nd"
  shows "valid_pair nd \<and> echo_this_round nd = [] \<and> ready_this_round nd = [] \<and> val_sig_keys nd = Map.empty \<and> unknown h nd \<and> accepted_blocks nd = []
    \<and> node_id nd = vid \<and> isLeader nd = lead"
  using assms by (auto simp: new_Node_def Let_def valid_pair_def unknown_def isLeader_def split: prod.splits dest!: node_KeyGen_Inr)

lemma local_settings:
  "fst ` set (validators (get_local_settings 3 2)) = {0, 1, 2}" "getTotalNumberOfValidators (get_local_settings 3 2) = 3"
  "getNumberOfFaultyValidators (get_local_settings 3 2) = 0"
  by (auto simp: get_local_settings_def new_Settings_def getTotalNumberOfValidators_def getNumberOfFaultyValidators_def upt_rec)

lemma test_nodes_fresh:
  assumes "\<And>i. device_works (rts i)"
  shows "\<exists>nodes. test_nodes rts (get_local_settings 3 2) = Inr nodes \<and> length nodes = 3 \<and> at_rest nodes \<and> quorate nodes
    \<and> map node_id nodes = [0, 1, 2] \<and> map isLeader nodes = [True, False, False] \<and> (\<forall>nd \<in> set nodes. accepted_blocks nd = [] \<and> (\<forall>h. unknown h nd))"
proof -
  let ?S = "get_local_settings 3 2"
  obtain n0 n1 n2 where n: "new_Node (rts 0) 0 ?S True = Inr n0" "new_Node (rts 1) 1 ?S False = Inr n1" "new_Node (rts 2) 2 ?S False = Inr n2"
    using new_Node_total [OF assms] by metis
  note f = new_Node_fresh [OF n(1)] new_Node_fresh [OF n(2)] new_Node_fresh [OF n(3)]
  have c: "num_nodes nd = 3 \<and> num_faulty nd = 0" if "nd \<in> {n0, n1, n2}" for nd
    using that new_Node_counts [OF n(1)] new_Node_counts [OF n(2)] new_Node_counts [OF n(3)] local_settings by auto
  have "test_nodes rts ?S = Inr [n0, n1, n2]" using n by (simp add: test_nodes_def new_LeaderNode_def)
  moreover have "at_rest [n0, n1, n2]" using f by (auto simp: at_rest_def)
  moreover have "quorate [n0, n1, n2]" using c by (simp add: quorate_def)
  ultimately show ?thesis using f by (intro exI [of _ "[n0, n1, n2]"]) simp
qed

text \<open>What the nodes are like before and after each run.\<close>

definition ready_for :: "string list \<Rightarrow> Node list \<Rightarrow> bool" where
  "ready_for hs nodes \<longleftrightarrow> length nodes = 3 \<and> at_rest nodes \<and> quorate nodes
     \<and> (\<forall>nd \<in> set nodes. accepted_blocks nd = hs \<and> (\<forall>h \<in> set hs. node_blocks nd h \<noteq> None) \<and> (\<forall>h. h \<notin> set hs \<longrightarrow> unknown h nd))"

lemma test_run_succeeds:
  assumes "ready_for hs nodes" and "run_ok (utxolist, receiverIDs, b)" and "block_hash b \<notin> set hs" and "\<And>i. runtime_ok (rts i)" and "shuffles arrival"
  shows "\<exists>nodes'. test_run rts arrival (get_local_settings 3 2) (length hs + 1) utxolist b nodes = Inr nodes' \<and> ready_for (hs @ [block_hash b]) nodes'"
proof -
  let ?run = "(utxolist, receiverIDs, b)" let ?h = "block_hash b"
  have r: "at_rest nodes" "quorate nodes" "0 < length nodes" "\<forall>nd \<in> set nodes. unknown (block_hash (run_block ?run)) nd" "length nodes = 3"
    using assms(1,3) by (auto simp: ready_for_def)
  from consensus_run_delivers [where rts = rts, OF r(1-3) assms(2,4,5) r(4)] obtain nodes' where
    n: "consensus_run rts arrival 0 ?run nodes = Inr nodes'" "length nodes' = 3" "at_rest nodes'" "quorate nodes'"
    and d: "\<And>i. i < 3 \<Longrightarrow> block_delivered b (nodes ! i) (nodes' ! i) \<and> kept 7 b (nodes' ! i) \<and> (\<forall>h. h \<noteq> ?h \<longrightarrow> untouched h (nodes ! i) (nodes' ! i))"
    using r(5) by auto
  have p: "propose_run rts arrival 0 b (start_run utxolist receiverIDs nodes) = Inr nodes'" using n(1) by (simp add: consensus_run_def)
  have s: "list_all (\<lambda>nd. \<not> isConsensus nd) (start_run utxolist receiverIDs nodes)" by (simp add: start_run_def isConsensus_def list_all_iff)
  have nd: "isConsensus nd \<and> getVotedHash nd = ?h \<and> accepted_blocks nd = hs @ [?h] \<and> kept 7 b nd \<and> (\<forall>h \<in> set (hs @ [?h]). node_blocks nd h \<noteq> None)
      \<and> (\<forall>h. h \<notin> set (hs @ [?h]) \<longrightarrow> unknown h nd)" if nd: "nd \<in> set nodes'" for nd
  proof -
    obtain i where i: "i < 3" "nd = nodes' ! i" using nd n(2) by (auto simp: in_set_conv_nth)
    have o: "accepted_blocks (nodes ! i) = hs" "\<forall>h \<in> set hs. node_blocks (nodes ! i) h \<noteq> None" "\<forall>h. h \<notin> set hs \<longrightarrow> unknown h (nodes ! i)"
      using assms(1) i(1) by (auto simp: ready_for_def)
    have k: "kept 7 b nd" "block_delivered b (nodes ! i) nd" "\<And>h. h \<noteq> ?h \<Longrightarrow> untouched h (nodes ! i) nd" using d [OF i(1)] i(2) by auto
    have "node_blocks nd ?h \<noteq> None" using k(1) by (auto simp: kept_def getReceivedBlock_def empty_Block_def new_Block_def split: option.splits)
    then have "node_blocks nd h \<noteq> None" if "h \<in> set (hs @ [?h])" for h using that o(2) k(3) by (cases "h = ?h") (auto simp: untouched_def)
    moreover have "unknown h nd" if "h \<notin> set (hs @ [?h])" for h using that o(3) untouched_unknown [OF k(3)] by simp
    ultimately show ?thesis using k(1,2) o(1) by (simp add: block_delivered_def getVotedHash_def)
  qed
  have same: "map (\<lambda>nd. snd (getConsensusBlocks False nd)) nodes' = nodes'" using nd by (intro map_idI known_blocks_kept) auto
  have m: "min_sigs (get_local_settings 3 2) = 4" by (simp add: min_sigs_def local_settings Let_def)
  have h: "Header_getID (block_header b) = ?h" by (simp add: block_hash_def)
  have "list_all (\<lambda>b'. min_sigs (get_local_settings 3 2) \<le> int (length (validatorSigs b'))) (map (\<lambda>nd. getReceivedBlock (getVotedHash nd) nd) nodes')"
    "list_all (\<lambda>b'. Block_eq (removeSignatures b) (removeSignatures b')) (map (\<lambda>nd. getReceivedBlock (getVotedHash nd) nd) nodes')"
    "list_all (\<lambda>nd. length (fst (getConsensusBlocks False nd)) = length hs + 1) nodes'"
    using nd by (fastforce simp: list_all_iff m kept_def same_block_eq getConsensusBlocks_def Let_def)+
  then have "test_run rts arrival (get_local_settings 3 2) (length hs + 1) utxolist b nodes = Inr nodes'"
    using p s nd by (simp add: test_run_def Let_def same h list_all_iff)
  moreover have "ready_for (hs @ [?h]) nodes'" using n(2-4) nd by (auto simp: ready_for_def)
  ultimately show ?thesis by blast
qed

section \<open>The property of the program\<close>



end
