(* ===== verification/Network_Async.thy ===== *)
theory Network_Async
  imports Node_Test
begin

text \<open>
  Nodes that follow the protocol, in any schedule: messages are on their way for any time, overtake each other and may be lost, nodes
  take their turns when they like, several blocks may be proposed, and faulty nodes may send any message to any node at any time. What
  a node delivers is backed by correct nodes up to the messages the faulty ones have sent.
\<close>

section \<open>The network\<close>

text \<open>
  \<open>inboxes\<close> holds the messages on their way to each node, \<open>proposals\<close> the blocks handed to \<^verbatim>\<open>Propose\<close>, \<open>injected\<close> the messages of faulty nodes with
  their receivers.
\<close>

record async =
  peers :: "Node list"
  inboxes :: "nat \<Rightarrow> Message multiset"
  proposals :: "Block list"
  injected :: "(nat \<times> Message) list"

definition start_async :: "Node list \<Rightarrow> async" where
  "start_async nodes = \<lparr>peers = nodes, inboxes = (\<lambda>_. {#}), proposals = [], injected = []\<rparr>"

text \<open>A node has acted: what it has broadcast is on its way to all nodes, itself included.\<close>

definition acted :: "nat \<Rightarrow> Node \<Rightarrow> async \<Rightarrow> async" where
  "acted i nd s = s\<lparr>peers := (peers s)[i := nd],
     inboxes := (\<lambda>k. inboxes s k + mset (drop (length (outbox (peers s ! i))) (outbox nd)))\<rparr>"

text \<open>What the validator calls between the turns.\<close>

inductive node_call :: "Node \<Rightarrow> Node \<Rightarrow> bool" where
  set_utxo: "node_call nd (node_setUTXOlists l ids nd)"
| clear_utxo: "node_call nd (node_clearUTXOlists nd)"
| blocks: "getConsensusBlocks erase nd = (bs, nd') \<Longrightarrow> node_call nd nd'"
| restart: "node_call nd (nd\<lparr>should_broadcast := b\<rparr>)"

inductive async_step :: "(nat \<Rightarrow> runtime) \<Rightarrow> async \<Rightarrow> async \<Rightarrow> bool" for rts where
  turn: "i < length (peers s) \<Longrightarrow> mset ms \<subseteq># inboxes s i \<Longrightarrow> rmap transmit ms = Inr batch \<Longrightarrow> node_turn (rts i) batch (peers s ! i) = Inr nd
    \<Longrightarrow> async_step rts s (acted i nd (s\<lparr>inboxes := (inboxes s)(i := inboxes s i - mset ms)\<rparr>))"
| propose: "i < length (peers s) \<Longrightarrow> Propose (rts i) b (peers s ! i) = Inr nd \<Longrightarrow> async_step rts s (acted i nd (s\<lparr>proposals := b # proposals s\<rparr>))"
| call: "i < length (peers s) \<Longrightarrow> node_call (peers s ! i) nd \<Longrightarrow> async_step rts s (s\<lparr>peers := (peers s)[i := nd]\<rparr>)"
| lose: "async_step rts s (s\<lparr>inboxes := (inboxes s)(i := inboxes s i - M)\<rparr>)"
| inject: "async_step rts s (s\<lparr>inboxes := (inboxes s)(i := add_mset m (inboxes s i)), injected := (i, m) # injected s\<rparr>)"

section \<open>Counting\<close>

definition of_kind :: "MsgType \<Rightarrow> string \<Rightarrow> Message \<Rightarrow> bool" where
  "of_kind t h m \<longleftrightarrow> msg_type m = Some t \<and> block_hash (msg_block m) = h"

definition amount :: "MsgType \<Rightarrow> string \<Rightarrow> Message list \<Rightarrow> nat" where
  "amount t h ms = length (filter (of_kind t h) ms)"

definition sent_amount :: "MsgType \<Rightarrow> string \<Rightarrow> async \<Rightarrow> nat" where
  "sent_amount t h s = (\<Sum>nd \<leftarrow> peers s. amount t h (outbox nd))"

definition injected_to :: "MsgType \<Rightarrow> string \<Rightarrow> nat \<Rightarrow> async \<Rightarrow> nat" where
  "injected_to t h i s = amount t h (map snd (filter (\<lambda>(k, m). k = i) (injected s)))"

definition tally :: "string \<Rightarrow> (string \<times> u64) list \<Rightarrow> nat" where
  "tally h l = (\<Sum>(h', k) \<leftarrow> l. if h' = h then unat k else 0)"

lemma amount_simps [simp]:
  "amount t h [] = 0" "amount t h (ms @ ms') = amount t h ms + amount t h ms'" "amount t h (m # ms) = (if of_kind t h m then 1 else 0) + amount t h ms"
  by (simp_all add: amount_def)

lemma tally_count_up: "tally h' (count_up h l) \<le> tally h' l + (if h = h' then 1 else 0)"
proof (induction h l rule: count_up.induct)
  case (2 h h0 k l)
  have "unat (k + 1) \<le> unat k + 1" by (simp add: unat_word_ariths)
  then show ?case using 2 by (auto simp: tally_def)
qed (simp add: tally_def)

lemma tally_mem: "(h, k) \<in> set l \<Longrightarrow> unat k \<le> tally h l"
  by (induction l) (auto simp: tally_def)

lemma tally_filter: "tally h (filter P l) \<le> tally h l"
  by (induction l) (auto simp: tally_def)

lemma amount_mset: "size (filter_mset (of_kind t h) (mset ms)) = amount t h ms"
  by (metis amount_def mset_filter size_mset)

lemma transmit_keeps:
  assumes "transmit m = Inr m'"
  shows "msg_type m' = msg_type m \<and> block_header (msg_block m') = block_header (msg_block m)"
proof -
  obtain p b t where p: "getType m = Inr t" "toProtoBlock (msg_block m) chat_Block_empty = Inr p" "fromProtoBlock empty_Block p = Inr b" "msg_block m' = b"
    "msg_type m' = Some t"
    using assms by (cases "getType m"; cases "projr (getType m)") (auto simp: transmit_def toProtoMessage_def Message_of_proto_def)
  have "block_header b = block_header (msg_block m)" using p(2,3) by (auto simp: toProtoBlock_def fromProtoBlock_def split: if_splits)
  then show ?thesis using p by (auto simp: getType_def split: option.splits)
qed

lemma transmit_amount: "rmap transmit ms = Inr batch \<Longrightarrow> amount t h batch = amount t h ms"
proof (induction ms arbitrary: batch)
  case (Cons m ms)
  then show ?case by (auto simp: of_kind_def block_hash_def dest!: transmit_keeps)
qed simp

section \<open>One node\<close>

text \<open>What holds of one node when all blocks that were proposed or injected have headers in \<open>H\<close>.\<close>

definition local_ok :: "Header set \<Rightarrow> u16 \<Rightarrow> u16 \<Rightarrow> Node \<Rightarrow> bool" where
  "local_ok H n f nd \<longleftrightarrow> node_inv nd \<and> num_nodes nd = n \<and> num_faulty nd = f
     \<and> (\<forall>h b. blk_list nd h = Some b \<longrightarrow> block_header b \<in> H)
     \<and> (\<forall>h b. node_blocks nd h = Some b \<longrightarrow> block_header b \<in> H \<and> block_hash b = h)
     \<and> (\<forall>h \<in> fst ` set (ready_this_round nd) \<union> set (accepted_blocks nd). node_blocks nd h \<noteq> None)"

lemma local_ok_update [simp]:
  "local_ok H n f (nd\<lparr>should_broadcast := x1\<rparr>) = local_ok H n f nd" "local_ok H n f (nd\<lparr>send_this_round := x2\<rparr>) = local_ok H n f nd"
  "local_ok H n f (nd\<lparr>val_sig_keys := x3\<rparr>) = local_ok H n f nd" "local_ok H n f (nd\<lparr>verified_blocks := x4\<rparr>) = local_ok H n f nd"
  "local_ok H n f (nd\<lparr>node_utxolist := x5\<rparr>) = local_ok H n f nd" "local_ok H n f (nd\<lparr>node_wallet_ids := x6\<rparr>) = local_ok H n f nd"
  by (simp_all add: local_ok_def)

lemma local_ok_mono: "local_ok H n f nd \<Longrightarrow> H \<subseteq> H' \<Longrightarrow> local_ok H' n f nd"
  unfolding local_ok_def by blast

lemma keys_count_up: "fst ` set (count_up h l) = insert h (fst ` set l)"
  by (induction h l rule: count_up.induct) auto

lemma stored_fields [simp]: "node_blocks (count_message t h nd) = node_blocks nd"
  by (simp add: count_message_def split: MsgType.split)

lemma save_block_stored:
  "\<exists>b'. node_blocks (save_block b r nd) = (node_blocks nd)(block_hash b \<mapsto> b')
     \<and> block_header b' = block_header (case node_blocks nd (block_hash b) of None \<Rightarrow> b | Some b' \<Rightarrow> b')"
  by (simp add: save_block_def Let_def addValidatorSignature_def) (rule exI, rule conjI, rule refl, simp)

lemma recv_local:
  assumes "recv_message m nd = Inr nd'" and "local_ok H n f nd" and "block_header (msg_block m) \<in> H"
  shows "local_ok H n f nd' \<and> outbox nd' = outbox nd \<and> ready_sent nd' = ready_sent nd \<and> accepted_blocks nd' = accepted_blocks nd
    \<and> tally h (ready_this_round nd') \<le> tally h (ready_this_round nd) + amount READY h [m]
    \<and> tally h (echo_this_round nd') \<le> tally h (echo_this_round nd) + amount ECHO h [m]"
proof -
  let ?b = "msg_block m" let ?nd = "nd\<lparr>val_sig_keys := (val_sig_keys nd)(validator_id ?b \<mapsto> validator_next_public_key ?b)\<rparr>"
  let ?s = "save_block ?b (getRound m) (?nd\<lparr>verified_blocks := insert (block_hash ?b) (verified_blocks nd)\<rparr>)"
  have i: "node_inv nd'" using recv_message_inv [OF assms(1)] assms(2) by (simp add: local_ok_def)
  obtain t where t: "msg_type m = Some t" "nd' = ?nd \<or> nd' = count_message t (block_hash ?b) ?s"
    using assms(1) by (auto simp: recv_message_def getType_def Let_def split: option.splits if_splits dest!: checkBlockSig_Inr)
  show ?thesis
  proof (cases "nd' = ?nd")
    case False
    then have nd': "nd' = count_message t (block_hash ?b) ?s" using t(2) by blast
    obtain b' where b': "node_blocks ?s = (node_blocks nd)(block_hash ?b \<mapsto> b')"
      "block_header b' = block_header (case node_blocks nd (block_hash ?b) of None \<Rightarrow> ?b | Some b' \<Rightarrow> b')"
      using save_block_stored [of ?b "getRound m" "?nd\<lparr>verified_blocks := insert (block_hash ?b) (verified_blocks nd)\<rparr>"] by auto
    have n: "block_header b' \<in> H" "block_hash b' = block_hash ?b" using assms(2,3) b'(2) by (auto simp: local_ok_def block_hash_def split: option.splits)
    have "local_ok H n f nd'" using i assms(2,3) n unfolding nd'
      by (auto simp: local_ok_def b'(1) keys_count_up split: option.splits if_splits)
    moreover have "tally h (count_up h l) \<le> Suc (tally h l)" "block_hash ?b \<noteq> h \<Longrightarrow> tally h (count_up (block_hash ?b) l) \<le> tally h l" for l
      using tally_count_up [of h "block_hash ?b" l] tally_count_up [of h h l] by simp_all
    ultimately show ?thesis using t(1) by (simp add: nd' of_kind_def)
  qed (use assms(2) in simp)
qed

lemma updateRecv_local:
  assumes "updateRecvMessages ms nd = Inr nd'" and "local_ok H n f nd" and "\<And>m. m \<in> set ms \<Longrightarrow> block_header (msg_block m) \<in> H"
  shows "local_ok H n f nd' \<and> outbox nd' = outbox nd \<and> ready_sent nd' = ready_sent nd \<and> accepted_blocks nd' = accepted_blocks nd
    \<and> tally h (ready_this_round nd') \<le> tally h (ready_this_round nd) + amount READY h ms
    \<and> tally h (echo_this_round nd') \<le> tally h (echo_this_round nd) + amount ECHO h ms"
proof -
  have "local_ok H n f nd' \<and> outbox nd' = outbox nd \<and> ready_sent nd' = ready_sent nd \<and> accepted_blocks nd' = accepted_blocks nd
    \<and> tally h (ready_this_round nd') \<le> tally h (ready_this_round nd) + amount READY h ms
    \<and> tally h (echo_this_round nd') \<le> tally h (echo_this_round nd) + amount ECHO h ms" if "rfold recv_message ms nd = Inr nd'" "local_ok H n f nd" for nd
    using that assms(3)
  proof (induction ms arbitrary: nd)
    case (Cons m ms)
    then obtain nd1 where r: "recv_message m nd = Inr nd1" "rfold recv_message ms nd1 = Inr nd'" by auto
    show ?case using recv_local [OF r(1) Cons.prems(2), of h] Cons.IH [OF r(2)] Cons.prems(3) by fastforce
  qed simp
  from this [of "nd\<lparr>send_this_round := []\<rparr>"] show ?thesis using assms(1,2) by (simp add: updateRecvMessages_def)
qed

text \<open>What sending does: blocks and numbers stay, counts only sink, and the new messages carry known headers.\<close>

definition round_change :: "Header set \<Rightarrow> Node \<Rightarrow> Node \<Rightarrow> bool" where
  "round_change H nd nd' \<longleftrightarrow> blk_list nd' = blk_list nd \<and> node_blocks nd' = node_blocks nd \<and> num_nodes nd' = num_nodes nd \<and> num_faulty nd' = num_faulty nd
     \<and> (\<forall>h. tally h (ready_this_round nd') \<le> tally h (ready_this_round nd)) \<and> (\<forall>h. tally h (echo_this_round nd') \<le> tally h (echo_this_round nd))
     \<and> set (ready_this_round nd') \<subseteq> set (ready_this_round nd)
     \<and> (\<exists>new. outbox nd' = outbox nd @ new \<and> (\<forall>m \<in> set new. block_header (msg_block m) \<in> H))"

lemma round_change_refl [simp]: "round_change H nd nd"
  by (simp add: round_change_def)

lemma round_change_update [simp]:
  "round_change H nd (nd'\<lparr>should_broadcast := x1\<rparr>) = round_change H nd nd'" "round_change H nd (nd'\<lparr>send_this_round := x2\<rparr>) = round_change H nd nd'"
  "round_change H nd (nd'\<lparr>ready_sent := x3\<rparr>) = round_change H nd nd'" "round_change H nd (nd'\<lparr>accepted_blocks := x4\<rparr>) = round_change H nd nd'"
  "round_change H nd (nd'\<lparr>voted_hash := x5\<rparr>) = round_change H nd nd'"
  "round_change H (nd\<lparr>should_broadcast := x1\<rparr>) nd' = round_change H nd nd'"
  by (simp_all add: round_change_def)

lemma round_change_trans:
  assumes "round_change H a b" and "round_change H b c"
  shows "round_change H a c"
proof -
  obtain new new' where "outbox b = outbox a @ new" "\<forall>m \<in> set new. block_header (msg_block m) \<in> H"
    "outbox c = outbox b @ new'" "\<forall>m \<in> set new'. block_header (msg_block m) \<in> H" using assms by (auto simp: round_change_def)
  then have "\<exists>new. outbox c = outbox a @ new \<and> (\<forall>m \<in> set new. block_header (msg_block m) \<in> H)" by (intro exI [of _ "new @ new'"]) auto
  then show ?thesis using assms by (simp add: round_change_def) (meson order_trans)
qed

lemma sent_header:
  assumes "broadcastMessage rt t b rnd nd = Inr nd'" and "block_header b \<in> H"
  shows "round_change H nd nd'"
proof -
  obtain b' nd1 where s: "signBlock rt b nd = Inr (b', nd1)" "nd' = nd1\<lparr>outbox := outbox nd1 @ [new_Message t b' (ucast (node_id nd1)) rnd]\<rparr>"
    using assms(1) by (auto simp: broadcastMessage_def)
  have "block_header b' = block_header b" using signBlock_Inr [OF s(1)] Block_sign_keeps by blast
  then show ?thesis using signBlock_Inr [OF s(1)] s(2) assms(2) by (auto simp: round_change_def new_Message_def)
qed

definition listed_in :: "Header set \<Rightarrow> Node \<Rightarrow> bool" where
  "listed_in H nd \<longleftrightarrow> (\<forall>h b. blk_list nd h = Some b \<longrightarrow> block_header b \<in> H)"

lemma listed_change: "round_change H nd nd' \<Longrightarrow> listed_in H nd' = listed_in H nd"
  by (simp add: listed_in_def round_change_def)

lemma sent_listed:
  assumes "broadcastMessage rt t (listed_block nd h) rnd nd = Inr nd'" and "listed_in H nd"
  shows "round_change H nd nd'"
proof -
  have "\<not> block_mutable (listed_block nd h)" using broadcast_keys [OF assms(1)] by blast
  then obtain b where "blk_list nd h = Some b" by (cases "blk_list nd h") (auto simp: listed_block_def empty_Block_def new_Block_def)
  then have "block_header (listed_block nd h) \<in> H" using assms(2) by (simp add: listed_block_def listed_in_def)
  then show ?thesis by (rule sent_header [OF assms(1)])
qed

lemma send_ready_change: "send_ready rt h rnd nd = Inr nd' \<Longrightarrow> listed_in H nd \<Longrightarrow> round_change H nd nd'"
  by (auto simp: send_ready_def dest: sent_listed)

lemma echo_rounds_change: "rfold (echo_round rt) hks nd = Inr nd' \<Longrightarrow> listed_in H nd \<Longrightarrow> round_change H nd nd'"
proof (induction hks arbitrary: nd)
  case (Cons hk hks)
  obtain nd1 where e: "echo_round rt hk nd = Inr nd1" "rfold (echo_round rt) hks nd1 = Inr nd'" using Cons.prems(1) by auto
  then have "round_change H nd nd1" using Cons.prems(2) by (auto simp: echo_round_def split: prod.splits if_splits dest: send_ready_change)
  then show ?case using Cons.IH [OF e(2)] Cons.prems(2) listed_change round_change_trans by blast
qed simp

lemma deliver_change: "deliver rt h nd = Inr nd' \<Longrightarrow> round_change H nd nd'"
  by (auto simp: deliver_def round_change_def tally_filter)

lemma ready_loop_change: "ready_loop rt hks nd = Inr nd' \<Longrightarrow> listed_in H nd \<Longrightarrow> round_change H nd nd'"
proof (induction hks arbitrary: nd)
  case (Cons hk hks)
  obtain h k where hk: "hk = (h, k)" by (cases hk)
  obtain nd1 where r: "(if ready_quorum (num_faulty nd) (unat k) \<and> h \<notin> ready_sent nd then send_ready rt h 3 nd else Inr nd) = Inr nd1"
    and l: "(if delivery_quorum (num_faulty nd1) (unat k) then deliver rt h nd1 else ready_loop rt hks nd1) = Inr nd'"
    using Cons.prems(1) hk by auto
  have c: "round_change H nd nd1" using r Cons.prems(2) by (auto split: if_splits dest: send_ready_change)
  then have "round_change H nd1 nd'" using l Cons.IH Cons.prems(2) listed_change by (metis deliver_change)
  then show ?case by (rule round_change_trans [OF c])
qed simp

lemma broadcastRound_change:
  assumes "broadcastRound rt nd = Inr nd'" and "listed_in H nd"
  shows "round_change H nd nd'"
proof -
  let ?nd = "nd\<lparr>should_broadcast := True\<rparr>"
  obtain nd1 nd2 where s: "(if send_this_round ?nd \<noteq> []
            then rbind (broadcastMessage rt ECHO (listed_block ?nd (send_this_round ?nd)) 1 ?nd) (\<lambda>nd. Inr (nd\<lparr>send_this_round := []\<rparr>))
            else Inr ?nd) = Inr nd1"
    and e: "rfold (echo_round rt) (rt_order rt (echo_this_round nd1)) nd1 = Inr nd2"
    and l: "ready_loop rt (rt_order rt (ready_this_round nd2)) nd2 = Inr nd'"
    using assms(1) by (auto simp: broadcastRound_def Let_def)
  have "listed_in H ?nd" using assms(2) by (simp add: listed_in_def)
  then have 1: "round_change H nd nd1" using s sent_listed [of rt ECHO ?nd] by (fastforce split: if_splits)
  then have 2: "round_change H nd1 nd2" using echo_rounds_change [OF e] assms(2) listed_change by blast
  then have "round_change H nd2 nd'" using ready_loop_change [OF l] assms(2) 1 listed_change by blast
  then show ?thesis using 1 2 round_change_trans by blast
qed

lemma local_change:
  assumes "local_ok H n f nd" and "round_change H nd nd'" and "node_inv nd'" and "set (accepted_blocks nd') \<subseteq> set (accepted_blocks nd) \<union> fst ` set (ready_this_round nd)"
  shows "local_ok H n f nd'"
proof -
  have "fst ` set (ready_this_round nd') \<subseteq> fst ` set (ready_this_round nd)" using assms(2) by (simp add: round_change_def image_mono)
  then have "fst ` set (ready_this_round nd') \<union> set (accepted_blocks nd') \<subseteq> fst ` set (ready_this_round nd) \<union> set (accepted_blocks nd)"
    using assms(4) by auto
  then have "\<forall>h \<in> fst ` set (ready_this_round nd') \<union> set (accepted_blocks nd'). node_blocks nd h \<noteq> None" using assms(1) unfolding local_ok_def by (meson subsetD)
  then show ?thesis using assms(1-3) by (simp add: local_ok_def round_change_def)
qed

lemma turn_local:
  assumes "node_turn rt batch nd = Inr nd'" and "runtime_ok rt" and "local_ok H n f nd" and "\<And>m. m \<in> set batch \<Longrightarrow> block_header (msg_block m) \<in> H"
  shows "local_ok H n f nd'" and "\<exists>new. outbox nd' = outbox nd @ new \<and> (\<forall>m \<in> set new. block_header (msg_block m) \<in> H)"
    and "tally h (ready_this_round nd') \<le> tally h (ready_this_round nd) + amount READY h batch"
    and "tally h (echo_this_round nd') \<le> tally h (echo_this_round nd) + amount ECHO h batch"
    and "h \<in> ready_sent nd' \<Longrightarrow> h \<in> ready_sent nd \<or> (unat n + unat f + 1) div 2 \<le> tally h (echo_this_round nd) + amount ECHO h batch
      \<or> unat f + 1 \<le> tally h (ready_this_round nd) + amount READY h batch"
    and "h \<in> set (accepted_blocks nd') \<Longrightarrow> h \<in> set (accepted_blocks nd) \<or> 2 * unat f + 1 < tally h (ready_this_round nd) + amount READY h batch"
proof -
  obtain nd1 where u: "updateRecvMessages batch nd = Inr nd1" and r: "broadcastRound rt nd1 = Inr nd'" using assms(1) by (auto simp: node_turn_def)
  have ok: "local_ok H n f nd1" "outbox nd1 = outbox nd" "ready_sent nd1 = ready_sent nd" "accepted_blocks nd1 = accepted_blocks nd"
    and ta: "tally g (ready_this_round nd1) \<le> tally g (ready_this_round nd) + amount READY g batch"
      "tally g (echo_this_round nd1) \<le> tally g (echo_this_round nd) + amount ECHO g batch" for g
    using updateRecv_local [OF u assms(3,4)] by auto
  have c: "round_change H nd1 nd'" using broadcastRound_change [OF r] ok(1) by (simp add: local_ok_def listed_in_def)
  have i: "node_inv nd'" using broadcastRound_inv [OF r] ok(1) by (simp add: local_ok_def)
  have "set (rt_order rt l) = set l" for l using assms(2) unfolding runtime_ok_def by (metis set_mset_mset)
  note res = broadcastRound_result [OF r this]
  have acc: "g \<in> set (accepted_blocks nd) \<or> (\<exists>k. (g, k) \<in> set (ready_this_round nd1) \<and> delivery_quorum f (unat k))" if "g \<in> set (accepted_blocks nd')" for g
    using res(2) that ok(1,4) assms(2) by (auto simp: runtime_ok_def local_ok_def split: if_splits)
  then show "local_ok H n f nd'" using local_change [OF ok(1) c i] ok(4) by force
  show "\<exists>new. outbox nd' = outbox nd @ new \<and> (\<forall>m \<in> set new. block_header (msg_block m) \<in> H)" using c ok(2) by (simp add: round_change_def)
  show "tally h (ready_this_round nd') \<le> tally h (ready_this_round nd) + amount READY h batch"
    "tally h (echo_this_round nd') \<le> tally h (echo_this_round nd) + amount ECHO h batch" using c ta order_trans unfolding round_change_def by blast+
  show "h \<in> set (accepted_blocks nd) \<or> 2 * unat f + 1 < tally h (ready_this_round nd) + amount READY h batch" if "h \<in> set (accepted_blocks nd')"
    using acc [OF that] tally_mem [of h _ "ready_this_round nd1"] ta(1) [of h] unfolding delivery_quorum_def by (meson less_le_trans)
  show "h \<in> ready_sent nd \<or> (unat n + unat f + 1) div 2 \<le> tally h (echo_this_round nd) + amount ECHO h batch
      \<or> unat f + 1 \<le> tally h (ready_this_round nd) + amount READY h batch" if h: "h \<in> ready_sent nd'"
  proof -
    have "h \<in> ready_sent nd \<or> (\<exists>k. (h, k) \<in> set (echo_this_round nd1) \<and> echo_quorum n f (unat k)) \<or> (\<exists>k. (h, k) \<in> set (ready_this_round nd1) \<and> ready_quorum f (unat k))"
      using res(1) h ok(1,3) by (auto simp: local_ok_def)
    then show ?thesis using tally_mem ta [of h] unfolding echo_quorum_def ready_quorum_def by (meson order_trans)
  qed
qed

section \<open>The invariant of the network\<close>

definition known_headers :: "async \<Rightarrow> Header set" where
  "known_headers s = block_header ` (set (proposals s) \<union> msg_block ` snd ` set (injected s))"

text \<open>A block some READY is justified for: by ECHO messages, or by faulty nodes alone.\<close>

definition backed :: "u16 \<Rightarrow> u16 \<Rightarrow> string \<Rightarrow> async \<Rightarrow> bool" where
  "backed n f h s \<longleftrightarrow> (\<exists>k < length (peers s). (unat n + unat f + 1) div 2 \<le> sent_amount ECHO h s + injected_to ECHO h k s \<or> unat f + 1 \<le> injected_to READY h k s)"

definition peer_ok :: "u16 \<Rightarrow> u16 \<Rightarrow> async \<Rightarrow> nat \<Rightarrow> Node \<Rightarrow> Message multiset \<Rightarrow> bool" where
  "peer_ok n f s i nd inbox \<longleftrightarrow> local_ok (known_headers s) n f nd
     \<and> (\<forall>h. tally h (ready_this_round nd) + size (filter_mset (of_kind READY h) inbox) \<le> sent_amount READY h s + injected_to READY h i s)
     \<and> (\<forall>h. tally h (echo_this_round nd) + size (filter_mset (of_kind ECHO h) inbox) \<le> sent_amount ECHO h s + injected_to ECHO h i s)
     \<and> (\<forall>h \<in> ready_sent nd. backed n f h s)
     \<and> (\<forall>h \<in> set (accepted_blocks nd). 2 * unat f + 1 < sent_amount READY h s + injected_to READY h i s)
     \<and> (\<forall>m \<in># inbox. block_header (msg_block m) \<in> known_headers s)"

definition async_inv :: "u16 \<Rightarrow> u16 \<Rightarrow> async \<Rightarrow> bool" where
  "async_inv n f s \<longleftrightarrow> (\<forall>i < length (peers s). peer_ok n f s i (peers s ! i) (inboxes s i))"

text \<open>Nothing that was sent is forgotten.\<close>

definition grows :: "async \<Rightarrow> async \<Rightarrow> bool" where
  "grows s s' \<longleftrightarrow> length (peers s') = length (peers s) \<and> known_headers s \<subseteq> known_headers s' \<and> (\<forall>t h. sent_amount t h s \<le> sent_amount t h s') \<and> (\<forall>t h i. injected_to t h i s \<le> injected_to t h i s')"

lemma backed_grows:
  assumes "backed n f h s" and "grows s s'"
  shows "backed n f h s'"
proof -
  have "sent_amount ECHO h s + injected_to ECHO h k s \<le> sent_amount ECHO h s' + injected_to ECHO h k s'" "injected_to READY h k s \<le> injected_to READY h k s'" for k
    using assms(2) by (simp_all add: grows_def add_mono)
  then show ?thesis using assms unfolding backed_def grows_def by (metis order_trans)
qed

lemma sent_update:
  assumes "i < length (peers s)" and "outbox nd = outbox (peers s ! i) @ new"
  shows "sent_amount t h (s\<lparr>peers := (peers s)[i := nd]\<rparr>) = sent_amount t h s + amount t h new"
proof -
  have "amount t h (outbox (peers s ! i)) \<le> sent_amount t h s" unfolding sent_amount_def using assms(1) by (intro member_le_sum_list) auto
  then show ?thesis using assms by (simp add: sent_amount_def map_update sum_list_update)
qed

lemma ready_sender:
  assumes "async_inv n f s" and "0 < sent_amount READY h s"
  obtains j where "j < length (peers s)" and "h \<in> ready_sent (peers s ! j)"
proof -
  have "sent_amount READY h s = 0" if "\<forall>nd \<in> set (peers s). amount READY h (outbox nd) = 0" using that by (simp add: sent_amount_def cong: map_cong)
  then have "\<exists>nd \<in> set (peers s). amount READY h (outbox nd) \<noteq> 0" using assms(2) by (metis less_numeral_extra(3))
  then obtain j where j: "j < length (peers s)" "0 < amount READY h (outbox (peers s ! j))" by (auto simp: in_set_conv_nth)
  then obtain m where "m \<in> set (outbox (peers s ! j))" "of_kind READY h m" by (auto simp: amount_def filter_empty_conv)
  then have "h \<in> set (ready_hashes (peers s ! j))" by (auto simp: ready_hashes_def of_kind_def)
  moreover have "node_inv (peers s ! j)" using assms(1) j(1) by (simp add: async_inv_def peer_ok_def local_ok_def)
  ultimately show thesis using that j(1) by (simp add: node_inv_def)
qed

lemma ready_amount:
  assumes "node_inv nd"
  shows "amount READY h (outbox nd) = (if h \<in> ready_sent nd then 1 else 0)"
proof -
  have "amount READY h (outbox nd) = length (filter (\<lambda>g. g = h) (ready_hashes nd))"
    by (simp add: amount_def ready_hashes_def filter_map comp_def of_kind_def [abs_def] conj_commute)
  also have "\<dots> = card ({g. g = h} \<inter> ready_sent nd)" using assms distinct_length_filter by (metis node_inv_def)
  finally show ?thesis by simp
qed

text \<open>When messages are sent, every node has them in its inbox.\<close>

lemma peer_ok_sent:
  assumes "peer_ok n f s k nd inbox" and "grows s s'" and "\<And>t h. sent_amount t h s' = sent_amount t h s + amount t h new" and "\<And>m. m \<in> set new \<Longrightarrow> block_header (msg_block m) \<in> known_headers s'"
  shows "peer_ok n f s' k nd (inbox + mset new)"
proof -
  have inj: "injected_to t h k s \<le> injected_to t h k s'" for t h using assms(2) by (simp add: grows_def)
  have H: "known_headers s \<subseteq> known_headers s'" using assms(2) by (simp add: grows_def)
  have le: "a + size (filter_mset (of_kind t h) (inbox + mset new)) \<le> sent_amount t h s' + injected_to t h k s'"
    if "a + size (filter_mset (of_kind t h) inbox) \<le> sent_amount t h s + injected_to t h k s" for a t h
    using that inj [of t h] by (simp add: assms(3) amount_mset)
  have 1: "tally h (ready_this_round nd) + size (filter_mset (of_kind READY h) (inbox + mset new)) \<le> sent_amount READY h s' + injected_to READY h k s'" for h
    using assms(1) by (intro le) (simp add: peer_ok_def)
  have 2: "tally h (echo_this_round nd) + size (filter_mset (of_kind ECHO h) (inbox + mset new)) \<le> sent_amount ECHO h s' + injected_to ECHO h k s'" for h
    using assms(1) by (intro le) (simp add: peer_ok_def)
  have 3: "2 * unat f + 1 < sent_amount READY h s' + injected_to READY h k s'" if "h \<in> set (accepted_blocks nd)" for h
    using assms(1) inj [of READY h] that by (auto simp: peer_ok_def assms(3) dest!: bspec)
  have 4: "local_ok (known_headers s') n f nd" "\<forall>h \<in> ready_sent nd. backed n f h s'" "\<forall>m \<in># inbox + mset new. block_header (msg_block m) \<in> known_headers s'"
    using assms(1,4) local_ok_mono [OF _ H] backed_grows [OF _ assms(2)] H by (auto simp: peer_ok_def)
  show ?thesis unfolding peer_ok_def using 1 2 3 4 by blast
qed

lemma peer_ok_sub:
  assumes "peer_ok n f s k nd inbox" and "inbox' \<subseteq># inbox"
  shows "peer_ok n f s k nd inbox'"
proof -
  have "size (filter_mset P inbox') \<le> size (filter_mset P inbox)" for P using assms(2) by (simp add: size_mset_mono multiset_filter_mono)
  then have "a + size (filter_mset P inbox') \<le> c" if "a + size (filter_mset P inbox) \<le> c" for a c P using that by (meson add_left_mono order_trans)
  moreover have "set_mset inbox' \<subseteq> set_mset inbox" using assms(2) by (rule set_mset_mono)
  ultimately show ?thesis using assms(1) unfolding peer_ok_def by blast
qed

lemma acted_inv:
  assumes "async_inv n f s" and "i < length (peers s)" and "outbox nd = outbox (peers s ! i) @ new" and "\<And>m. m \<in> set new \<Longrightarrow> block_header (msg_block m) \<in> known_headers s0"
    and "s0 = s\<lparr>inboxes := (inboxes s)(i := inbox), proposals := ps @ proposals s\<rparr>"
    and "peer_ok n f s0 i nd inbox"
  shows "async_inv n f (acted i nd s0)"
proof -
  let ?s = "acted i nd s0"
  have p: "peers s0 = peers s" "injected s0 = injected s" by (simp_all add: assms(5))
  have sent0: "sent_amount t h s0 = sent_amount t h s" for t h by (simp add: sent_amount_def p)
  have a: "peers ?s = (peers s)[i := nd]" "inboxes ?s k = inboxes s0 k + mset new" for k using assms(3) p by (simp_all add: acted_def)
  have st: "sent_amount t h ?s = sent_amount t h s0 + amount t h new" for t h
    using sent_update [of i s0 nd new t h] assms(2,3) p by (simp add: acted_def sent_amount_def)
  have h: "known_headers ?s = known_headers s0" "injected_to t g k ?s = injected_to t g k s0" for t g k by (simp_all add: known_headers_def injected_to_def acted_def)
  have g0: "grows s s0" using sent0 by (auto simp: grows_def p known_headers_def injected_to_def) (auto simp: assms(5))
  have g: "grows s0 ?s" using st h a(1) p by (simp add: grows_def)
  have new: "block_header (msg_block m) \<in> known_headers ?s" if "m \<in> set new" for m using assms(4) [OF that] h(1) by simp
  have "peer_ok n f s0 k (if k = i then nd else peers s ! k) (inboxes s0 k)" if k: "k < length (peers s)" for k
  proof (cases "k = i")
    case False
    have "peer_ok n f s k (peers s ! k) (inboxes s k)" using assms(1) k by (simp add: async_inv_def)
    from peer_ok_sent [OF this g0, of "[]"] show ?thesis using False sent0 by (simp add: assms(5))
  qed (use assms(5,6) in simp)
  then have q: "peer_ok n f ?s k (if k = i then nd else peers s ! k) (inboxes s0 k + mset new)" if "k < length (peers s)" for k
    using peer_ok_sent [OF _ g st new] that by blast
  have "peer_ok n f ?s k ((peers s)[i := nd] ! k) (inboxes ?s k)" if k: "k < length (peers s)" for k
    using q [OF k] assms(2) by (cases "k = i") (simp_all add: a(2))
  then show ?thesis by (simp add: async_inv_def a(1))
qed

lemma turn_peer_ok:
  assumes inv: "async_inv n f s" and i: "i < length (peers s)" and ms: "mset ms \<subseteq># inboxes s i" and tr: "rmap transmit ms = Inr batch"
    and turn: "node_turn rt batch (peers s ! i) = Inr nd" and rt: "runtime_ok rt"
  shows "peer_ok n f s i nd (inboxes s i - mset ms)"
    and "\<exists>new. outbox nd = outbox (peers s ! i) @ new \<and> (\<forall>m \<in> set new. block_header (msg_block m) \<in> known_headers s)"
proof -
  let ?nd = "peers s ! i"
  have ok: "peer_ok n f s i ?nd (inboxes s i)" using inv i by (simp add: async_inv_def)
  have "block_header (msg_block m) \<in> known_headers s" if m: "m \<in> set batch" for m
  proof -
    obtain m0 where "m0 \<in> set ms" "transmit m0 = Inr m" using rmap_Inr_in [OF tr m] by blast
    moreover from this have "m0 \<in># inboxes s i" using mset_subset_eqD [OF ms] by simp
    ultimately show ?thesis using ok transmit_keeps by (simp add: peer_ok_def)
  qed
  then have hd: "m \<in> set batch \<Longrightarrow> block_header (msg_block m) \<in> known_headers s" for m .
  have "local_ok (known_headers s) n f ?nd" using ok by (simp add: peer_ok_def)
  note l = turn_local [OF turn rt this hd]
  show "\<exists>new. outbox nd = outbox (peers s ! i) @ new \<and> (\<forall>m \<in> set new. block_header (msg_block m) \<in> known_headers s)" using l(2) by blast
  have size: "size (filter_mset (of_kind t h) (inboxes s i - mset ms)) + amount t h batch = size (filter_mset (of_kind t h) (inboxes s i))" for t h
    using ms transmit_amount [OF tr, of t h] amount_mset [of t h ms] size_mset_mono [OF multiset_filter_mono [OF ms], of "of_kind t h"]
    by (simp add: size_Diff_submset filter_diff_mset multiset_filter_mono size_mset_mono le_add_diff_inverse2)
  have bound: "tally h (ready_this_round ?nd) + amount READY h batch + size (filter_mset (of_kind READY h) (inboxes s i - mset ms)) \<le> sent_amount READY h s + injected_to READY h i s"
    "tally h (echo_this_round ?nd) + amount ECHO h batch + size (filter_mset (of_kind ECHO h) (inboxes s i - mset ms)) \<le> sent_amount ECHO h s + injected_to ECHO h i s" for h
    using ok size [of READY h] size [of ECHO h] by (simp_all add: peer_ok_def add.assoc add.commute [of "amount _ _ _"])
  have "backed n f h s" if h: "h \<in> ready_sent nd" for h
  proof -
    consider "h \<in> ready_sent ?nd" | "(unat n + unat f + 1) div 2 \<le> sent_amount ECHO h s + injected_to ECHO h i s" | "unat f + 1 \<le> sent_amount READY h s + injected_to READY h i s"
      using l(5) [of h] h bound [of h] by linarith
    then show ?thesis
    proof cases
      case 3
      then show ?thesis
      proof (cases "sent_amount READY h s = 0")
        case False
        then show ?thesis using ready_sender [OF inv, of h] inv by (metis async_inv_def peer_ok_def bot_nat_0.not_eq_extremum)
      qed (use i in \<open>auto simp: backed_def\<close>)
    qed (use ok i in \<open>auto simp: peer_ok_def backed_def\<close>)
  qed
  moreover have "2 * unat f + 1 < sent_amount READY h s + injected_to READY h i s" if "h \<in> set (accepted_blocks nd)" for h
    using l(6) [of h] that bound(1) [of h] ok by (auto simp: peer_ok_def)
  moreover have "tally h (ready_this_round nd) + size (filter_mset (of_kind READY h) (inboxes s i - mset ms)) \<le> sent_amount READY h s + injected_to READY h i s"
    "tally h (echo_this_round nd) + size (filter_mset (of_kind ECHO h) (inboxes s i - mset ms)) \<le> sent_amount ECHO h s + injected_to ECHO h i s" for h
    using l(3,4) [of h] bound [of h] by linarith+
  moreover have "\<forall>m \<in># inboxes s i - mset ms. block_header (msg_block m) \<in> known_headers s" using ok by (auto simp: peer_ok_def dest: in_diffD)
  ultimately show "peer_ok n f s i nd (inboxes s i - mset ms)" using l(1) unfolding peer_ok_def by blast
qed

lemma propose_peer_ok:
  assumes inv: "async_inv n f s" and i: "i < length (peers s)" and "Propose rt b (peers s ! i) = Inr nd" and s0: "s0 = s\<lparr>proposals := b # proposals s\<rparr>"
  shows "peer_ok n f s0 i nd (inboxes s i)"
    and "\<exists>new. outbox nd = outbox (peers s ! i) @ new \<and> (\<forall>m \<in> set new. block_header (msg_block m) \<in> known_headers s0)"
proof -
  let ?nd = "peers s ! i"
  have b: "broadcastMessage rt SEND b 0 ?nd = Inr nd" using assms(3) by (simp add: Propose_def)
  have c: "round_change (known_headers s0) ?nd nd" by (rule sent_header [OF b]) (simp add: known_headers_def s0)
  then show "\<exists>new. outbox nd = outbox (peers s ! i) @ new \<and> (\<forall>m \<in> set new. block_header (msg_block m) \<in> known_headers s0)" by (simp add: round_change_def)
  have "grows s s0" by (auto simp: grows_def s0 known_headers_def sent_amount_def injected_to_def)
  moreover have "peer_ok n f s i ?nd (inboxes s i)" using inv i by (simp add: async_inv_def)
  ultimately have ok: "peer_ok n f s0 i ?nd (inboxes s i)" using peer_ok_sent [of n f s i ?nd "inboxes s i" s0 "[]"] by (simp add: sent_amount_def s0)
  have e: "accepted_blocks nd = accepted_blocks ?nd" "ready_sent nd = ready_sent ?nd" "ready_this_round nd = ready_this_round ?nd" "echo_this_round nd = echo_this_round ?nd"
    using broadcastMessage_same [OF b] by (simp_all add: same_counts_def)
  have "node_inv nd" using broadcast_inv [OF b] ok by (simp add: peer_ok_def local_ok_def)
  then have "local_ok (known_headers s0) n f nd" using local_change [OF _ c] ok e(1) by (simp add: peer_ok_def)
  then show "peer_ok n f s0 i nd (inboxes s i)" using ok e by (simp add: peer_ok_def)
qed

lemma call_local:
  assumes "node_call nd nd'" and "local_ok H n f nd"
  shows "local_ok H n f nd' \<and> outbox nd' = outbox nd \<and> ready_sent nd' = ready_sent nd \<and> set (accepted_blocks nd') \<subseteq> set (accepted_blocks nd)
    \<and> ready_this_round nd' = ready_this_round nd \<and> echo_this_round nd' = echo_this_round nd"
  using assms(1)
proof cases
  case (blocks erase bs)
  have "(if h \<in> set (accepted_blocks nd) then Some (getReceivedBlock h nd) else node_blocks nd h) = node_blocks nd h" for h
    using assms(2) by (cases "node_blocks nd h") (force simp: local_ok_def getReceivedBlock_def)+
  then have "nd' = (if erase then nd\<lparr>accepted_blocks := [], should_broadcast := False\<rparr> else nd)"
    using blocks by (auto simp: getConsensusBlocks_def Let_def)
  then show ?thesis using assms(2) by (auto simp: local_ok_def)
qed (use assms(2) in \<open>simp_all add: node_setUTXOlists_def node_clearUTXOlists_def\<close>)

lemma call_inv:
  assumes inv: "async_inv n f s" and i: "i < length (peers s)" and "node_call (peers s ! i) nd"
  shows "async_inv n f (s\<lparr>peers := (peers s)[i := nd]\<rparr>)"
proof -
  have ok: "peer_ok n f s i (peers s ! i) (inboxes s i)" using inv i by (simp add: async_inv_def)
  then have l: "local_ok (known_headers s) n f nd" "outbox nd = outbox (peers s ! i)" "ready_sent nd = ready_sent (peers s ! i)" "set (accepted_blocks nd) \<subseteq> set (accepted_blocks (peers s ! i))"
    "ready_this_round nd = ready_this_round (peers s ! i)" "echo_this_round nd = echo_this_round (peers s ! i)"
    using call_local [OF assms(3)] by (auto simp: peer_ok_def)
  have "peer_ok n f s i nd (inboxes s i)" unfolding peer_ok_def using ok l by (auto simp: peer_ok_def)
  then have "async_inv n f (acted i nd s)"
    by (intro acted_inv [OF inv i, where new = "[]" and ps = "[]" and inbox = "inboxes s i"]) (simp_all add: l(2))
  then show ?thesis using l(2) by (simp add: acted_def)
qed

lemma lose_inv:
  assumes inv: "async_inv n f s" and s': "s' = s\<lparr>inboxes := (inboxes s)(i := inboxes s i - M)\<rparr>"
  shows "async_inv n f s'"
proof -
  have "known_headers s' = known_headers s" "sent_amount t h s' = sent_amount t h s" "injected_to t h k s' = injected_to t h k s" "backed n f h s' = backed n f h s" for t h k
    by (simp_all add: s' known_headers_def sent_amount_def injected_to_def backed_def)
  then have "peer_ok n f s' k nd inbox = peer_ok n f s k nd inbox" for k nd inbox by (simp add: peer_ok_def)
  moreover have "peer_ok n f s k (peers s ! k) (inboxes s k)" if "k < length (peers s)" for k using inv that by (simp add: async_inv_def)
  moreover have "inboxes s' k \<subseteq># inboxes s k" for k by (simp add: s')
  ultimately have "peer_ok n f s' k (peers s ! k) (inboxes s' k)" if "k < length (peers s)" for k using peer_ok_sub that by blast
  then show ?thesis by (simp add: async_inv_def s')
qed

lemma inject_inv:
  assumes inv: "async_inv n f s" and s': "s' = s\<lparr>inboxes := (inboxes s)(i := add_mset m (inboxes s i)), injected := (i, m) # injected s\<rparr>"
  shows "async_inv n f s'"
proof -
  have p: "peers s' = peers s" "sent_amount t h s' = sent_amount t h s" for t h by (simp_all add: s' sent_amount_def)
  have j: "injected_to t h k s' = (if k = i \<and> of_kind t h m then 1 else 0) + injected_to t h k s" for t h k by (simp add: s' injected_to_def)
  have "known_headers s \<subseteq> known_headers s'" unfolding known_headers_def s' by (rule image_mono) auto
  then have g: "grows s s'" using j p by (simp add: grows_def)
  have "peer_ok n f s' k (peers s ! k) (inboxes s' k)" if "k < length (peers s)" for k
  proof -
    have "peer_ok n f s k (peers s ! k) (inboxes s k)" using inv that by (simp add: async_inv_def)
    from peer_ok_sent [OF this g, of "[]"] have ok: "peer_ok n f s' k (peers s ! k) (inboxes s k)" using p(2) by simp
    have o: "peer_ok n f s k (peers s ! k) (inboxes s k)" by fact
    have "tally h (ready_this_round (peers s ! k)) + size (filter_mset (of_kind READY h) (inboxes s' k)) \<le> sent_amount READY h s' + injected_to READY h k s'"
      "tally h (echo_this_round (peers s ! k)) + size (filter_mset (of_kind ECHO h) (inboxes s' k)) \<le> sent_amount ECHO h s' + injected_to ECHO h k s'" for h
      using o unfolding p j peer_ok_def by (auto simp: s')
    moreover have "\<forall>m \<in># inboxes s' k. block_header (msg_block m) \<in> known_headers s'" using ok by (auto simp: s' peer_ok_def known_headers_def)
    ultimately show ?thesis using ok unfolding peer_ok_def by blast
  qed
  then show ?thesis by (simp add: async_inv_def p)
qed

lemma async_step_inv:
  assumes "async_step rts s s'" and inv: "async_inv n f s" and "\<And>i. runtime_ok (rts i)"
  shows "async_inv n f s'"
  using assms(1)
proof cases
  case (turn i ms batch nd)
  let ?s0 = "s\<lparr>inboxes := (inboxes s)(i := inboxes s i - mset ms)\<rparr>"
  note p = turn_peer_ok [OF inv turn(2-5) assms(3)]
  have h: "known_headers ?s0 = known_headers s" by (simp add: known_headers_def)
  have "peer_ok n f ?s0 i nd (inboxes s i - mset ms)" using p(1) by (simp add: peer_ok_def h backed_def sent_amount_def injected_to_def)
  moreover have "?s0 = s\<lparr>inboxes := (inboxes s)(i := inboxes s i - mset ms), proposals := [] @ proposals s\<rparr>" by simp
  ultimately show ?thesis using p(2) acted_inv [OF inv turn(2)] turn(1) h by metis
next
  case (propose i b nd)
  let ?s0 = "s\<lparr>proposals := b # proposals s\<rparr>"
  have "?s0 = s\<lparr>inboxes := (inboxes s)(i := inboxes s i), proposals := [b] @ proposals s\<rparr>" by simp
  then show ?thesis using propose_peer_ok [OF inv propose(2,3) refl] acted_inv [OF inv propose(2)] propose(1) by metis
qed (use call_inv [OF inv] lose_inv [OF inv] inject_inv [OF inv] in auto)

text \<open>Nodes as the constructor leaves them, for a network of \<open>n\<close> nodes with \<open>f\<close> faulty ones.\<close>

definition fresh_peer :: "u16 \<Rightarrow> u16 \<Rightarrow> Node \<Rightarrow> bool" where
  "fresh_peer n f nd \<longleftrightarrow> (\<exists>rt id0 settings lead. new_Node rt id0 settings lead = Inr nd) \<and> num_nodes nd = n \<and> num_faulty nd = f"

lemma new_Node_empty:
  "new_Node rt id0 settings lead = Inr nd \<Longrightarrow> blk_list nd = Map.empty \<and> node_blocks nd = Map.empty \<and> ready_this_round nd = [] \<and> echo_this_round nd = []
     \<and> ready_sent nd = {} \<and> accepted_blocks nd = []"
  by (cases "getValidatorInfo (ucast id0) settings") (auto simp: new_Node_def dest!: node_KeyGen_Inr)

lemma start_inv:
  assumes "\<forall>nd \<in> set nodes. fresh_peer n f nd"
  shows "async_inv n f (start_async nodes)"
proof -
  have "peer_ok n f s i nd {#}" if "fresh_peer n f nd" for nd i s
  proof -
    have "blk_list nd = Map.empty" "node_blocks nd = Map.empty" "ready_this_round nd = []" "echo_this_round nd = []" "ready_sent nd = {}" "accepted_blocks nd = []"
      using that new_Node_empty by (auto simp: fresh_peer_def)
    moreover have "node_inv nd" using that new_Node_inv by (auto simp: fresh_peer_def)
    ultimately show ?thesis using that by (simp add: peer_ok_def local_ok_def fresh_peer_def tally_def)
  qed
  then show ?thesis using assms by (simp add: async_inv_def start_async_def)
qed

interpretation asynchronous: invariant_system "\<lambda>s. \<exists>nodes. s = start_async nodes \<and> (\<forall>nd \<in> set nodes. fresh_peer n f nd)"
    "\<lambda>s s'. (\<forall>i. runtime_ok (rts i)) \<and> async_step rts s s'" "async_inv n f" for n f rts
  by unfold_locales (auto intro: start_inv async_step_inv)

lemma ready_senders:
  assumes "async_inv n f s"
  shows "sent_amount READY h s = card {j. j < length (peers s) \<and> h \<in> ready_sent (peers s ! j)}"
proof -
  have "map (\<lambda>nd. amount READY h (outbox nd)) (peers s) = map (\<lambda>nd. if h \<in> ready_sent nd then 1 else 0) (peers s)"
    using assms ready_amount by (auto simp: async_inv_def peer_ok_def local_ok_def in_set_conv_nth)
  moreover have "(\<Sum>nd \<leftarrow> nds. if h \<in> ready_sent nd then 1 else 0 :: nat) = length (filter (\<lambda>nd. h \<in> ready_sent nd) nds)" for nds by (induction nds) auto
  ultimately have "sent_amount READY h s = length (filter (\<lambda>nd. h \<in> ready_sent nd) (peers s))" unfolding sent_amount_def by metis
  then show ?thesis by (simp add: length_filter_conv_card)
qed

section \<open>Rounds as schedules\<close>

text \<open>The rounds of the other theories are schedules of this network.\<close>

lemma arrival_order:
  assumes "rmap transmit ms = Inr batch" and "mset batch' = mset batch"
  shows "\<exists>ms'. mset ms' = mset ms \<and> rmap transmit ms' = Inr batch'"
proof -
  obtain ms' where "list_all2 (\<lambda>y x. transmit x = Inr y) batch' ms'" "mset ms' = mset ms"
    using list_all2_reorder_left_invariance [OF rmap_list_all2 [OF assms(1)] assms(2)] by blast
  moreover have "rmap transmit xs = Inr ys" if "list_all2 (\<lambda>y x. transmit x = Inr y) ys xs" for xs ys using that by (induction rule: list_all2_induct) auto
  ultimately show ?thesis by blast
qed

lemma turns_simulated:
  assumes "rmap transmit ms = Inr batch" and "shuffles arrival" and "length nodes' = length (peers s)"
    and "\<And>i. i < length (peers s) \<Longrightarrow> node_turn (rts i) (arrival i batch) (peers s ! i) = Inr (nodes' ! i)"
    and "\<And>k. k < length (peers s) \<Longrightarrow> inboxes s k = mset ms" and "j \<le> length (peers s)"
  shows "\<exists>s'. (async_step rts)\<^sup>*\<^sup>* s s' \<and> peers s' = take j nodes' @ drop j (peers s) \<and> (\<forall>k < length (peers s). inboxes s' k = (if k < j then {#} else mset ms)
    + mset (concat (map (\<lambda>i. drop (length (outbox (peers s ! i))) (outbox (nodes' ! i))) [0..<j])))"
  using assms(6)
proof (induction j)
  case (Suc j)
  let ?new = "\<lambda>i. drop (length (outbox (peers s ! i))) (outbox (nodes' ! i))" let ?n = "length (peers s)"
  obtain s1 where s1: "(async_step rts)\<^sup>*\<^sup>* s s1" "peers s1 = take j nodes' @ drop j (peers s)"
    "\<And>k. k < ?n \<Longrightarrow> inboxes s1 k = (if k < j then {#} else mset ms) + mset (concat (map ?new [0..<j]))"
    using Suc.IH Suc.prems by auto
  have j: "j < ?n" using Suc.prems by simp
  then have p: "j < length (peers s1)" "peers s1 ! j = peers s ! j" using s1(2) assms(3) by (simp_all add: nth_append)
  have "mset (arrival j batch) = mset batch" using assms(2) by (simp add: shuffles_def)
  then obtain ms' where ms': "mset ms' = mset ms" "rmap transmit ms' = Inr (arrival j batch)" using arrival_order [OF assms(1)] by blast
  let ?s2 = "acted j (nodes' ! j) (s1\<lparr>inboxes := (inboxes s1)(j := inboxes s1 j - mset ms')\<rparr>)"
  have "async_step rts s1 ?s2" using s1(3) [OF j] ms' p assms(4) [OF j] by (intro async_step.turn [OF p(1) _ ms'(2)]) simp_all
  moreover have "peers ?s2 = take (Suc j) nodes' @ drop (Suc j) (peers s)"
    using s1(2) j assms(3) by (simp add: acted_def list_update_append take_Suc_conv_app_nth Cons_nth_drop_Suc [symmetric] del: Cons_nth_drop_Suc)
  moreover have "inboxes ?s2 k = (if k < Suc j then {#} else mset ms) + mset (concat (map ?new [0..<Suc j]))" if "k < ?n" for k
    using s1(3) [OF that] s1(3) [OF j] ms'(1) p(2) by (auto simp: acted_def less_Suc_eq)
  ultimately show ?case using s1(1) by (meson rtranclp.rtrancl_into_rtrancl)
qed (use assms(5) in auto)

lemma round_simulated:
  assumes "network_round rts arrival ms nodes = Inr (nodes', ms')" and "shuffles arrival" and "peers s = nodes" and "\<And>k. k < length nodes \<Longrightarrow> inboxes s k = mset ms"
  shows "length nodes' = length nodes" and "\<exists>s'. (async_step rts)\<^sup>*\<^sup>* s s' \<and> peers s' = nodes' \<and> (\<forall>k < length nodes. inboxes s' k = mset ms')"
proof -
  obtain batch where b: "rmap transmit ms = Inr batch" "rmap (\<lambda>i. node_turn (rts i) (arrival i batch) (nodes ! i)) [0..<length nodes] = Inr nodes'"
    "ms' = concat (map (\<lambda>i. drop (length (outbox (nodes ! i))) (outbox (nodes' ! i))) [0..<length nodes])"
    using assms(1) by (auto simp: network_round_def)
  have t: "length nodes' = length nodes" "\<And>i. i < length nodes \<Longrightarrow> node_turn (rts i) (arrival i batch) (nodes ! i) = Inr (nodes' ! i)"
    using rmap_list_all2 [OF b(2)] by (auto simp: list_all2_conv_all_nth)
  show "length nodes' = length nodes" by (rule t(1))
  show "\<exists>s'. (async_step rts)\<^sup>*\<^sup>* s s' \<and> peers s' = nodes' \<and> (\<forall>k < length nodes. inboxes s' k = mset ms')"
    using turns_simulated [OF b(1) assms(2), of nodes' s rts "length nodes"] t assms(3,4) b(3) by auto
qed

lemma run_simulated:
  assumes "network_run rts arrival r ms nodes = Inr (nodes', ms')" and "shuffles arrival" and "peers s = nodes" and "\<And>k. k < length nodes \<Longrightarrow> inboxes s k = mset ms"
  shows "\<exists>s'. (async_step rts)\<^sup>*\<^sup>* s s' \<and> peers s' = nodes'"
  using assms
proof (induction r arbitrary: ms nodes s)
  case (Suc r)
  obtain n1 m1 where r: "network_round rts arrival ms nodes = Inr (n1, m1)" "network_run rts arrival r m1 n1 = Inr (nodes', ms')" using Suc.prems(1) by auto
  obtain s1 where s1: "(async_step rts)\<^sup>*\<^sup>* s s1" "peers s1 = n1" "\<forall>k < length nodes. inboxes s1 k = mset m1" "length n1 = length nodes"
    using round_simulated [OF r(1) Suc.prems(2-4)] by blast
  then show ?case using Suc.IH [OF r(2) Suc.prems(2) s1(2)] by (metis rtranclp_trans)
qed auto

lemma calls_simulated:
  assumes "\<And>nd. node_call\<^sup>*\<^sup>* nd (g nd)" and "j \<le> length (peers s)"
  shows "(async_step rts)\<^sup>*\<^sup>* s (s\<lparr>peers := map g (take j (peers s)) @ drop j (peers s)\<rparr>)"
  using assms(2)
proof (induction j)
  case (Suc j)
  let ?s = "\<lambda>nd. s\<lparr>peers := map g (take j (peers s)) @ nd # drop (Suc j) (peers s)\<rparr>"
  have j: "j < length (peers s)" using Suc.prems by simp
  have "(async_step rts)\<^sup>*\<^sup>* (?s nd) (?s nd')" if "node_call\<^sup>*\<^sup>* nd nd'" for nd nd'
    using that
  proof (induction rule: rtranclp_induct)
    case (step x y)
    have "async_step rts (?s x) ((?s x)\<lparr>peers := (peers (?s x))[j := y]\<rparr>)" using step(2) j by (intro async_step.call) (simp_all add: nth_append)
    then show ?case using step(3) j by (simp add: list_update_append)
  qed simp
  from this [OF assms(1), of "peers s ! j"] Suc.IH Suc.prems j show ?case
    by (simp add: Cons_nth_drop_Suc take_Suc_conv_app_nth)
qed simp

lemma consensus_run_simulated:
  assumes "consensus_run rts arrival l (utxolist, ids, b) nodes = Inr nodes'" and "shuffles arrival" and "l < length nodes"
  shows "\<exists>s. (async_step rts)\<^sup>*\<^sup>* (start_async nodes) s \<and> peers s = nodes'"
proof -
  let ?nodes = "start_run utxolist ids nodes" let ?s1 = "(start_async nodes)\<lparr>peers := ?nodes\<rparr>"
  obtain ld ms where r: "Propose (rts l) b (?nodes ! l) = Inr ld" "network_run rts arrival 3 (drop (length (outbox (?nodes ! l))) (outbox ld)) (?nodes[l := ld]) = Inr (nodes', ms)"
    using assms(1) by (auto simp: consensus_run_def propose_run_def)
  have "node_call\<^sup>*\<^sup>* nd ((node_setUTXOlists utxolist ids nd)\<lparr>should_broadcast := True\<rparr>)" for nd
  proof -
    have "node_call nd (node_setUTXOlists utxolist ids nd)" by (rule set_utxo)
    moreover have "node_call (node_setUTXOlists utxolist ids nd) ((node_setUTXOlists utxolist ids nd)\<lparr>should_broadcast := True\<rparr>)" by (rule restart)
    ultimately show ?thesis by (rule converse_rtranclp_into_rtranclp [OF _ r_into_rtranclp])
  qed
  from calls_simulated [OF this, of "length nodes" "start_async nodes" rts] have 1: "(async_step rts)\<^sup>*\<^sup>* (start_async nodes) ?s1"
    by (simp add: start_async_def start_run_def)
  let ?s2 = "acted l ld (?s1\<lparr>proposals := b # proposals ?s1\<rparr>)"
  have 2: "async_step rts ?s1 ?s2" using r(1) assms(3) by (intro async_step.propose) (simp_all add: start_run_def)
  have p: "peers ?s2 = ?nodes[l := ld]" by (simp add: acted_def)
  have q: "inboxes ?s2 k = mset (drop (length (outbox (?nodes ! l))) (outbox ld))" for k by (simp add: acted_def start_async_def)
  obtain s where 3: "(async_step rts)\<^sup>*\<^sup>* ?s2 s" "peers s = nodes'" using run_simulated [OF r(2) assms(2) p] q by blast
  from rtranclp.rtrancl_into_rtrancl [OF 1 2] rtranclp_trans 3 show ?thesis by metis
qed

section \<open>Properties of the network in any schedule\<close>



end
