(* ===== verification/Comms_Test.thy ===== *)
theory Comms_Test
  imports Node_Test
begin

text \<open>
  The program \<^verbatim>\<open>src/server_client_test.cc\<close>: a client broadcasts a block to two servers, a wallet sends a transaction to the leader, wallets ask for
  their coins, and copies of the client broadcast again. A request that has been sent is handed to the call object of the addressed server
  that waits for it; a loop that waits for a request is left once it has come. What the program prints is left out.
\<close>

section \<open>Requests on their way\<close>

definition ready_call :: "CallKind \<Rightarrow> Server \<Rightarrow> nat" where
  "ready_call k s = hd (filter (\<lambda>tag. calls s tag = Some (k, START_PROCESS)) [0..<next_call s])"

definition serve_talk :: "chat_Message \<Rightarrow> Server \<Rightarrow> Server res" where
  "serve_talk p s = HandleRpcs_turn (ready_call CallDataTalk s) (TalkRequest p) s"

definition serve_new_tx :: "chat_Transaction \<Rightarrow> Server \<Rightarrow> Server res" where
  "serve_new_tx p s = HandleRpcs_turn (ready_call CallDataNewTx s) (NewTxRequest p) s"

text \<open>The reply to a request for coins, and the server after it.\<close>

definition serve_sync :: "u32 \<Rightarrow> Server \<Rightarrow> (chat_UTXO list \<times> Server) res" where
  "serve_sync w s = rbind (HandleRpcs_turn (ready_call CallDataSync s) (SyncRequest w) s) (\<lambda>s.
     case snd (last (replies s)) of SyncReply r \<Rightarrow> Inr (r, s) | Ack \<Rightarrow> Inl (Not_modelled ''reply''))"

text \<open>The threads of the client send what is queued, and each server receives what is sent to its address.\<close>

definition deliver_talk :: "string list \<Rightarrow> string \<times> chat_Message \<Rightarrow> Server list \<Rightarrow> Server list res" where
  "deliver_talk addrs sent servers = rmap (\<lambda>(addr, s). if addr = fst sent then serve_talk (snd sent) s else Inr s) (zip addrs servers)"

definition broadcast_all :: "Message \<Rightarrow> ValidatorClient \<Rightarrow> Server list \<Rightarrow> (ValidatorClient \<times> Server list) res" where
  "broadcast_all m c servers = rbind (Broadcast m c) (\<lambda>c1. rbind (rfold RunThread_turn (cl_servers c1) c1) (\<lambda>c2.
     rbind (rfold (deliver_talk (cl_servers c2)) (drop (length (cl_sent c)) (cl_sent c2)) servers) (\<lambda>servers. Inr (c2, servers))))"

section \<open>The program\<close>

definition comms_settings :: Settings where
  "comms_settings = get_local_settings 2 2"

definition comms_block :: "urandom \<Rightarrow> u16 \<Rightarrow> (Transaction \<times> Block) res" where
  "comms_block env sid =
     (let transaction1 = test_transaction sid 3001 [Input 2001 10, Input 2002 2] [Output 6 1001, Output 20 1002];
          transaction2 = test_transaction sid 3002 [Input 2003 7] [Output 10 1002] in
      case KeyGen env 0 new_signature of (kp, r) \<Rightarrow> rbind r (\<lambda>_.
      rbind (sign_transaction kp transaction1) (\<lambda>transaction1. rbind (sign_transaction kp transaction2) (\<lambda>transaction2.
      rbind (rfold addTransaction [transaction1, transaction2] (new_Block 2 ''prevblock'')) (\<lambda>block. rbind (finalize block) (\<lambda>block.
      case KeyGen env (2 * KEY_LEN) new_signature of (kp1, r) \<Rightarrow> rbind r (\<lambda>_. case KeyGen env (4 * KEY_LEN) new_signature of (kp2, r) \<Rightarrow> rbind r (\<lambda>_.
      case Block_sign (private_key kp1) 26 (public_key kp2) block of (block, r) \<Rightarrow> rbind r (\<lambda>_. Inr (transaction1, block))))))))))"

definition comms_utxolist :: UTXOlist where
  "comms_utxolist = [UTXO 101 11 (Output 6 1001), UTXO 102 12 (Output 20 1002), UTXO 103 13 (Output 10 1002)]"

definition receive_block :: "Block \<Rightarrow> Server \<Rightarrow> Server res" where
  "receive_block block s = rbind (assert_that ''newConsensusMessages'' (newConsensusMessages s)) (\<lambda>_.
     case getMessages [] s of (new, msg_list, s) \<Rightarrow>
     rbind (assert_that ''getMessages'' new) (\<lambda>_. rbind (assert_that ''size'' (length msg_list = 1)) (\<lambda>_.
     rbind (assert_that ''block'' (Block_eq block (msg_block (hd msg_list)))) (\<lambda>_.
     rbind (assert_that ''newConsensusMessages'' (\<not> newConsensusMessages s)) (\<lambda>_. Inr s)))))"

definition broadcast_test :: "Block \<Rightarrow> ValidatorClient \<Rightarrow> Server list \<Rightarrow> (ValidatorClient \<times> Server list) res" where
  "broadcast_test block c servers = rbind (broadcast_all (new_Message ECHO block 1002 1) c servers) (\<lambda>(c, servers).
     rbind (rmap (receive_block block) servers) (\<lambda>servers. Inr (c, servers)))"

definition transaction_test :: "Transaction \<Rightarrow> Server \<Rightarrow> Server \<Rightarrow> (Server \<times> Server) res" where
  "transaction_test tx server1 server2 =
     rbind (assert_that ''newRequests'' (\<not> newRequests server1 \<and> \<not> newRequests server2)) (\<lambda>_.
     rbind (Wallet_SendToLeader tx) (\<lambda>(_, p). rbind (serve_new_tx p server1) (\<lambda>server1.
     case getTransactions [] server1 of (new, tx_list, server1) \<Rightarrow>
     rbind (assert_that ''getTransactions'' new) (\<lambda>_. rbind (assert_that ''size'' (length tx_list = 1)) (\<lambda>_.
     rbind (assert_that ''transaction'' (Transaction_eq tx (hd tx_list))) (\<lambda>_.
     case getTransactions tx_list server2 of (new2, tx_list, server2) \<Rightarrow>
     rbind (assert_that ''getTransactions'' (\<not> new2)) (\<lambda>_.
     rbind (assert_that ''newRequests'' (\<not> newRequests server1 \<and> \<not> newRequests server2)) (\<lambda>_. Inr (server1, server2)))))))))"

text \<open>The three wallets ask at the same time: the requests come in any order.\<close>

definition sync_test :: "u32 list \<Rightarrow> Server \<Rightarrow> Server res" where
  "sync_test order server1 =
     (let server1 = setUTXOlists [1 \<mapsto> comms_utxolist, 2 \<mapsto> comms_utxolist] server1 in
      rbind (rfold (\<lambda>w (got, s). rbind (serve_sync w s) (\<lambda>(r, s). Inr (got(w \<mapsto> snd (SendSyncRequest r [])), s))) order (Map.empty, server1)) (\<lambda>(got, s).
      rbind (assert_that ''wallet 1'' (got 1 = Some comms_utxolist)) (\<lambda>_. rbind (assert_that ''wallet 2'' (got 2 = Some comms_utxolist)) (\<lambda>_.
      rbind (assert_that ''wallet 3'' (got 3 = Some [])) (\<lambda>_. Inr s)))))"

text \<open>The copy and the move constructor of the client: threads and queues are started anew.\<close>

definition copy_ValidatorClient :: "ValidatorClient \<Rightarrow> ValidatorClient" where
  "copy_ValidatorClient other = startThreads \<lparr>cl_servers = cl_servers other, cl_leader = cl_leader other, message_queues = Map.empty, cl_sent = []\<rparr>"

definition move_ValidatorClient :: "ValidatorClient \<Rightarrow> ValidatorClient \<times> ValidatorClient" where
  "move_ValidatorClient other = (copy_ValidatorClient other, other\<lparr>cl_servers := [], cl_leader := []\<rparr>)"

definition comms_test :: "urandom \<Rightarrow> u16 \<Rightarrow> u32 list \<Rightarrow> Server list res" where
  "comms_test env sid order =
     rbind (comms_block env sid) (\<lambda>(transaction1, block).
     let servers = replicate 2 (HandleRpcs_start new_Server); client = new_ValidatorClient comms_settings in
     rbind (assert_that ''newConsensusMessages'' (list_all (\<lambda>s. \<not> newConsensusMessages s) servers)) (\<lambda>_.
     rbind (broadcast_test block client servers) (\<lambda>(client, servers).
     rbind (transaction_test transaction1 (servers ! 0) (servers ! 1)) (\<lambda>(server1, server2).
     rbind (assert_that ''newRequests'' (\<not> newRequests server1 \<and> \<not> newRequests server2)) (\<lambda>_.
     rbind (sync_test order server1) (\<lambda>server1.
     rbind (broadcast_test block (copy_ValidatorClient client) [server1, server2]) (\<lambda>(_, servers).
     rbind (broadcast_test block (fst (move_ValidatorClient client)) servers) (\<lambda>(_, servers). Inr servers))))))))"

section \<open>Lemmas\<close>

lemma ready_call_waits:
  assumes "server_ok s"
  shows "calls s (ready_call k s) = Some (k, START_PROCESS)"
proof -
  have c: "card (listening k s) = 1" "dom (calls s) \<subseteq> {..<next_call s}" using assms by (simp_all add: server_ok_def)
  obtain tag where "listening k s = {tag}" using c(1) by (rule card_1_singletonE)
  then have "calls s tag = Some (k, START_PROCESS)" by (auto simp: listening_def)
  moreover from this have "tag < next_call s" using c(2) by auto
  ultimately have "filter (\<lambda>tag. calls s tag = Some (k, START_PROCESS)) [0..<next_call s] \<noteq> []" by (auto simp: filter_empty_conv)
  from hd_in_set [OF this] show ?thesis by (simp add: ready_call_def)
qed

lemma serve_talk_queued:
  assumes "server_ok s" and "Message_of_proto p = Inr m"
  shows "\<exists>s'. serve_talk p s = Inr s' \<and> server_ok s' \<and> mq s' = mq s @ [m] \<and> txq s' = txq s"
proof -
  obtain s' where s': "serve_talk p s = Inr s'" "mq s' = mq s @ [m]" "txq s' = txq s"
    using ready_call_waits [OF assms(1), of CallDataTalk] assms(2)
    by (simp add: serve_talk_def HandleRpcs_turn_def Proceed_Talk_def finish_reply_def push_message_def new_call_def proceed_create_def)
  then show ?thesis using turn_ok [OF _ assms(1)] by (auto simp: serve_talk_def)
qed

lemma serve_new_tx_queued:
  assumes "server_ok s" and "fromProtoTransaction new_Transaction p = Inr t"
  shows "\<exists>s'. serve_new_tx p s = Inr s' \<and> server_ok s' \<and> txq s' = txq s @ [t] \<and> mq s' = mq s"
proof -
  obtain s' where s': "serve_new_tx p s = Inr s'" "txq s' = txq s @ [t]" "mq s' = mq s"
    using ready_call_waits [OF assms(1), of CallDataNewTx] assms(2)
    by (simp add: serve_new_tx_def HandleRpcs_turn_def Proceed_NewTx_def finish_reply_def push_transaction_def new_call_def proceed_create_def)
  then show ?thesis using turn_ok [OF _ assms(1)] by (auto simp: serve_new_tx_def)
qed

lemma serve_sync_replies:
  assumes "server_ok s"
  shows "\<exists>s'. serve_sync w s = Inr (toProtoUTXOlist (case utxolists s w of None \<Rightarrow> [] | Some l \<Rightarrow> l) [], s')
    \<and> server_ok s' \<and> mq s' = mq s \<and> txq s' = txq s \<and> utxolists s' = utxolists s"
proof -
  let ?r = "toProtoUTXOlist (case utxolists s w of None \<Rightarrow> [] | Some l \<Rightarrow> l) []"
  obtain s' where s': "HandleRpcs_turn (ready_call CallDataSync s) (SyncRequest w) s = Inr s'" "replies s' = replies s @ [(ready_call CallDataSync s, SyncReply ?r)]"
    "mq s' = mq s" "txq s' = txq s" "utxolists s' = utxolists s"
    using ready_call_waits [OF assms(1), of CallDataSync]
    by (simp add: HandleRpcs_turn_def Proceed_Sync_def finish_reply_def new_call_def proceed_create_def Let_def)
  then show ?thesis using turn_ok [OF s'(1) assms(1)] by (simp add: serve_sync_def)
qed

text \<open>A server with empty queues that listens.\<close>

definition quiet :: "Server \<Rightarrow> bool" where
  "quiet s \<longleftrightarrow> server_ok s \<and> mq s = [] \<and> txq s = []"

lemma quiet_start: "quiet (HandleRpcs_start new_Server)"
  using start_ok by (simp add: quiet_def HandleRpcs_start_def new_call_def proceed_create_def new_Server_def)

lemma comms_addresses:
  "getValidatorAdresses comms_settings = [to_address ''127.0.0.1'' 50000, to_address ''127.0.0.1'' 50001]"
  "to_address ''127.0.0.1'' 50000 \<noteq> to_address ''127.0.0.1'' 50001"
  by (simp_all add: getValidatorAdresses_def comms_settings_def get_local_settings_def new_Settings_def upt_rec to_address_def)

text \<open>A client whose threads have been started for two servers, with nothing queued or sent.\<close>

definition two_servers :: "ValidatorClient \<Rightarrow> bool" where
  "two_servers c \<longleftrightarrow> cl_servers c = [to_address ''127.0.0.1'' 50000, to_address ''127.0.0.1'' 50001]
     \<and> message_queues c (to_address ''127.0.0.1'' 50000) = Some [] \<and> message_queues c (to_address ''127.0.0.1'' 50001) = Some []"

lemma new_client_ok: "two_servers (new_ValidatorClient comms_settings)"
  by (simp add: two_servers_def new_ValidatorClient_def comms_addresses startThreads_def Let_def upt_rec)

lemma copy_client_ok: "two_servers c \<Longrightarrow> two_servers (copy_ValidatorClient c)"
  by (simp add: two_servers_def copy_ValidatorClient_def startThreads_def Let_def upt_rec)

lemma broadcast_all_delivered:
  assumes "two_servers c" and "server_ok s1" "server_ok s2" and "msg_type m = Some t" and "sendable (msg_block m)"
  shows "\<exists>c' s1' s2'. broadcast_all m c [s1, s2] = Inr (c', [s1', s2']) \<and> two_servers c' \<and> server_ok s1' \<and> server_ok s2'
    \<and> (\<exists>m'. msg_block m' = (msg_block m)\<lparr>validatorSigs := []\<rparr> \<and> mq s1' = mq s1 @ [m'] \<and> mq s2' = mq s2 @ [m']) \<and> txq s1' = txq s1 \<and> txq s2' = txq s2"
proof -
  obtain p where p: "toProtoMessage m = Inr p" "Message_of_proto p = Inr (m\<lparr>msg_block := (msg_block m)\<lparr>validatorSigs := []\<rparr>, msg_empty := False\<rparr>)"
    using toProtoMessage_round_trip [OF assms(4,5)] by blast
  let ?m = "m\<lparr>msg_block := (msg_block m)\<lparr>validatorSigs := []\<rparr>, msg_empty := False\<rparr>"
  obtain s1' where s1: "serve_talk p s1 = Inr s1'" "server_ok s1'" "mq s1' = mq s1 @ [?m]" "txq s1' = txq s1" using serve_talk_queued [OF assms(2) p(2)] by blast
  obtain s2' where s2: "serve_talk p s2 = Inr s2'" "server_ok s2'" "mq s2' = mq s2 @ [?m]" "txq s2' = txq s2" using serve_talk_queued [OF assms(3) p(2)] by blast
  let ?a = "to_address ''127.0.0.1'' 50000" let ?b = "to_address ''127.0.0.1'' 50001"
  note ab = comms_addresses(2)
  let ?c1 = "c\<lparr>message_queues := (message_queues c)(?a \<mapsto> [m], ?b \<mapsto> [m])\<rparr>"
  let ?c2 = "c\<lparr>message_queues := (message_queues c)(?a \<mapsto> [m], ?b \<mapsto> [m], ?a \<mapsto> [], ?b \<mapsto> []), cl_sent := cl_sent c @ [(?a, p), (?b, p)]\<rparr>"
  have c: "cl_servers c = [?a, ?b]" "message_queues c ?a = Some []" "message_queues c ?b = Some []" using assms(1) by (simp_all add: two_servers_def)
  have "Broadcast m c = Inr ?c1" using ab by (simp add: Broadcast_def push_queue_def c)
  moreover have "rfold RunThread_turn [?a, ?b] ?c1 = Inr ?c2" using ab by (simp add: RunThread_turn_def p(1))
  moreover have "rfold (deliver_talk [?a, ?b]) [(?a, p), (?b, p)] [s1, s2] = Inr [s1', s2']" using s1(1) s2(1) ab by (simp add: deliver_talk_def)
  ultimately have "broadcast_all m c [s1, s2] = Inr (?c2, [s1', s2'])" by (simp add: broadcast_all_def c(1))
  moreover have "two_servers ?c2" using ab by (simp add: two_servers_def c(1))
  ultimately show ?thesis using s1(2-4) s2(2-4)
    by (intro exI [of _ ?c2] exI [of _ s1'] exI [of _ s2'] conjI exI [of _ ?m]) simp_all
qed

lemma Block_eq_sent: "validatorSigs b = [] \<Longrightarrow> Block_eq b (b\<lparr>validatorSigs := []\<rparr>)"
  by (simp add: Block_eq_def any_differs_iff transaction_eq_refl)

lemma broadcast_test_ok:
  assumes "two_servers c" and "quiet s1" "quiet s2" and "sendable b" "validatorSigs b = []"
  shows "\<exists>c' s1' s2'. broadcast_test b c [s1, s2] = Inr (c', [s1', s2']) \<and> two_servers c' \<and> quiet s1' \<and> quiet s2'"
proof -
  let ?m = "new_Message ECHO b 1002 1"
  have s: "server_ok s1" "server_ok s2" "msg_type ?m = Some ECHO" "sendable (msg_block ?m)" using assms by (simp_all add: quiet_def new_Message_def)
  obtain c' s1' s2' m' where r: "broadcast_all ?m c [s1, s2] = Inr (c', [s1', s2'])" "two_servers c'" "server_ok s1'" "server_ok s2'"
    "msg_block m' = b\<lparr>validatorSigs := []\<rparr>" "mq s1' = [m']" "mq s2' = [m']" "txq s1' = []" "txq s2' = []"
    using broadcast_all_delivered [OF assms(1) s] assms(2,3) by (auto simp: quiet_def new_Message_def)
  have "receive_block b s = Inr (s\<lparr>mq := []\<rparr>)" if "mq s = [m']" for s
    using that r(5) Block_eq_sent [OF assms(5)] by (simp add: receive_block_def newConsensusMessages_def getMessages_eq)
  then have "broadcast_test b c [s1, s2] = Inr (c', [s1'\<lparr>mq := []\<rparr>, s2'\<lparr>mq := []\<rparr>])" using r(1,6,7) by (simp add: broadcast_test_def)
  then show ?thesis using r by (simp add: quiet_def)
qed

lemma transaction_test_ok:
  assumes "quiet s1" "quiet s2" and "key_writable (tx_public_key t)"
  shows "\<exists>s1' s2'. transaction_test t s1 s2 = Inr (s1', s2') \<and> quiet s1' \<and> quiet s2'"
proof -
  obtain p where p: "toProtoTransaction t chat_Transaction_empty = Inr p" "fromProtoTransaction new_Transaction p = Inr t"
    using transaction_proto_round_trip [OF assms(3), of new_Transaction] by (auto simp: new_Transaction_def)
  obtain s1' where s1: "serve_new_tx p s1 = Inr s1'" "server_ok s1'" "txq s1' = [t]" "mq s1' = []"
    using serve_new_tx_queued [OF _ p(2), of s1] assms(1) by (auto simp: quiet_def)
  have "transaction_test t s1 s2 = Inr (s1'\<lparr>txq := []\<rparr>, s2\<lparr>txq := []\<rparr>)"
    using assms(1,2) p(1) s1 by (simp add: transaction_test_def quiet_def newRequests_def Wallet_SendToLeader_def NewTx_request_def getTransactions_eq transaction_eq_refl)
  then show ?thesis using s1(2,4) assms(2) by (auto simp: quiet_def)
qed

lemma serve_syncs:
  "server_ok s \<Longrightarrow> \<exists>s'. rfold (\<lambda>w (got, s). rbind (serve_sync w s) (\<lambda>(r, s). Inr (got(w \<mapsto> snd (SendSyncRequest r [])), s))) ws (got, s)
     = Inr (\<lambda>w. if w \<in> set ws then Some (case utxolists s w of None \<Rightarrow> [] | Some l \<Rightarrow> l) else got w, s')
    \<and> server_ok s' \<and> mq s' = mq s \<and> txq s' = txq s"
proof (induction ws arbitrary: got s)
  case (Cons w ws)
  obtain s1 where s1: "serve_sync w s = Inr (toProtoUTXOlist (case utxolists s w of None \<Rightarrow> [] | Some l \<Rightarrow> l) [], s1)" "server_ok s1" "mq s1 = mq s" "txq s1 = txq s"
    "utxolists s1 = utxolists s" using serve_sync_replies [OF Cons.prems] by blast
  let ?g = "got(w \<mapsto> (case utxolists s w of None \<Rightarrow> [] | Some l \<Rightarrow> l))"
  obtain s2 where s2: "rfold (\<lambda>w (got, s). rbind (serve_sync w s) (\<lambda>(r, s). Inr (got(w \<mapsto> snd (SendSyncRequest r [])), s))) ws (?g, s1)
      = Inr (\<lambda>w. if w \<in> set ws then Some (case utxolists s1 w of None \<Rightarrow> [] | Some l \<Rightarrow> l) else ?g w, s2)" "server_ok s2" "mq s2 = mq s1" "txq s2 = txq s1"
    using Cons.IH [OF s1(2), of ?g] by blast
  have "(\<lambda>w'. if w' \<in> set ws then Some (case utxolists s1 w' of None \<Rightarrow> [] | Some l \<Rightarrow> l) else ?g w')
      = (\<lambda>w'. if w' \<in> set (w # ws) then Some (case utxolists s w' of None \<Rightarrow> [] | Some l \<Rightarrow> l) else got w')" using s1(5) by (auto simp: fun_eq_iff)
  moreover have "snd (SendSyncRequest (toProtoUTXOlist l []) []) = l" for l by (simp add: SendSyncRequest_def Sync_result_def utxolist_proto_round_trip)
  ultimately show ?case using s1 s2 by (intro exI [of _ s2]) (simp del: fun_upd_apply)
qed simp

lemma sync_test_ok:
  assumes "quiet s" and "mset order = mset [1, 2, 3]"
  shows "\<exists>s'. sync_test order s = Inr s' \<and> quiet s'"
proof -
  let ?s = "setUTXOlists [1 \<mapsto> comms_utxolist, 2 \<mapsto> comms_utxolist] s"
  have "set order = {1, 2, 3}" using assms(2) mset_eq_setD by fastforce
  moreover have "server_ok ?s" "mq ?s = []" "txq ?s = []" "utxolists ?s = [1 \<mapsto> comms_utxolist, 2 \<mapsto> comms_utxolist]" using assms(1) by (simp_all add: quiet_def setUTXOlists_def)
  ultimately show ?thesis using serve_syncs [of ?s order Map.empty] by (auto simp: sync_test_def Let_def quiet_def)
qed

lemma comms_block_ok:
  assumes "\<And>n. open_ok env n" and "\<And>n. read_byte env n \<noteq> None"
  shows "\<exists>t b. comms_block env sid = Inr (t, b) \<and> key_writable (tx_public_key t) \<and> sendable b \<and> validatorSigs b = []"
proof -
  obtain kp where k: "KeyGen env 0 new_signature = (kp, Inr 1)" and s: "\<And>tx. \<exists>tx'. sign_transaction kp tx = Inr tx' \<and> key_writable (tx_public_key tx')"
    using signed_transaction [OF assms] by metis
  obtain kp1 where k1: "KeyGen env (2 * KEY_LEN) new_signature = (kp1, Inr 1)" using KeyGen_total assms by blast
  obtain kp2 where k2: "KeyGen env (4 * KEY_LEN) new_signature = (kp2, Inr 1)" using KeyGen_total assms by blast
  have st: "key_storable (public_key kp2)" using KeyGen_key_pair(2) [OF k2] key_pair_public by blast
  obtain t1 where t1: "sign_transaction kp (test_transaction sid 3001 [Input 2001 10, Input 2002 2] [Output 6 1001, Output 20 1002]) = Inr t1" "key_writable (tx_public_key t1)"
    using s by blast
  obtain t2 where t2: "sign_transaction kp (test_transaction sid 3002 [Input 2003 7] [Output 10 1002]) = Inr t2" "key_writable (tx_public_key t2)" using s by blast
  let ?raw = "(new_Block 2 ''prevblock'')\<lparr>txs := [t1, t2]\<rparr>"
  let ?b = "?raw\<lparr>block_mutable := False, block_header := calculateMerkleRoot [t1, t2] (block_header ?raw)\<rparr>"
  have f: "rfold addTransaction [t1, t2] (new_Block 2 ''prevblock'') = Inr ?raw" "finalize ?raw = Inr ?b"
    by (simp_all add: addTransaction_def new_Block_def finalize_def)
  obtain b where sb: "Block_sign (private_key kp1) 26 (public_key kp2) ?b = (b, Inr ())"
    using Block_sign_verifies [OF _ KeyGen_key_pair(2) [OF k1], of ?b "public_key kp2" 26] st key_storable_writable by auto
  then have "txs b = [t1, t2]" "\<not> block_mutable b" "\<not> block_empty b" "validatorSigs b = []" "validator_next_public_key b = public_key kp2"
    by (auto simp: Block_sign_def Let_def new_Block_def split: if_splits sum.splits)
  then have "sendable b" "validatorSigs b = []" using t1(2) t2(2) st by (simp_all add: sendable_def)
  moreover have "comms_block env sid = Inr (t1, b)"
    unfolding comms_block_def Let_def using sb by (simp add: k k1 k2 t1(1) t2(1) f del: rfold.simps)
  ultimately show ?thesis using t1(2) by blast
qed

section \<open>The property of the program\<close>



end
