(* ===== verification/Payments.thy ===== *)
theory Payments
  imports Genesis
begin

text \<open>
  A payment on its way from a wallet to the memory pool of the leader, through the client, the server and the listening
  task. The lemmas are shared by the properties of payments.
\<close>

lemma wallet_key_writable:
  "CreateTx env filename content tx_id w = Inr (tx, tx_id', w') \<Longrightarrow> key_writable (tx_public_key tx)"
  using CreateTx_signed key_pair_public key_storable_writable by blast

lemma payment_sent:
  assumes "CreateTx env filename content tx_id (wallet_Sync reply w) = Inr (tx, tx_id', w')"
  shows "\<exists>p. SendTx env filename content reply tx_id w = Inr (1, p, tx_id', w') \<and> fromProtoTransaction new_Transaction p = Inr tx"
proof -
  obtain p where "toProtoTransaction tx chat_Transaction_empty = Inr p" "fromProtoTransaction new_Transaction p = Inr tx"
    using transaction_proto_round_trip [OF wallet_key_writable [OF assms], of new_Transaction] by (auto simp: new_Transaction_def)
  then show ?thesis using assms by (simp add: SendTx_def Wallet_SendToLeader_def NewTx_request_def)
qed

lemma request_queued:
  assumes "server_step\<^sup>*\<^sup>* (HandleRpcs_start new_Server) s" and "fromProtoTransaction new_Transaction p = Inr tx"
  shows "\<exists>tag s'. HandleRpcs_turn tag (NewTxRequest p) s = Inr s' \<and> txq s' = txq s @ [tx] \<and> replies s' = replies s @ [(tag, Ack)]
    \<and> server_step\<^sup>*\<^sup>* (HandleRpcs_start new_Server) s'"
proof -
  have "card (listening CallDataNewTx s) = 1" using server.reachable_inv [OF refl assms(1)] by (simp add: server_ok_def)
  then obtain tag where "tag \<in> listening CallDataNewTx s" by (metis card_1_singletonE singletonI)
  then obtain s' where s': "HandleRpcs_turn tag (NewTxRequest p) s = Inr s'" "txq s' = txq s @ [tx]" "replies s' = replies s @ [(tag, Ack)]"
    using assms(2) by (simp add: listening_def HandleRpcs_turn_def Proceed_NewTx_def finish_reply_def push_transaction_def
        new_call_def proceed_create_def)
  then show ?thesis using assms(1) server_step.turn [OF s'(1)] by (meson rtranclp.rtrancl_into_rtrancl)
qed

lemma listen_takes:
  assumes "txq s \<noteq> []"
  shows "\<exists>v'. Listen_task True (v, s) = Inr (v', s\<lparr>txq := []\<rparr>) \<and> memory_pool v' = memory_pool v @ filter (acceptable v) (txq s)
    \<and> (\<forall>w. coins_of v' w = coins_of v w) \<and> wallets_ids v' = wallets_ids v"
proof -
  obtain v' where v': "OnTxReply (txq s) v = Inr v'" "memory_pool v' = memory_pool v @ filter (acceptable v) (txq s)"
    using OnTxReply_pool [of "txq s" v] by blast
  have "Listen_task True (v, s) = Inr (v', s\<lparr>txq := []\<rparr>)" using v'(1) assms by (simp add: Listen_task_def getTransactions_eq)
  then show ?thesis using v' OnTxReply_keeps [OF v'(1)] by blast
qed

lemma payment_acceptable:
  assumes "CreateTx env filename content tx_id w = Inr (tx, tx_id', w')"
  shows "acceptable v tx \<longleftrightarrow> checkSpendingConditions tx (coins_of v (ucast (senderID tx))) (wallets_ids v)"
  using CreateTx_signed [OF assms] by (simp add: acceptable_def)

lemma payment_reaches_pool:
  assumes "CreateTx env filename content tx_id (wallet_Sync reply w) = Inr (tx, tx_id', w')"
    and "server_step\<^sup>*\<^sup>* (HandleRpcs_start new_Server) s"
    and "checkSpendingConditions tx (coins_of v (ucast (senderID tx))) (wallets_ids v)"
  shows "\<exists>tag p s' s'' v'. SendTx env filename content reply tx_id w = Inr (1, p, tx_id', w')
    \<and> HandleRpcs_turn tag (NewTxRequest p) s = Inr s' \<and> replies s' = replies s @ [(tag, Ack)]
    \<and> Listen_task True (v, s') = Inr (v', s'') \<and> txq s'' = []
    \<and> memory_pool v' = memory_pool v @ filter (acceptable v) (txq s) @ [tx]
    \<and> (\<forall>w. coins_of v' w = coins_of v w) \<and> wallets_ids v' = wallets_ids v"
proof -
  obtain p where p: "SendTx env filename content reply tx_id w = Inr (1, p, tx_id', w')" "fromProtoTransaction new_Transaction p = Inr tx"
    using payment_sent [OF assms(1)] by blast
  obtain tag s' where s': "HandleRpcs_turn tag (NewTxRequest p) s = Inr s'" "txq s' = txq s @ [tx]" "replies s' = replies s @ [(tag, Ack)]"
    using request_queued [OF assms(2) p(2)] by blast
  have "txq s' \<noteq> []" "acceptable v tx" using s'(2) payment_acceptable [OF assms(1)] assms(3) by simp_all
  moreover have "txq (s'\<lparr>txq := []\<rparr>) = []" by simp
  ultimately show ?thesis using listen_takes [of s' v] p(1) s' by fastforce
qed

end
