(* ===== verification/Demo_Files.thy ===== *)
theory Demo_Files
  imports Payments Comms_Test "HOL-Library.Code_Target_Nat"
begin

text \<open>
  The demo of \<^verbatim>\<open>src/demo.cc\<close> with the files the repository has for it: the settings of \<^verbatim>\<open>settings_demo.json\<close> and the payments of
  \<^verbatim>\<open>tx/tx1.json\<close> and \<^verbatim>\<open>tx/tx2.json\<close>, character by character. The texts are parsed by evaluating the parser.
\<close>

section \<open>The transaction stage\<close>

definition demo_payments :: "urandom \<Rightarrow> (string \<Rightarrow> string option) \<Rightarrow> chat_UTXO list \<Rightarrow> chat_UTXO list \<Rightarrow> u32 \<Rightarrow> Wallet list
    \<Rightarrow> (chat_Transaction list \<times> u32 \<times> Wallet list) res" where
  "demo_payments env content reply0 reply1 tx_id ws =
     rbind (element_at ws 0) (\<lambda>w0. rbind (SendTx env ''tx1.json'' (content ''tx1.json'') reply0 tx_id w0) (\<lambda>(_, p0, tx_id, w0).
     rbind (element_at (ws[0 := w0]) 1) (\<lambda>w1. rbind (SendTx env ''tx2.json'' (content ''tx2.json'') reply1 tx_id w1) (\<lambda>(_, p1, tx_id, w1).
       Inr ([p0, p1], tx_id, ws[0 := w0, 1 := w1])))))"

text \<open>
  The verifying stage: what is printed of the coins of wallet 0 before and after it synchronises with the leader, then the same for
  wallet 1.
\<close>

definition verify_wallet :: "nat \<Rightarrow> Wallet list \<times> Server \<Rightarrow> (UTXOlist list \<times> Wallet list \<times> Server) res" where
  "verify_wallet i = (\<lambda>(ws, srv). rbind (element_at ws i) (\<lambda>w. rbind (serve_sync (wallet_id w) srv) (\<lambda>(reply, srv).
     let w' = wallet_Sync reply w in Inr ([local_utxo w, local_utxo w'], ws[i := w'], srv))))"

definition demo_verify :: "Wallet list \<Rightarrow> Server \<Rightarrow> (UTXOlist list \<times> Wallet list \<times> Server) res" where
  "demo_verify ws srv = rbind (verify_wallet 0 (ws, srv)) (\<lambda>(out0, ws, srv). rbind (verify_wallet 1 (ws, srv)) (\<lambda>(out1, ws, srv).
     Inr (out0 @ out1, ws, srv)))"

section \<open>The files\<close>

definition file_lines :: "string list \<Rightarrow> string" where
  "file_lines ls = concat (map (\<lambda>l. l @ [CHR 0x0A]) ls)"

definition settings_demo_file :: string where
  "settings_demo_file = file_lines [
     ''{   '',
     ''    \"leaderID\": 0,'',
     ''    \"myValidatorID\": 2,'',
     ''    \"myWalletID\": -1,'',
     ''    \"validators\": ['',
     ''        {'',
     ''            \"id\": 0,'',
     ''            \"address\": \"127.0.0.1\",'',
     ''            \"port\": 50000,'',
     ''            \"faulty\": false'',
     ''        },'',
     ''        {'',
     ''            \"id\": 1,'',
     ''            \"address\": \"127.0.0.1\",'',
     ''            \"port\": 50001,'',
     ''            \"faulty\": true'',
     ''        },'',
     ''        {'',
     ''            \"id\": 2,'',
     ''            \"address\": \"127.0.0.1\",'',
     ''            \"port\": 50002,'',
     ''            \"faulty\": false'',
     ''        },'',
     ''        {'',
     ''            \"id\": 3,'',
     ''            \"address\": \"127.0.0.1\",'',
     ''            \"port\": 50003,'',
     ''            \"faulty\": false'',
     ''        }'',
     ''    ],'',
     ''    \"wallets\": [0, 1, 2, 3]'',
     ''}s'']"

definition tx1_file :: string where
  "tx1_file = file_lines [
     ''{'',
     ''    \"walletID\": 0,'',
     ''    \"ins\": ['',
     ''        {'',
     ''            \"txID\": 0,'',
     ''            \"outIDX\": 0'',
     ''        }'',
     ''    ],'',
     ''    \"outs\": ['',
     ''        {'',
     ''            \"value\": 10,'',
     ''            \"outwalletID\": 2'',
     ''        },'',
     ''        {'',
     ''            \"value\": 20,'',
     ''            \"outwalletID\": 1'',
     ''        },'',
     ''        {'',
     ''            \"value\": 70,'',
     ''            \"outwalletID\": 0'',
     ''        }'',
     ''    ]'',
     ''}'']"

definition tx2_file :: string where
  "tx2_file = file_lines [
     ''{'',
     ''    \"walletID\": 1,'',
     ''    \"ins\": ['',
     ''        {'',
     ''            \"txID\": 1,'',
     ''            \"outIDX\": 1'',
     ''        }'',
     ''    ],'',
     ''    \"outs\": ['',
     ''        {'',
     ''            \"value\": 25,'',
     ''            \"outwalletID\": 3'',
     ''        },'',
     ''        {'',
     ''            \"value\": 5,'',
     ''            \"outwalletID\": 2'',
     ''        },'',
     ''        {'',
     ''            \"value\": 70,'',
     ''            \"outwalletID\": 0'',
     ''        }'',
     ''    ]'',
     ''}'']"

definition demo_file_settings :: Settings where
  "demo_file_settings = \<lparr>leader_id = 0,
     validators = map (\<lambda>i. (i, \<lparr>ai_id = i, ai_address = ''127.0.0.1'', ai_port = 50000 + i, ai_faulty = (i = 1)\<rparr>)) [0, 1, 2, 3],
     wallets = [0, 1, 2, 3], my_validator_id = 2, my_wallet_id = - 1\<rparr>"

lemma settings_demo_read: "Settings_of_file ''../../settings_demo.json'' (Some settings_demo_file) = Inr demo_file_settings"
  by code_simp

definition payment_info :: "string \<Rightarrow> string \<Rightarrow> TransInfo res" where
  "payment_info filename file = rbind (Parser_read filename (Some file)) (\<lambda>j. TransInfo_from_json j new_TransInfo)"

lemma tx1_read: "payment_info ''tx1.json'' tx1_file =
    Inr \<lparr>walletid = 0, out_value_list = [10, 20, 70], out_walletID_list = [2, 1, 0], in_outIDX_list = [0], in_txID_list = [0]\<rparr>"
  by code_simp

lemma tx2_read: "payment_info ''tx2.json'' tx2_file =
    Inr \<lparr>walletid = 1, out_value_list = [25, 5, 70], out_walletID_list = [3, 2, 0], in_outIDX_list = [1], in_txID_list = [1]\<rparr>"
  by code_simp

section \<open>The payments of the files\<close>

lemma file_payment:
  assumes "payment_info filename file = Inr t" and "\<And>n. open_ok env n" and "\<And>n. read_byte env n \<noteq> None"
  shows "\<exists>p tx w'. SendTx env filename (Some file) reply tx_id w = Inr (1, p, tx_id + 1, w') \<and> fromProtoTransaction new_Transaction p = Inr tx
    \<and> inputs tx = map2 Input (in_txID_list t) (in_outIDX_list t) \<and> outputs tx = map2 Output (out_value_list t) (out_walletID_list t)
    \<and> senderID tx = ucast (wallet_id w) \<and> wallet_id w' = wallet_id w \<and> key_writable (tx_public_key tx)
    \<and> (\<forall>v. acceptable v tx \<longleftrightarrow> checkSpendingConditions tx (coins_of v (ucast (senderID tx))) (wallets_ids v))"
proof -
  obtain j where j: "Parser_read filename (Some file) = Inr j" "TransInfo_from_json j new_TransInfo = Inr t"
    using assms(1) by (auto simp: payment_info_def)
  obtain tx w' where c: "CreateTx env filename (Some file) tx_id (wallet_Sync reply w) = Inr (tx, tx_id + 1, w')"
    "inputs tx = map2 Input (in_txID_list t) (in_outIDX_list t)" "outputs tx = map2 Output (out_value_list t) (out_walletID_list t)"
    "senderID tx = ucast (wallet_id w)"
    using CreateTx_total [OF j assms(2,3), of tx_id "wallet_Sync reply w"] by (auto simp: wallet_Sync_def)
  moreover have "wallet_id w' = wallet_id w" using c(1) UpdateKeys_Inr by (fastforce simp: CreateTx_def wallet_Sync_def Let_def)
  ultimately show ?thesis using payment_sent [OF c(1)] wallet_key_writable [OF c(1)] payment_acceptable [OF c(1)] by blast
qed

lemma demo_wallets:
  assumes "demo_setup rts env settings d = Inr (ws, ps)"
  shows "length ws = length (wallets settings) \<and> (\<forall>i < length ws. wallet_id (ws ! i) = wallets settings ! i)"
proof -
  have r: "rmap (new_Wallet env) (wallets settings) = Inr ws" using assms by (auto simp: demo_setup_def split: if_splits)
  have "wallet_id w = i" if "new_Wallet env i = Inr w" for i w using that UpdateKeys_Inr by (fastforce simp: new_Wallet_def)
  then show ?thesis using rmap_list_all2 [OF r] by (auto simp: list_all2_conv_all_nth)
qed

lemma demo_file_facts:
  "map fst (validators demo_file_settings) = [0, 1, 2, 3]" "wallets demo_file_settings = [0, 1, 2, 3]"
  "unat (getNumberOfFaultyValidators demo_file_settings) \<le> 1"
  by (simp_all add: demo_file_settings_def getNumberOfFaultyValidators_def)

text \<open>What a validator's coins become when it stores a block with the first payment alone.\<close>

lemma demo_block_stored:
  assumes "genesis_ok v (genesis_coins 100 [0, 1, 2, 3])" and "txs b = [t1]" "inputs t1 = [Input 0 0]" "senderID t1 = 0" "outputs t1 \<noteq> []"
  shows "\<exists>v'. DBProcess_task (v\<lparr>blist := [b]\<rparr>, srv) = Inr (v', setUTXOlists (utxo_sets v') srv) \<and> map (coins_of v') [0, 1, 2, 3] = [[], [UTXO 1 0 (Output 100 1)], [UTXO 2 0 (Output 100 2)], [UTXO 3 0 (Output 100 3)]]"
proof -
  have c: "coins_of v 0 = [UTXO 0 0 (Output 100 0)]" "coins_of v 1 = [UTXO 1 0 (Output 100 1)]"
    "coins_of v 2 = [UTXO 2 0 (Output 100 2)]" "coins_of v 3 = [UTXO 3 0 (Output 100 3)]"
    using assms(1) by (simp_all add: genesis_ok_def genesis_coins_def first_coin_def upt_rec)
  let ?v = "touch_coins 0 (v\<lparr>blist := [b]\<rparr>)"
  have k: "coins_of (v\<lparr>blist := [b]\<rparr>) w = coins_of v w" for w by (simp add: coins_of_def)
  have "OnAgreeBlk b (v\<lparr>blist := [b]\<rparr>) = Inr (?v\<lparr>utxo_sets := (utxo_sets ?v)(0 \<mapsto> [])\<rparr>)"
    using assms(2-5) by (simp add: OnAgreeBlk_def agree_tx_def Let_def k c utxolist_index_def utxo_matches_def utxolist_erase_def)
  then have "DBProcess_task (v\<lparr>blist := [b]\<rparr>, srv) = Inr (?v\<lparr>utxo_sets := (utxo_sets ?v)(0 \<mapsto> []), blist := []\<rparr>, setUTXOlists ((utxo_sets ?v)(0 \<mapsto> [])) srv)"
    by (simp add: DBProcess_task_def OnSyncReply_def)
  moreover have "coins_of (?v\<lparr>utxo_sets := (utxo_sets ?v)(0 \<mapsto> []), blist := []\<rparr>) w = (if w = 0 then [] else coins_of v w)" for w
    by (simp add: coins_of_def touch_coins_def)
  ultimately show ?thesis by (intro exI [of _ "?v\<lparr>utxo_sets := (utxo_sets ?v)(0 \<mapsto> []), blist := []\<rparr>"]) (simp add: c)
qed

lemma only_transaction:
  assumes "set ts = {t}" and "inputs_disjoint ts" and "inputs t \<noteq> []"
  shows "ts = [t]"
proof -
  have "length ts \<noteq> Suc (Suc n)" for n
  proof
    assume n: "length ts = Suc (Suc n)"
    then have "ts ! 0 = t" "ts ! 1 = t" using assms(1) nth_mem [of 0 ts] nth_mem [of 1 ts] by auto
    then show False using assms(2,3) n by (force simp: inputs_disjoint_def)
  qed
  then show ?thesis using assms(1) by (cases ts; cases "tl ts") auto
qed

text \<open>What the leader's coins say about the two payments.\<close>

lemma demo_file_conditions:
  assumes "genesis_ok v (genesis_coins 100 [0, 1, 2, 3])" and "wallets_ids v = [0, 1, 2, 3]"
    and "inputs t1 = [Input 0 0]" "outputs t1 = [Output 10 2, Output 20 1, Output 70 0]" "senderID t1 = 0"
    and "inputs t2 = [Input 1 1]" "senderID t2 = 1"
  shows "checkSpendingConditions t1 (coins_of v (ucast (senderID t1))) (wallets_ids v)"
    and "\<not> checkSpendingConditions t2 (coins_of v (ucast (senderID t2))) (wallets_ids v)"
proof -
  have "coins_of v 0 = [UTXO 0 0 (Output 100 0)]" "coins_of v 1 = [UTXO 1 0 (Output 100 1)]"
    using assms(1) by (simp_all add: genesis_ok_def genesis_coins_def first_coin_def upt_rec)
  then show "checkSpendingConditions t1 (coins_of v (ucast (senderID t1))) (wallets_ids v)"
    and "\<not> checkSpendingConditions t2 (coins_of v (ucast (senderID t2))) (wallets_ids v)"
    using assms by (simp_all add: checkSpendingConditions_iff total_spent_def total_paid_def spent_value_def utxo_matches_def)
qed

text \<open>What is known of the first payment.\<close>

definition first_payment :: "Transaction \<Rightarrow> bool" where
  "first_payment tx \<longleftrightarrow> inputs tx = [Input 0 0] \<and> outputs tx = [Output 10 2, Output 20 1, Output 70 0] \<and> senderID tx = 0 \<and> key_writable (tx_public_key tx)"

lemma demo_files_pooled:
  assumes d: "demo_setup rts env demo_file_settings d = Inr (ws, ps)" and "\<And>n. open_ok env n" and "\<And>n. read_byte env n \<noteq> None"
    and "content ''tx1.json'' = Some tx1_file" and "content ''tx2.json'' = Some tx2_file"
  shows "\<exists>p0 p1 ws' tag0 tag1 s0 s1 v s2 tx. demo_payments env content reply0 reply1 tx_id ws = Inr ([p0, p1], tx_id + 2, ws')
    \<and> map wallet_id ws' = [0, 1, 2, 3]
    \<and> HandleRpcs_turn tag0 (NewTxRequest p0) (val_server (ps ! 0)) = Inr s0 \<and> HandleRpcs_turn tag1 (NewTxRequest p1) s0 = Inr s1
    \<and> Listen_task True (val_state (ps ! 0), s1) = Inr (v, s2) \<and> memory_pool v = [tx] \<and> first_payment tx
    \<and> genesis_ok v (genesis_coins 100 [0, 1, 2, 3]) \<and> wallets_ids v = [0, 1, 2, 3]
    \<and> checkSpendingConditions tx (coins_of v (ucast (senderID tx))) (wallets_ids v)"
proof -
  let ?S = demo_file_settings
  note f = demo_file_facts
  have w: "length (wallets ?S) < 2 ^ 32" by (simp add: f(2))
  let ?v = "val_state (ps ! 0)"
  note parts = demo_setup_parts [OF d f(1) w, of 0]
  have v: "genesis_ok ?v (genesis_coins 100 [0, 1, 2, 3])" "wallets_ids ?v = [0, 1, 2, 3]" "memory_pool ?v = []" using parts(3,4) f(2) by simp_all
  have ws: "length ws = 4" "map wallet_id ws = [0, 1, 2, 3]" using demo_wallets [OF d] f(2) by (auto simp: list_eq_iff_nth_eq)
  then have id: "wallet_id (ws ! 0) = 0" "wallet_id (ws ! 1) = 1" by (metis length_map nth_map nth_Cons_0 nth_Cons_Suc One_nat_def zero_less_numeral one_less_numeral_iff semiring_norm(76))+
  obtain p0 t0 w0 where p0: "SendTx env ''tx1.json'' (Some tx1_file) reply0 tx_id (ws ! 0) = Inr (1, p0, tx_id + 1, w0)" "fromProtoTransaction new_Transaction p0 = Inr t0" "wallet_id w0 = 0"
    and t0: "inputs t0 = [Input 0 0]" "outputs t0 = [Output 10 2, Output 20 1, Output 70 0]" "senderID t0 = 0" "key_writable (tx_public_key t0)"
      "\<forall>v. acceptable v t0 \<longleftrightarrow> checkSpendingConditions t0 (coins_of v (ucast (senderID t0))) (wallets_ids v)"
    using file_payment [OF tx1_read assms(2,3), of reply0 tx_id "ws ! 0"] id(1) by auto
  obtain p1 t1 w1 where p1: "SendTx env ''tx2.json'' (Some tx2_file) reply1 (tx_id + 1) (ws ! 1) = Inr (1, p1, tx_id + 2, w1)" "fromProtoTransaction new_Transaction p1 = Inr t1" "wallet_id w1 = 1"
    and t1: "inputs t1 = [Input 1 1]" "senderID t1 = 1"
      "\<forall>v. acceptable v t1 \<longleftrightarrow> checkSpendingConditions t1 (coins_of v (ucast (senderID t1))) (wallets_ids v)"
    using file_payment [OF tx2_read assms(2,3), of reply1 "tx_id + 1" "ws ! 1"] id(2) by (auto simp: add.assoc)
  have sent: "demo_payments env content reply0 reply1 tx_id ws = Inr ([p0, p1], tx_id + 2, ws[0 := w0, 1 := w1])"
    using p0(1) p1(1) ws(1) assms(4,5) by (simp add: demo_payments_def element_at_def)
  have "map wallet_id (ws[0 := w0, 1 := w1]) = [0, 1, 2, 3]" using ws(2) p0(3) p1(3) by (simp add: map_update)
  note sent = sent this
  obtain m where m: "val_server (ps ! 0) = setUTXOlists m (HandleRpcs_start new_Server)" using parts(5) by auto
  have r: "server_step\<^sup>*\<^sup>* (HandleRpcs_start new_Server) (val_server (ps ! 0))" "txq (val_server (ps ! 0)) = []"
    unfolding m by (rule r_into_rtranclp, rule server_step.set_lists)
      (simp add: setUTXOlists_def HandleRpcs_start_def new_call_def proceed_create_def new_Server_def)
  obtain tag0 s0 where s0: "HandleRpcs_turn tag0 (NewTxRequest p0) (val_server (ps ! 0)) = Inr s0" "txq s0 = [t0]" "server_step\<^sup>*\<^sup>* (HandleRpcs_start new_Server) s0"
    using request_queued [OF r(1) p0(2)] r(2) by auto
  obtain tag1 s1 where s1: "HandleRpcs_turn tag1 (NewTxRequest p1) s0 = Inr s1" "txq s1 = [t0, t1]"
    using request_queued [OF s0(3) p1(2)] s0(2) by auto
  note c = demo_file_conditions [OF v(1,2) t0(1-3) t1(1,2)]
  obtain v1 s2 where l: "Listen_task True (?v, s1) = Inr (v1, s2)" "memory_pool v1 = [t0]" "\<forall>w. coins_of v1 w = coins_of ?v w" "wallets_ids v1 = wallets ?S"
    using listen_takes [of s1 ?v] s1(2) c t0(5) t1(3) v(2,3) f(2) by auto
  have "genesis_ok v1 (genesis_coins 100 [0, 1, 2, 3])" using v(1,2) l(3,4) f(2) by (simp add: genesis_ok_def)
  moreover have "checkSpendingConditions t0 (coins_of v1 (ucast (senderID t0))) (wallets_ids v1)" using c(1) l(3,4) v(2) f(2) by simp
  moreover have "first_payment t0" using t0 by (simp add: first_payment_def)
  ultimately show ?thesis using sent s0(1) s1(1) l(1,2,4) f(2) by metis
qed

lemma synchronised:
  assumes "server_ok s" and "i < length ws"
  shows "\<exists>w s'. verify_wallet i (ws, s) = Inr ([local_utxo (ws ! i), case utxolists s (wallet_id (ws ! i)) of None \<Rightarrow> [] | Some l \<Rightarrow> l], ws[i := w], s')
    \<and> wallet_id w = wallet_id (ws ! i) \<and> server_ok s' \<and> utxolists s' = utxolists s"
proof -
  let ?l = "case utxolists s (wallet_id (ws ! i)) of None \<Rightarrow> [] | Some l \<Rightarrow> l"
  obtain s' where s': "serve_sync (wallet_id (ws ! i)) s = Inr (toProtoUTXOlist ?l [], s')" "server_ok s'" "utxolists s' = utxolists s"
    using serve_sync_replies [OF assms(1)] by blast
  have "local_utxo (wallet_Sync (toProtoUTXOlist ?l []) w) = ?l" for w
    by (simp add: wallet_Sync_def SendSyncRequest_def Sync_result_def utxolist_proto_round_trip)
  then show ?thesis using s' assms(2)
    by (intro exI [of _ "wallet_Sync (toProtoUTXOlist ?l []) (ws ! i)"] exI [of _ s']) (simp add: verify_wallet_def element_at_def wallet_Sync_def Let_def)
qed

text \<open>What the two wallets print once the leader has stored the block.\<close>

lemma demo_verified:
  assumes "server_ok srv" and "map wallet_id ws = [0, 1, 2, 3]"
  shows "\<exists>old0 old1 ws' srv'. demo_verify ws (setUTXOlists (utxo_sets v) srv) = Inr ([old0, coins_of v 0, old1, coins_of v 1], ws', srv')"
proof -
  let ?s = "setUTXOlists (utxo_sets v) srv"
  have w: "length ws = 4" "wallet_id (ws ! 0) = 0" "wallet_id (ws ! 1) = 1" using arg_cong [OF assms(2), of length] arg_cong [OF assms(2), of "\<lambda>l. l ! 0"] 
    arg_cong [OF assms(2), of "\<lambda>l. l ! 1"] by simp_all
  have s: "server_ok ?s" "utxolists ?s = utxo_sets v" using assms(1) by (simp_all add: setUTXOlists_def)
  obtain w0 s0 where 0: "verify_wallet 0 (ws, ?s) = Inr ([local_utxo (ws ! 0), coins_of v 0], ws[0 := w0], s0)" "server_ok s0" "utxolists s0 = utxo_sets v"
    using synchronised [OF s(1), of 0 ws] w s(2) by (auto simp: coins_of_def)
  obtain w1 s1 where "verify_wallet 1 (ws[0 := w0], s0) = Inr ([local_utxo (ws ! 1), coins_of v 1], ws[0 := w0, 1 := w1], s1)"
    using synchronised [OF 0(2), of 1 "ws[0 := w0]"] w 0(3) by (auto simp: coins_of_def)
  then show ?thesis using 0(1) by (simp add: demo_verify_def)
qed

lemma demo_files_delivered:
  assumes d: "demo_setup rts env demo_file_settings d = Inr (ws, ps)" and "\<And>i. runtime_ok (rts i)" and "shuffles arrival"
    and "memory_pool v = [tx]" and tx: "first_payment tx" and "genesis_ok v (genesis_coins 100 [0, 1, 2, 3])" and "wallets_ids v = [0, 1, 2, 3]"
    and "checkSpendingConditions tx (coins_of v (ucast (senderID tx))) (wallets_ids v)" and srv: "server_ok srv" and ws: "map wallet_id ws' = [0, 1, 2, 3]"
  shows "\<exists>v' ld nodes'. ProposeProcess_task (rts 0) (v, val_node (ps ! 0)) = Inr (v', ld)
    \<and> network_run rts arrival 3 (outbox ld) ((map val_node ps)[0 := ld]) = Inr (nodes', [])
    \<and> (\<forall>i < 4. \<exists>b v''. isConsensus (nodes' ! i) \<and> fst (getConsensusBlocks True (nodes' ! i)) = [b] \<and> txs b = [tx]
         \<and> DBProcess_task ((if i = 0 then v' else val_state (ps ! i))\<lparr>blist := [b]\<rparr>, srv) = Inr (v'', setUTXOlists (utxo_sets v'') srv)
         \<and> map (coins_of v'') [0, 1, 2, 3] = [[], [UTXO 1 0 (Output 100 1)], [UTXO 2 0 (Output 100 2)], [UTXO 3 0 (Output 100 3)]]
         \<and> (\<exists>old0 old1 ws'' srv'. demo_verify ws' (setUTXOlists (utxo_sets v'') srv) = Inr ([old0, [], old1, [UTXO 1 0 (Output 100 1)]], ws'', srv')))"
proof -
  let ?S = demo_file_settings
  note f = demo_file_facts
  have w: "length (wallets ?S) < 2 ^ 31" "length (wallets ?S) < 2 ^ 32" by (simp_all add: f(2))
  have g: "genesis_ok v (genesis_coins 100 (wallets ?S))" "wallets_ids v = wallets ?S" using assms(6,7) f(2) by simp_all
  have k: "memory_pool v \<noteq> []" "\<forall>t \<in> set (memory_pool v). distinct (inputs t) \<and> key_writable (tx_public_key t)"
    using assms(4) tx by (simp_all add: first_payment_def)
  obtain v' ld b nodes' where a: "ProposeProcess_task (rts 0) (v, val_node (ps ! 0)) = Inr (v', ld)" "set (txs b) \<subseteq> set (memory_pool v)"
    "\<forall>t \<in> set (memory_pool v). checkSpendingConditions t (coins_of v (ucast (senderID t))) (wallets ?S)
      \<longrightarrow> t \<in> set (txs b) \<or> (\<exists>u \<in> set (txs b). set (inputs u) \<inter> set (inputs t) \<noteq> {})"
    "network_run rts arrival 3 (outbox ld) ((map val_node ps)[0 := ld]) = Inr (nodes', [])"
    "\<forall>i < 4. accepted_blocks (nodes' ! i) = [block_hash b] \<and> isConsensus (nodes' ! i) \<and> same_block b (getReceivedBlock (block_hash b) (nodes' ! i))"
    "\<forall>w. coins_of v' w = coins_of v w" "inputs_disjoint (txs b)" "wallets_ids v' = wallets_ids v"
    using pool_delivered [OF d f(1,3) w(1) assms(2,3) k g] by blast
  have "tx \<in> set (txs b)" using a(2,3) assms(4,8) g(2) by auto
  then have b: "txs b = [tx]" using a(2,7) assms(4) tx by (intro only_transaction) (auto simp: first_payment_def)
  have stored: "\<exists>b v''. isConsensus (nodes' ! i) \<and> fst (getConsensusBlocks True (nodes' ! i)) = [b] \<and> txs b = [tx]
      \<and> DBProcess_task ((if i = 0 then v' else val_state (ps ! i))\<lparr>blist := [b]\<rparr>, srv) = Inr (v'', setUTXOlists (utxo_sets v'') srv)
      \<and> map (coins_of v'') [0, 1, 2, 3] = [[], [UTXO 1 0 (Output 100 1)], [UTXO 2 0 (Output 100 2)], [UTXO 3 0 (Output 100 3)]]
      \<and> (\<exists>old0 old1 ws'' srv'. demo_verify ws' (setUTXOlists (utxo_sets v'') srv) = Inr ([old0, [], old1, [UTXO 1 0 (Output 100 1)]], ws'', srv'))" if i: "i < 4" for i
  proof -
    let ?b = "getReceivedBlock (block_hash b) (nodes' ! i)"
    have "txs ?b = [tx]" "fst (getConsensusBlocks True (nodes' ! i)) = [?b]" "isConsensus (nodes' ! i)"
      using a(5) i b by (simp_all add: same_block_def getConsensusBlocks_def Let_def)
    moreover have "genesis_ok v' (genesis_coins 100 [0, 1, 2, 3])" using assms(6) a(6,8) by (simp add: genesis_ok_def)
    then have "genesis_ok (if i = 0 then v' else val_state (ps ! i)) (genesis_coins 100 [0, 1, 2, 3])"
      using demo_setup_parts(3) [OF d f(1) w(2) i] f(2) by simp
    then obtain v'' where "DBProcess_task ((if i = 0 then v' else val_state (ps ! i))\<lparr>blist := [?b]\<rparr>, srv) = Inr (v'', setUTXOlists (utxo_sets v'') srv)"
      "map (coins_of v'') [0, 1, 2, 3] = [[], [UTXO 1 0 (Output 100 1)], [UTXO 2 0 (Output 100 2)], [UTXO 3 0 (Output 100 3)]]"
      using demo_block_stored [of _ ?b tx srv] calculation tx by (auto simp: first_payment_def)
    moreover from this have "\<exists>old0 old1 ws'' srv'. demo_verify ws' (setUTXOlists (utxo_sets v'') srv) = Inr ([old0, [], old1, [UTXO 1 0 (Output 100 1)]], ws'', srv')"
      using demo_verified [OF srv ws, of v''] by simp
    ultimately show ?thesis by (intro exI [of _ ?b] exI [of _ v''] conjI)
  qed
  show ?thesis using a(1,4) stored by blast
qed

section \<open>Properties of the demo with its files\<close>



end
