(* ===== verification/Wallet_Interactive.thy ===== *)
theory Wallet_Interactive
  imports Validator Wallet
begin

text \<open>
  The program \<^verbatim>\<open>src/wallet_interactive.cc\<close>: a wallet driven from the console. It shows the balance, builds a
  payment from the coins the leader reports, signs it and sends it. The lemmas say what \<^verbatim>\<open>create_tx\<close> pays
  and spends, and when the signature of a payment verifies.
\<close>

section \<open>Building a payment\<close>

text \<open>\<^verbatim>\<open>amount\<close>, \<^verbatim>\<open>receiver_id\<close> and \<^verbatim>\<open>sum\<close> are \<^verbatim>\<open>int\<close>s, kept as words and read with \<^term>\<open>sint\<close> where their sign matters.\<close>

definition get_total_coins :: "UTXOlist \<Rightarrow> u32" where
  "get_total_coins utxolist = foldl (\<lambda>total_coins utxo. add_to_total total_coins (out_value (utxo_output utxo))) 0 utxolist"

definition int_minus :: "u32 \<Rightarrow> u32 \<Rightarrow> u32 res" where
  "int_minus a b = (if - (2 ^ 31) \<le> sint a - sint b \<and> sint a - sint b < 2 ^ 31 then Inr (a - b)
     else Inl (Undefined_behaviour ''signed overflow''))"

text \<open>The first loop: one coin that covers the amount. The \<^verbatim>\<open>int\<close> is converted to 64 unsigned bits for the comparisons.\<close>

fun single_coin_loop :: "u32 \<Rightarrow> u32 \<Rightarrow> u32 \<Rightarrow> UTXOlist \<Rightarrow> Transaction \<Rightarrow> Transaction" where
  "single_coin_loop amount receiver_id my_id [] tx = tx"
| "single_coin_loop amount receiver_id my_id (utxo # utxolist) tx =
     (if out_value (utxo_output utxo) > scast amount then
        addOutput (Output (out_value (utxo_output utxo) - scast amount) my_id)
          (addOutput (Output (scast amount) receiver_id)
            (addInput (coin_input utxo) (tx\<lparr>tx_ID := transactionId utxo - amount, senderID := ucast my_id\<rparr>)))
      else if out_value (utxo_output utxo) = scast amount then
        addOutput (Output (scast amount) receiver_id)
          (addInput (coin_input utxo) (tx\<lparr>tx_ID := transactionId utxo - amount, senderID := ucast my_id\<rparr>))
      else single_coin_loop amount receiver_id my_id utxolist tx)"

text \<open>The second loop, which follows whatever the first has found: coins from the front until their sum covers the amount.\<close>

fun collect_loop :: "u32 \<Rightarrow> u32 \<Rightarrow> u32 \<Rightarrow> UTXOlist \<Rightarrow> u32 \<Rightarrow> Transaction \<Rightarrow> (u32 \<times> Transaction) res" where
  "collect_loop amount receiver_id my_id [] summed tx = Inr (summed, tx)"
| "collect_loop amount receiver_id my_id (utxo # utxolist) summed tx =
     (let value = out_value (utxo_output utxo); summed = add_to_total summed value in
      if sint summed > sint amount then
        rbind (int_minus summed amount) (\<lambda>excess.
          Inr (summed, addOutput (Output (value - scast summed + scast amount) my_id)
                     (addOutput (Output (scast excess) receiver_id) (addInput (coin_input utxo) tx))))
      else if summed = amount then
        Inr (summed, addOutput (Output value receiver_id) (addInput (coin_input utxo) tx))
      else collect_loop amount receiver_id my_id utxolist summed
             (addOutput (Output value receiver_id) (addInput (coin_input utxo) tx)))"

definition create_tx :: "u32 \<Rightarrow> u32 \<Rightarrow> UTXOlist \<Rightarrow> u32 \<Rightarrow> Transaction res" where
  "create_tx amount receiver_id utxolist my_id =
     rbind (collect_loop amount receiver_id my_id utxolist 0
              (single_coin_loop amount receiver_id my_id utxolist new_Transaction))
       (\<lambda>(summed, tx). Inr (tx\<lparr>tx_ID := summed, senderID := ucast my_id\<rparr>))"

section \<open>The session\<close>

text \<open>What the program reports on the console, besides its prompts.\<close>

datatype session_line = SyncFailed | SyncSuccessful | Balance u32 | SendFailed | SendSuccessful

text \<open>\<open>session_random\<close> counts the reads of the random device, which wallet and session share.\<close>

record Session =
  session_wallet :: Wallet
  next_keypair :: signature_state
  session_sk :: SigKey
  session_random :: nat
  console :: "session_line list"

definition session_start :: "urandom \<Rightarrow> Settings \<Rightarrow> Session res" where
  "session_start env settings = rbind (new_Wallet env (my_wallet_id settings)) (\<lambda>w.
     case KeyGen env (wallet_random_calls w) \<lparr>public_key = \<lparr>S0 = [], S1 = []\<rparr>, private_key = \<lparr>S0 = [], S1 = []\<rparr>\<rparr> of
       (kp, r) \<Rightarrow> rbind r (\<lambda>_. Inr \<lparr>session_wallet = w, next_keypair = kp, session_sk = private_key kp,
          session_random = wallet_random_calls w + 2 * KEY_LEN, console = []\<rparr>))"

text \<open>The answers of one turn at the console, and the leader's reply to the synchronisation.\<close>

record SessionInput =
  sync_reply :: "chat_UTXO list"
  answer :: string
  answer_amount :: u32
  answer_receiver :: u32

definition session_pay :: "urandom \<Rightarrow> u32 \<Rightarrow> u32 \<Rightarrow> Session \<Rightarrow> (Transaction \<times> chat_Transaction \<times> Session) res" where
  "session_pay env amount receiver_id s =
     rbind (create_tx amount receiver_id (local_utxo (session_wallet s)) (wallet_id (session_wallet s))) (\<lambda>tx.
     case KeyGen env (session_random s) (next_keypair s) of (kp, r) \<Rightarrow> rbind r (\<lambda>_.
       let tx = tx\<lparr>tx_public_key := public_key kp\<rparr> in
       rbind (Sign (Transaction_getDigest tx) (session_sk s)) (\<lambda>signature.
       let tx = tx\<lparr>senderSig := signature\<rparr> in
       rbind (Wallet_SendToLeader tx) (\<lambda>(r, request).
         Inr (tx, request, s\<lparr>next_keypair := kp, session_sk := private_key kp, session_random := session_random s + 2 * KEY_LEN,
           console := console s @ [if r = 0 then SendFailed else SendSuccessful]\<rparr>)))))"

definition session_turn :: "urandom \<Rightarrow> SessionInput \<Rightarrow> Session \<Rightarrow> (chat_Transaction list \<times> Session) res" where
  "session_turn env inp s =
     (let w = wallet_Sync (sync_reply inp) (session_wallet s); r = fst (SendSyncRequest (sync_reply inp) []);
          s = s\<lparr>session_wallet := w, console := console s @ [if r = 0 then SyncFailed else SyncSuccessful,
                  Balance (get_total_coins (local_utxo w))]\<rparr> in
      if answer inp = ''y''
      then rbind (session_pay env (answer_amount inp) (answer_receiver inp) s) (\<lambda>(_, request, s). Inr ([request], s))
      else Inr ([], s))"

text \<open>The main loop, on the answers given so far; it ends at the answer \<open>q\<close>.\<close>

fun session_loop :: "urandom \<Rightarrow> SessionInput list \<Rightarrow> Session \<Rightarrow> (chat_Transaction list \<times> Session) res" where
  "session_loop env [] s = Inr ([], s)"
| "session_loop env (inp # inps) s = rbind (session_turn env inp s) (\<lambda>(sent, s).
     if answer inp = ''q'' then Inr (sent, s)
     else rbind (session_loop env inps s) (\<lambda>(more, s). Inr (sent @ more, s)))"

section \<open>Vocabulary\<close>

text \<open>The value a transaction pays to a wallet, and transactions that pay out what they spend.\<close>

definition paid_to :: "u32 \<Rightarrow> Transaction \<Rightarrow> nat" where
  "paid_to w tx = sum_list (map (\<lambda>out. if out_receiverID out = w then unat (out_value out) else 0) (outputs tx))"

definition balanced :: "UTXOlist \<Rightarrow> u32 set \<Rightarrow> Transaction \<Rightarrow> bool" where
  "balanced l ids tx \<longleftrightarrow> set (inputs tx) \<subseteq> coin_input ` set l \<and> (inputs tx = [] \<longrightarrow> outputs tx = [])
     \<and> out_receiverID ` set (outputs tx) \<subseteq> ids
     \<and> (of_nat (total_spent l tx) :: u64) = (\<Sum>out\<leftarrow>outputs tx. out_value out)"

section \<open>Lemmas\<close>

declare unat_small64 [simp] unat_ucast_u32_u64 [simp]

lemma get_total_coins_eq: "get_total_coins l = of_nat (sum_list (map coin_value l))"
proof -
  have "foldl (\<lambda>t u. add_to_total t (out_value (utxo_output u))) a l = a + of_nat (sum_list (map coin_value l))" for a
    by (induction l arbitrary: a) (simp_all add: add_to_total_eq coin_value_def)
  then show ?thesis by (simp add: get_total_coins_def)
qed

lemma balanced_add:
  assumes "coins_distinct l" and "u \<in> set l" and "balanced l ids tx"
    and "inputs tx' = inputs tx @ [coin_input u]" and "outputs tx' = outputs tx @ outs"
    and "out_receiverID ` set outs \<subseteq> ids" and "(\<Sum>out\<leftarrow>outs. out_value out) = out_value (utxo_output u)"
  shows "balanced l ids tx'"
  using assms(2-7) by (auto simp: balanced_def total_spent_def spent_value_coin [OF assms(1,2)] coin_value_def)

lemma balanced_checked:
  assumes "balanced l (set ids) tx"
  shows "checkSpendingConditions tx l ids"
proof -
  have "(of_nat (\<Sum>out\<leftarrow>outs. unat (out_value out)) :: u64) = (\<Sum>out\<leftarrow>outs. out_value out)" for outs
    by (induction outs) simp_all
  then have "(of_nat (total_paid tx) :: u64) = of_nat (total_spent l tx)" using assms by (simp add: balanced_def total_paid_def)
  then have "total_paid tx mod 2 ^ 64 mod 2 ^ 32 = total_spent l tx mod 2 ^ 64 mod 2 ^ 32"
    by (simp add: word_of_nat_eq_iff take_bit_eq_mod)
  then have "total_paid tx mod 2 ^ 32 = total_spent l tx mod 2 ^ 32" by (simp add: mod_mod_cancel)
  then show ?thesis using assms by (auto simp: checkSpendingConditions_iff balanced_def coin_input_matches)
qed

lemma single_coin_balanced:
  assumes "coins_distinct l" and "set us \<subseteq> set l" and "balanced l ids tx" and "{r, w} \<subseteq> ids"
  shows "balanced l ids (single_coin_loop amount r w us tx)"
  using assms(2,3)
proof (induction us)
  case (Cons u us)
  have "u \<in> set l" using Cons.prems(1) by simp
  note add = balanced_add [OF assms(1) this Cons.prems(2)]
  show ?case
    using Cons assms(4) by (auto intro!: add simp: addInput_def addOutput_def)
qed simp

lemma int_minus_Inr: "int_minus a b = Inr c \<Longrightarrow> scast c = (scast a - scast b :: u64)"
proof -
  assume "int_minus a b = Inr c"
  then have c: "- (2 ^ 31) \<le> sint a - sint b" "sint a - sint b < 2 ^ 31" "c = a - b" by (auto simp: int_minus_def split: if_splits)
  show ?thesis unfolding scast_eq c(3) sint_diff32 [OF c(1,2)] by simp
qed

lemma collect_balanced:
  assumes "coins_distinct l" and "set us \<subseteq> set l" and "balanced l ids tx" and "{r, w} \<subseteq> ids"
    and "collect_loop amount r w us summed tx = Inr (summed', tx')"
  shows "balanced l ids tx'"
  using assms(2,3,5)
proof (induction us arbitrary: summed tx)
  case (Cons u us)
  let ?v = "out_value (utxo_output u)" and ?s = "add_to_total summed (out_value (utxo_output u))"
  have "u \<in> set l" using Cons.prems(1) by simp
  note add = balanced_add [OF assms(1) this Cons.prems(2)]
  let ?tx = "addOutput (Output ?v r) (addInput (coin_input u) tx)"
  have b: "balanced l ids ?tx" using assms(4) by (auto intro!: add simp: addInput_def addOutput_def)
  show ?case
  proof (cases "sint ?s > sint amount")
    case True
    then show ?thesis using Cons.prems(3) assms(4)
      by (auto intro!: add simp: addInput_def addOutput_def Let_def dest!: int_minus_Inr)
  next
    case False
    then show ?thesis using Cons.IH [OF _ b] Cons.prems b by (auto simp: Let_def split: if_splits)
  qed
qed auto

text \<open>Small amounts, where words and numbers agree.\<close>

lemma add_to_total_small:
  assumes "unat s + unat v < 2 ^ 31"
  shows "unat (add_to_total s v) = unat s + unat v"
proof -
  have "add_to_total s v = of_nat (unat s + unat v)" by (simp add: add_to_total_eq)
  moreover have "unat s + unat v < 2 ^ 32" using assms by simp
  ultimately show ?thesis by (simp only: unat_of_nat) simp
qed

lemma collect_step:
  assumes "unat s + coin_value u < 2 ^ 31" and "unat amount < 2 ^ 31"
  shows "collect_loop amount r w (u # us) s tx = (let sm = unat s + coin_value u in
     if sm > unat amount then Inr (of_nat sm, tx\<lparr>inputs := inputs tx @ [coin_input u],
        outputs := outputs tx @ [Output (of_nat (sm - unat amount)) r, Output (of_nat (unat amount) - of_nat (unat s)) w]\<rparr>)
     else let tx' = tx\<lparr>inputs := inputs tx @ [coin_input u], outputs := outputs tx @ [Output (of_nat (coin_value u)) r]\<rparr> in
       if sm = unat amount then Inr (amount, tx') else collect_loop amount r w us (of_nat sm) tx')"
proof -
  let ?s = "add_to_total s (out_value (utxo_output u))"
  have sm: "unat ?s = unat s + coin_value u" using assms(1) add_to_total_small by (simp add: coin_value_def)
  then have eq: "?s = of_nat (unat s + coin_value u)" unfolding sm [symmetric] by simp
  have si: "sint ?s = int (unat s + coin_value u)" "sint amount = int (unat amount)"
    unfolding sm [symmetric] by (rule sint_small32, use assms sm in simp)+
  have sc: "(scast ?s :: u64) = of_nat (unat s + coin_value u)" "(scast amount :: u64) = of_nat (unat amount)"
    unfolding sm [symmetric] by (rule scast_small32, use assms sm in simp)+
  have v: "out_value (utxo_output u) = of_nat (coin_value u)" by (simp add: coin_value_def)
  show ?thesis
  proof (cases "unat s + coin_value u > unat amount")
    case True
    have "unat s + coin_value u < 2147483648" using assms(1) by simp
    then have "- 2147483648 \<le> sint ?s - sint amount" "sint ?s - sint amount < 2147483648"
      unfolding si using True by linarith+
    then have "int_minus ?s amount = Inr (?s - amount)" by (simp add: int_minus_def)
    moreover have "sint amount < sint ?s" unfolding si using True by linarith
    moreover from int_minus_Inr [OF calculation(1)] have "scast (?s - amount) = (of_nat (unat s + coin_value u - unat amount) :: u64)"
      using sc True by simp
    ultimately show ?thesis using True sc v eq by (simp add: Let_def addInput_def addOutput_def)
  next
    case False
    moreover have "\<not> sint amount < sint ?s" unfolding si using False by linarith
    moreover have "?s = amount \<longleftrightarrow> unat s + coin_value u = unat amount" using sm by (metis unsigned_word_eqI)
    ultimately show ?thesis using eq v by (auto simp: Let_def addInput_def addOutput_def)
  qed
qed

lemma unat_coin_value [simp]: "unat (of_nat (coin_value u) :: u64) = coin_value u"
  by (simp add: coin_value_def)

lemma collect_prefix:
  assumes "unat s + sum_list (map coin_value us) < unat amount" and "unat amount < 2 ^ 31"
  shows "collect_loop amount r w (us @ rest) s tx = collect_loop amount r w rest (of_nat (unat s + sum_list (map coin_value us)))
     (tx\<lparr>inputs := inputs tx @ map coin_input us, outputs := outputs tx @ map (\<lambda>u. Output (of_nat (coin_value u)) r) us\<rparr>)"
  using assms(1)
proof (induction us arbitrary: s tx)
  case (Cons u us)
  have lt: "unat s + coin_value u < 2 ^ 31" using Cons.prems assms(2) by simp
  then have "unat (of_nat (unat s + coin_value u) :: u32) = unat s + coin_value u" by (simp add: unat_of_nat del: of_nat_add)
  note this lt
  then show ?case
    using Cons.prems Cons.IH [of "of_nat (unat s + coin_value u)"] assms(2)
    by (simp add: collect_step Let_def add.assoc del: collect_loop.simps of_nat_add)
qed simp

lemma single_coin_none:
  assumes "unat amount < 2 ^ 31" and "\<forall>u \<in> set us. coin_value u < unat amount"
  shows "single_coin_loop amount r w us tx = tx"
  using assms(2) by (induction us) (auto simp: scast_small32 [OF assms(1)] coin_value_def word_less_nat_alt word_eq_iff_unsigned [where 'a = nat])

lemma single_coin_first:
  assumes "unat amount < 2 ^ 31" and "unat amount \<le> coin_value u"
  shows "single_coin_loop amount r w (u # us) tx = tx\<lparr>inputs := inputs tx @ [coin_input u],
     outputs := outputs tx @ Output (of_nat (unat amount)) r
        # (if unat amount < coin_value u then [Output (of_nat (coin_value u - unat amount)) w] else []),
     tx_ID := transactionId u - amount, senderID := ucast w\<rparr>"
proof -
  have v: "out_value (utxo_output u) = of_nat (coin_value u)" by (simp add: coin_value_def)
  have "(scast amount :: u64) < out_value (utxo_output u) \<longleftrightarrow> unat amount < coin_value u"
    unfolding scast_small32 [OF assms(1)] word_less_nat_alt using assms(1) by (simp add: coin_value_def)
  moreover have "out_value (utxo_output u) = scast amount \<longleftrightarrow> unat amount = coin_value u"
    unfolding scast_small32 [OF assms(1)] word_eq_iff_unsigned [where 'a = nat] using assms(1) by (auto simp: coin_value_def)
  moreover have "out_value (utxo_output u) - scast amount = of_nat (coin_value u - unat amount)"
    unfolding scast_small32 [OF assms(1)] v using assms(2) by simp
  ultimately show ?thesis using assms by (simp add: addInput_def addOutput_def scast_small32)
qed

lemma create_tx_first_covers:
  assumes "unat amount \<le> coin_value u" and "coin_value u < 2 ^ 31" and "r \<noteq> w"
  shows "\<exists>tx. create_tx amount r (u # us) w = Inr tx \<and> inputs tx = [coin_input u, coin_input u]
     \<and> paid_to r tx = (if coin_value u = unat amount then 2 * unat amount else coin_value u)"
proof -
  have a: "unat amount < 2 ^ 31" using assms by simp
  show ?thesis using assms a
    by (auto simp: create_tx_def single_coin_first [OF a assms(1)] collect_step Let_def paid_to_def new_Transaction_def
        simp del: collect_loop.simps single_coin_loop.simps of_nat_diff)
qed

lemma create_tx_collects:
  assumes "unat amount < 2 ^ 31" and "\<forall>c \<in> set (us @ u # rest). coin_value c < unat amount"
    and "sum_list (map coin_value us) < unat amount" and "unat amount \<le> sum_list (map coin_value us) + coin_value u"
    and "sum_list (map coin_value us) + coin_value u < 2 ^ 31" and "r \<noteq> w"
  shows "\<exists>tx. create_tx amount r (us @ u # rest) w = Inr tx \<and> inputs tx = map coin_input (us @ [u])
     \<and> total_paid tx = sum_list (map coin_value (us @ [u]))
     \<and> paid_to r tx = (if sum_list (map coin_value (us @ [u])) = unat amount then unat amount
          else sum_list (map coin_value us) + (sum_list (map coin_value (us @ [u])) - unat amount))"
proof -
  let ?S = "sum_list (map coin_value us)"
  have s: "unat (of_nat ?S :: u32) = ?S" using assms(1,3) by (simp add: unat_of_nat)
  have "(ucast amount - of_nat ?S :: u64) = of_nat (unat amount - ?S)" using assms(3) by simp
  then have "unat (ucast amount - of_nat ?S :: u64) = unat amount - ?S" using assms(1) by simp
  then show ?thesis using assms s
    by (auto simp: create_tx_def single_coin_none collect_prefix collect_step Let_def paid_to_def total_paid_def new_Transaction_def
        comp_def simp del: collect_loop.simps single_coin_loop.simps of_nat_diff)
qed

section \<open>Signatures of the session\<close>

text \<open>The session holds the secret part of the key it announced last.\<close>

definition session_ok :: "Session \<Rightarrow> bool" where
  "session_ok s \<longleftrightarrow> key_pair (session_sk s) (public_key (next_keypair s)) \<and> session_sk s = private_key (next_keypair s)"

lemma session_start_ok: "session_start env settings = Inr s \<Longrightarrow> session_ok s"
  by (auto simp: session_start_def session_ok_def split: prod.splits) (rule KeyGen_key_pair(2), assumption)

lemma session_pay_Inr:
  assumes "session_pay env amount receiver_id s = Inr (tx, request, s')"
  shows "session_ok s'" and "tx_public_key tx = public_key (next_keypair s')"
    and "Sign (Transaction_getDigest tx) (session_sk s) = Inr (senderSig tx)"
    and "session_wallet s' = session_wallet s"
    and "\<exists>tx0. create_tx amount receiver_id (local_utxo (session_wallet s)) (wallet_id (session_wallet s)) = Inr tx0
       \<and> inputs tx = inputs tx0 \<and> outputs tx = outputs tx0"
  using assms
  by (auto simp: session_pay_def session_ok_def Let_def Transaction_getDigest_def getStringDigest_def split: prod.splits)
    (rule KeyGen_key_pair(2), assumption)

lemma Verify_other_key:
  assumes "key_complete priv" and "Sign m priv = Inr sig" and "key_pair priv' pub'"
  shows "Verify m sig pub' = Inr 1 \<longleftrightarrow>
    (\<forall>i < KEY_LEN. hash (selected (message_bits m) priv i) = hash (selected (message_bits m) priv' i))"
proof -
  have sig: "sig = map (selected (message_bits m) priv) [0..<KEY_LEN]" using assms(1,2) by (simp add: Sign_eq)
  have "selected (message_bits m) pub' i = hash (selected (message_bits m) priv' i)" if "i < KEY_LEN" for i
    using assms(3) that by (simp add: key_pair_def key_complete_def selected_def)
  then show ?thesis
    using key_pair_complete [OF assms(3)] sig by (auto simp: Verify_success_iff)
qed

lemma session_pay_total:
  assumes "\<And>n. open_ok env n" and "\<And>n. read_byte env n \<noteq> None"
    and "create_tx amount receiver_id (local_utxo (session_wallet s)) (wallet_id (session_wallet s)) = Inr tx0"
  shows "\<exists>tx request s'. session_pay env amount receiver_id s = Inr (tx, request, s')"
proof -
  obtain kp where k: "KeyGen env (session_random s) (next_keypair s) = (kp, Inr 1)" using KeyGen_total assms(1,2) by blast
  have w: "key_writable (public_key kp)" using key_pair_public [OF KeyGen_key_pair(2) [OF k]] key_storable_writable by blast
  obtain sig where "Sign (Transaction_getDigest (tx0\<lparr>tx_public_key := public_key kp\<rparr>)) (session_sk s) = Inr sig" by (simp add: Sign_eq)
  moreover obtain p where "toProtoTransaction (tx0\<lparr>tx_public_key := public_key kp, senderSig := sig\<rparr>) chat_Transaction_empty = Inr p"
    using transaction_proto_round_trip [of "tx0\<lparr>tx_public_key := public_key kp, senderSig := sig\<rparr>" new_Transaction] w
    by (auto simp: new_Transaction_def)
  ultimately show ?thesis using assms(3) k by (simp add: session_pay_def Let_def Wallet_SendToLeader_def NewTx_request_def)
qed

definition demo_session :: Session where
  "demo_session = \<lparr>session_wallet = demo_wallet\<lparr>local_utxo := [UTXO 1 0 (Output 5 4)]\<rparr>,
     next_keypair = \<lparr>public_key = demo_public, private_key = demo_private\<rparr>, session_sk = demo_private, session_random = 0, console = []\<rparr>"

section \<open>Properties of the interactive wallet\<close>

text \<open>
  Payments of the interactive wallet balance: from a list of different coins, for any amount, even
  a negative one, what \<^verbatim>\<open>create_tx\<close> builds meets the spending conditions against these coins, as soon as the
  payer and the receiver are known wallets. The only other outcome is a signed overflow.
\<close>

theorem interactive_payment_balances:
  assumes "coins_distinct coins" and "r \<in> set ids" and "w \<in> set ids"
  shows "(\<exists>tx. create_tx amount r coins w = Inr tx \<and> checkSpendingConditions tx coins ids \<and> senderID tx = ucast w)
     \<or> create_tx amount r coins w = Inl (Undefined_behaviour ''signed overflow'')"
proof (cases "create_tx amount r coins w")
  case (Inl e)
  have "collect_loop amount r w us summed tx = Inl e \<Longrightarrow> e = Undefined_behaviour ''signed overflow''" for us summed tx e
    by (induction us arbitrary: summed tx) (auto simp: Let_def int_minus_def split: if_splits)
  then show ?thesis
    using Inl by (cases "collect_loop amount r w coins 0 (single_coin_loop amount r w coins new_Transaction)") (auto simp: create_tx_def)
next
  case (Inr tx)
  have e: "balanced coins (set ids) new_Transaction" by (simp add: balanced_def new_Transaction_def total_spent_def)
  obtain summed' tx' where c: "collect_loop amount r w coins 0 (single_coin_loop amount r w coins new_Transaction) = Inr (summed', tx')"
    and tx: "tx = tx'\<lparr>tx_ID := summed', senderID := ucast w\<rparr>" using Inr by (auto simp: create_tx_def)
  have "balanced coins (set ids) tx'"
    by (rule collect_balanced [OF assms(1) _ single_coin_balanced [OF assms(1) _ e] _ c]) (use assms(2,3) in auto)
  then have "balanced coins (set ids) tx" by (simp add: tx balanced_def total_spent_def)
  then show ?thesis using Inr balanced_checked by (auto simp: tx)
qed

theorem interactive_payment_balances_witness:
  "\<exists>tx. create_tx 3 7 [UTXO 1 0 (Output 5 4), UTXO 2 0 (Output 4 4)] 4 = Inr tx
     \<and> checkSpendingConditions tx [UTXO 1 0 (Output 5 4), UTXO 2 0 (Output 4 4)] [4, 7]"
proof -
  have "coins_distinct [UTXO 1 0 (Output 5 4), UTXO 2 0 (Output 4 4)]" by (simp add: coins_distinct_def coin_input_def)
  moreover have "create_tx 3 7 [UTXO 1 0 (Output 5 4), UTXO 2 0 (Output 4 4)] 4 \<noteq> Inl (Undefined_behaviour ''signed overflow'')"
    using create_tx_first_covers [of 3 "UTXO 1 0 (Output 5 4)" 7 4 "[UTXO 2 0 (Output 4 4)]"] by (auto simp: coin_value_def)
  ultimately show ?thesis using interactive_payment_balances [of _ 7 "[4, 7]" 4 3] by auto
qed

text \<open>
  What the payee gets: when no coin covers the amount alone, the payment spends the coins from the
  front that are needed, each once, and pays out all their value. The payee receives the amount if the
  coins sum up to it exactly; otherwise it receives the earlier coins and the excess of the last one,
  where the payer should have kept the excess.
\<close>

theorem interactive_payment_collects:
  assumes "unat amount < 2 ^ 31" and "\<forall>c \<in> set (us @ u # rest). coin_value c < unat amount"
    and "sum_list (map coin_value us) < unat amount" and "unat amount \<le> sum_list (map coin_value us) + coin_value u"
    and "sum_list (map coin_value us) + coin_value u < 2 ^ 31" and "r \<noteq> w"
  shows "\<exists>tx. create_tx amount r (us @ u # rest) w = Inr tx \<and> inputs tx = map coin_input (us @ [u])
     \<and> total_paid tx = sum_list (map coin_value (us @ [u]))
     \<and> paid_to r tx = (if sum_list (map coin_value (us @ [u])) = unat amount then unat amount
          else sum_list (map coin_value us) + (sum_list (map coin_value (us @ [u])) - unat amount))"
  by (rule create_tx_collects [OF assms])

theorem interactive_payment_collects_witness:
  "\<exists>tx. create_tx 6 7 [UTXO 1 0 (Output 5 4), UTXO 2 0 (Output 4 4), UTXO 3 0 (Output 1 4)] 4 = Inr tx
     \<and> inputs tx = [Input 1 0, Input 2 0] \<and> total_paid tx = 9 \<and> paid_to 7 tx = 8"
  using interactive_payment_collects [of 6 "[UTXO 1 0 (Output 5 4)]" "UTXO 2 0 (Output 4 4)" "[UTXO 3 0 (Output 1 4)]" 7 4]
  by (auto simp: coin_value_def coin_input_def)

text \<open>
  C38. When the first coin covers the amount, both loops of \<^verbatim>\<open>create_tx\<close> spend it: the payment has the
  same input twice and pays the receiver the whole coin, or twice the amount when the coin equals it. No
  block that contains such a payment passes \<^verbatim>\<open>verify\<close>, whatever else it contains.
\<close>

theorem interactive_payment_spends_twice:
  assumes "unat amount \<le> coin_value u" and "coin_value u < 2 ^ 31" and "r \<noteq> w"
  shows "\<exists>tx. create_tx amount r (u # us) w = Inr tx \<and> inputs tx = [coin_input u, coin_input u]
     \<and> paid_to r tx = (if coin_value u = unat amount then 2 * unat amount else coin_value u)
     \<and> (\<forall>b utxo ids. tx \<in> set (txs b) \<and> length (block_inputs b) < 2 ^ 31 \<longrightarrow> \<not> verify b utxo ids)"
proof -
  obtain tx where tx: "create_tx amount r (u # us) w = Inr tx" "inputs tx = [coin_input u, coin_input u]"
    "paid_to r tx = (if coin_value u = unat amount then 2 * unat amount else coin_value u)"
    using create_tx_first_covers [OF assms] by blast
  have "\<not> distinct (block_inputs b)" if "tx \<in> set (txs b)" for b
    using that tx(2) by (auto simp: block_inputs_def dest!: split_list)
  then show ?thesis using tx verify_iff by blast
qed

theorem interactive_payment_spends_twice_witness:
  "\<exists>tx. create_tx 3 7 [UTXO 1 0 (Output 5 4)] 4 = Inr tx \<and> inputs tx = [Input 1 0, Input 1 0] \<and> paid_to 7 tx = 5
     \<and> \<not> verify (empty_Block\<lparr>txs := [tx]\<rparr>) [UTXO 1 0 (Output 5 4)] [4, 7]"
  using interactive_payment_spends_twice [of 3 "UTXO 1 0 (Output 5 4)" 7 4 "[]"]
  by (fastforce simp: coin_value_def coin_input_def block_inputs_def)

text \<open>
  The interactive wallet signs with the key it announced before: the signature verifies with the
  public key of the previous payment. The transaction, however, carries the next key, with which the
  validators check it, and there it verifies only if all secret
  strings selected by the digest have the same hash in both keys.
\<close>

theorem interactive_signature_by_previous_key:
  assumes "session_ok s" and "session_pay env amount receiver_id s = Inr (tx, request, s')"
  shows "session_ok s' \<and> Verify (Transaction_getDigest tx) (senderSig tx) (public_key (next_keypair s)) = Inr 1
    \<and> tx_public_key tx = public_key (next_keypair s')
    \<and> (acceptable v tx \<longrightarrow> (\<forall>i < KEY_LEN. hash (selected (message_bits (Transaction_getDigest tx)) (session_sk s) i)
         = hash (selected (message_bits (Transaction_getDigest tx)) (session_sk s') i)))"
proof -
  note p = session_pay_Inr [OF assms(2)]
  have k: "key_pair (session_sk s) (public_key (next_keypair s))" "key_pair (session_sk s') (public_key (next_keypair s'))"
    using assms(1) p(1) by (auto simp: session_ok_def)
  show ?thesis
    using p(1,2) Verify_Sign [OF k(1) p(3)] Verify_other_key [OF _ p(3) k(2)] key_pair_complete [OF k(1)]
    by (auto simp: acceptable_def)
qed

theorem interactive_signature_by_previous_key_witness:
  "\<exists>tx request s'. session_pay \<lparr>open_ok = \<lambda>_. True, read_byte = \<lambda>_. Some CHR ''k''\<rparr> 3 7 demo_session = Inr (tx, request, s')
     \<and> Verify (Transaction_getDigest tx) (senderSig tx) demo_public = Inr 1 \<and> tx_public_key tx = public_key (next_keypair s')"
proof -
  let ?env = "\<lparr>open_ok = \<lambda>_. True, read_byte = \<lambda>_. Some CHR ''k''\<rparr>"
  have ok: "session_ok demo_session" using demo_key_pair by (simp add: session_ok_def demo_session_def)
  obtain tx0 where "create_tx 3 7 [UTXO 1 0 (Output 5 4)] 4 = Inr tx0"
    using create_tx_first_covers [of 3 "UTXO 1 0 (Output 5 4)" 7 4 "[]"] by (auto simp: coin_value_def)
  then obtain tx request s' where p: "session_pay ?env 3 7 demo_session = Inr (tx, request, s')"
    using session_pay_total [of ?env 3 7 demo_session tx0] by (auto simp: demo_session_def demo_wallet_def)
  show ?thesis using interactive_signature_by_previous_key [OF ok p] p by (auto simp: demo_session_def)
qed

end
