(* ===== verification/Network_Silent.thy ===== *)
theory Network_Silent
  imports Network
begin

text \<open>
  Networks with faulty nodes, as the class \<^verbatim>\<open>FaultNode\<close> of \<^verbatim>\<open>node.h\<close> has them: its empty \<^verbatim>\<open>broadcastRound\<close> makes it
  silent, whatever its behaviour is called. The correct nodes of such a network run like a network of
  their own, and deliver exactly when more than \<open>2 * f + 1\<close> of them are left.
\<close>

section \<open>Nodes that wait for ever\<close>

definition stuck :: "Block \<Rightarrow> Node \<Rightarrow> bool" where
  "stuck b0 nd \<longleftrightarrow> send_this_round nd = [] \<and> should_broadcast nd \<and> block_hash b0 \<in> ready_sent nd
     \<and> (\<exists>k. echo_this_round nd = [(block_hash b0, k)])
     \<and> (\<exists>k. ready_this_round nd = [(block_hash b0, k)] \<and> \<not> delivery_quorum (num_faulty nd) (unat k))"

lemma stuck_turn: "runtime_ok rt \<Longrightarrow> stuck b0 nd \<Longrightarrow> node_turn rt [] nd = Inr nd"
  by (cases nd) (auto simp: stuck_def node_turn_def updateRecvMessages_def broadcastRound_def Let_def echo_round_def)

lemma turn_not_enough:
  assumes "runtime_ok rt" and "awaits READY b0 nd" and "\<And>m. m \<in> set ms \<Longrightarrow> trusts nd m \<and> good_msg READY b0 m"
    and "distinct (map sender_of ms)" and "ms \<noteq> []" and "length ms < 2 ^ 64" and "\<not> delivery_quorum (num_faulty nd) (length ms)"
  shows "\<exists>nd'. node_turn rt ms nd = Inr nd' \<and> stuck b0 nd' \<and> outbox nd' = outbox nd \<and> accepted_blocks nd' = accepted_blocks nd"
proof -
  let ?nd = "receive_all READY ms (nd\<lparr>send_this_round := []\<rparr>)" let ?h = "block_hash b0"
  have g: "good_msg READY b0 m" if "m \<in> set ms" for m using assms(3) that by blast
  have u: "updateRecvMessages ms nd = Inr ?nd" using updateRecv_all [OF assms(3,4)] assms(2) by (simp add: awaits_def)
  have r: "ready_this_round ?nd = [(?h, of_nat (length ms))]"
    using receive_all_counts(2) [OF g] count_up_fresh [of "length ms" ?h] assms(2,5) by (auto simp: awaits_def)
  obtain k where e: "echo_this_round ?nd = [(?h, k)]" "?h \<in> ready_sent ?nd" using assms(2) by (auto simp: awaits_def)
  then have "node_turn rt ms nd = Inr (?nd\<lparr>should_broadcast := True\<rparr>)"
    using u r assms(1,6,7) by (simp add: node_turn_def broadcastRound_def Let_def echo_round_def unat_count)
  then show ?thesis using e r assms(6,7) by (simp add: stuck_def unat_count)
qed

lemma network_stuck:
  assumes "\<forall>nd \<in> set nodes. stuck b0 nd" and "shuffles arrival" and "\<And>i. runtime_ok (rts i)"
  shows "network_run rts arrival k [] nodes = Inr (nodes, [])"
proof (induction k)
  case (Suc k)
  have a: "arrival i [] = []" for i using assms(2) by (simp add: shuffles_def) (metis mset_zero_iff)
  have "rmap (\<lambda>i. node_turn (rts i) (arrival i []) (nodes ! i)) [0..<length nodes] = Inr (map ((!) nodes) [0..<length nodes])"
    by (intro rmap_all_Inr) (simp add: a stuck_turn [OF assms(3) bspec [OF assms(1) nth_mem]])
  then have "network_round rts arrival [] nodes = Inr (nodes, [])" by (simp add: network_round_def map_nth)
  then show ?case using Suc by simp
qed simp

lemma network_not_enough:
  assumes "network_ok READY b0 batch nodes" and "shuffles arrival" and "\<And>i. runtime_ok (rts i)" and "block_writable b0"
    and "batch \<noteq> []" and "length batch < 2 ^ 64" and "\<And>nd. nd \<in> set nodes \<Longrightarrow> \<not> delivery_quorum (num_faulty nd) (length batch)"
  shows "\<exists>nodes'. network_round rts arrival batch nodes = Inr (nodes', []) \<and> length nodes' = length nodes
     \<and> (\<forall>i < length nodes. stuck b0 (nodes' ! i) \<and> accepted_blocks (nodes' ! i) = accepted_blocks (nodes ! i))"
proof (rule quiet_round [OF assms(1,4)])
  fix i assume "i < length nodes"
  then have nd: "nodes ! i \<in> set nodes" by simp
  have a: "awaits READY b0 (nodes ! i)" using assms(1) nd by (simp add: network_ok_def)
  note b = batch_received [OF assms(1,2) nd, where i = i]
  have "arrival i (map strip batch) \<noteq> []" using assms(5) b(3) by auto
  then show "\<exists>nd'. node_turn (rts i) (arrival i (map strip batch)) (nodes ! i) = Inr nd' \<and> outbox nd' = outbox (nodes ! i)
      \<and> stuck b0 nd' \<and> accepted_blocks nd' = accepted_blocks (nodes ! i)"
    using turn_not_enough [OF assms(3) a b(1,2)] b(3) assms(6) assms(7) [OF nd] by auto
qed

section \<open>Silent nodes\<close>

text \<open>
  One wake-up of a faulty node: after a crash it does nothing, otherwise it reads the messages and its
  overridden \<^verbatim>\<open>broadcastRound\<close> is empty. What an exception leaves of the process is of no concern.
\<close>

definition silent_turn :: "ByzantineBehavior \<Rightarrow> Message list \<Rightarrow> Node \<Rightarrow> Node" where
  "silent_turn behaviour msg_list nd = (case FaultNode_RunProtocol behaviour [msg_list] nd of Inl _ \<Rightarrow> nd | Inr nd' \<Rightarrow> nd')"

text \<open>A round of a network in which \<open>faulty i\<close> is the behaviour of a faulty node and nothing for a correct one.\<close>

definition mixed_round :: "(nat \<Rightarrow> runtime) \<Rightarrow> (nat \<Rightarrow> Message list \<Rightarrow> Message list) \<Rightarrow> (nat \<Rightarrow> ByzantineBehavior option)
    \<Rightarrow> Message list \<Rightarrow> Node list \<Rightarrow> (Node list \<times> Message list) res" where
  "mixed_round rts arrival faulty sent nodes = rbind (rmap transmit sent) (\<lambda>msgs.
     rbind (rmap (\<lambda>i. case faulty i of
                None \<Rightarrow> node_turn (rts i) (arrival i msgs) (nodes ! i)
              | Some behaviour \<Rightarrow> Inr (silent_turn behaviour (arrival i msgs) (nodes ! i))) [0..<length nodes]) (\<lambda>nodes'.
       Inr (nodes', concat (map (\<lambda>i. drop (length (outbox (nodes ! i))) (outbox (nodes' ! i))) [0..<length nodes]))))"

fun mixed_run :: "(nat \<Rightarrow> runtime) \<Rightarrow> (nat \<Rightarrow> Message list \<Rightarrow> Message list) \<Rightarrow> (nat \<Rightarrow> ByzantineBehavior option) \<Rightarrow> nat
    \<Rightarrow> Message list \<Rightarrow> Node list \<Rightarrow> (Node list \<times> Message list) res" where
  "mixed_run rts arrival faulty 0 sent nodes = Inr (nodes, sent)"
| "mixed_run rts arrival faulty (Suc k) sent nodes =
     rbind (mixed_round rts arrival faulty sent nodes) (\<lambda>(nodes, sent). mixed_run rts arrival faulty k sent nodes)"

lemma recv_message_outbox: "recv_message m nd = Inr nd' \<Longrightarrow> outbox nd' = outbox nd"
  by (auto simp: recv_message_def Let_def split: if_splits dest!: checkBlockSig_Inr)

lemma updateRecv_outbox: "updateRecvMessages ms nd = Inr nd' \<Longrightarrow> outbox nd' = outbox nd"
  unfolding updateRecvMessages_def
  by (erule rfold_Inr_induct [where P = "\<lambda>n. outbox n = outbox nd"]) (auto dest: recv_message_outbox)

lemma faulty_loop_outbox: "faulty_loop batches nd = Inr nd' \<Longrightarrow> outbox nd' = outbox nd"
  by (induction batches arbitrary: nd) (auto split: if_splits dest!: updateRecv_outbox)

lemma silent_turn_outbox: "outbox (silent_turn behaviour ms nd) = outbox nd"
  by (auto simp: silent_turn_def FaultNode_RunProtocol_def split: sum.split dest!: updateRecv_outbox)

definition correct :: "(nat \<Rightarrow> ByzantineBehavior option) \<Rightarrow> nat \<Rightarrow> nat list" where
  "correct faulty n = filter (\<lambda>i. faulty i = None) [0..<n]"

lemma concat_filter: "(\<And>x. x \<in> set xs \<Longrightarrow> \<not> P x \<Longrightarrow> d x = []) \<Longrightarrow> concat (map d (filter P xs)) = concat (map d xs)"
  by (induction xs) auto

lemma index_map: "map (\<lambda>j. g (idx ! j)) [0..<length idx] = map g idx"
  by (rule nth_equalityI) simp_all

text \<open>The correct nodes of a mixed network behave like a network of their own.\<close>

lemma mixed_round_correct:
  assumes "idx = correct faulty (length nodes)"
    and "network_round (\<lambda>j. rts (idx ! j)) (\<lambda>j. arrival (idx ! j)) sent (map ((!) nodes) idx) = Inr (nodes1, sent1)"
  shows "\<exists>nodes'. mixed_round rts arrival faulty sent nodes = Inr (nodes', sent1) \<and> length nodes' = length nodes \<and> map ((!) nodes') idx = nodes1"
proof -
  let ?n = "length nodes" let ?c = "length idx"
  obtain msgs where msgs: "rmap transmit sent = Inr msgs"
    and r: "rmap (\<lambda>j. node_turn (rts (idx ! j)) (arrival (idx ! j) msgs) (map ((!) nodes) idx ! j)) [0..<?c] = Inr nodes1"
    and sent1: "sent1 = concat (map (\<lambda>j. drop (length (outbox (map ((!) nodes) idx ! j))) (outbox (nodes1 ! j))) [0..<?c])"
    using assms(2) by (auto simp: network_round_def)
  let ?g = "\<lambda>i. node_turn (rts i) (arrival i msgs) (nodes ! i)"
  have l: "length nodes1 = ?c" using rmap_Inr_length [OF r] by simp
  have g: "?g (idx ! j) = Inr (nodes1 ! j)" if "j < ?c" for j
    using list_all2_nthD2 [OF rmap_list_all2 [OF r], of j] that l by simp
  define F where "F = (\<lambda>i. case faulty i of None \<Rightarrow> projr (?g i) | Some behaviour \<Rightarrow> silent_turn behaviour (arrival i msgs) (nodes ! i))"
  have sel: "set idx = {i. i < ?n \<and> faulty i = None}" using assms(1) by (auto simp: correct_def)
  then have F: "F (idx ! j) = nodes1 ! j" if "j < ?c" for j using g [OF that] nth_mem [OF that] by (auto simp: F_def)
  have "rmap (\<lambda>i. case faulty i of None \<Rightarrow> ?g i | Some behaviour \<Rightarrow> Inr (silent_turn behaviour (arrival i msgs) (nodes ! i))) [0..<?n] = Inr (map F [0..<?n])"
  proof (rule rmap_all_Inr)
    fix i assume "i \<in> set [0..<?n]"
    then have "i \<in> set idx" if "faulty i = None" using sel that by simp
    then have "faulty i = None \<Longrightarrow> ?g i = Inr (projr (?g i))" using g by (auto simp: in_set_conv_nth)
    then show "(case faulty i of None \<Rightarrow> ?g i | Some behaviour \<Rightarrow> Inr (silent_turn behaviour (arrival i msgs) (nodes ! i))) = Inr (F i)"
      by (auto simp: F_def split: option.split)
  qed
  moreover have "concat (map (\<lambda>i. drop (length (outbox (nodes ! i))) (outbox (map F [0..<?n] ! i))) [0..<?n]) = sent1"
  proof -
    let ?d = "\<lambda>i. drop (length (outbox (nodes ! i))) (outbox (F i))"
    have "concat (map ?d [0..<?n]) = concat (map ?d idx)"
      unfolding assms(1) correct_def by (rule concat_filter [symmetric]) (auto simp: F_def silent_turn_outbox)
    also have "map ?d idx = map (\<lambda>j. ?d (idx ! j)) [0..<?c]" by (rule index_map [symmetric])
    also have "concat \<dots> = sent1" unfolding sent1 using F by (intro arg_cong [where f = concat] map_cong refl) simp
    finally have "concat (map ?d [0..<?n]) = sent1" .
    moreover have "map (\<lambda>i. drop (length (outbox (nodes ! i))) (outbox (map F [0..<?n] ! i))) [0..<?n] = map ?d [0..<?n]"
      by (rule map_cong) simp_all
    ultimately show ?thesis by (simp only:)
  qed
  moreover have "map ((!) (map F [0..<?n])) idx = nodes1"
  proof (rule nth_equalityI)
    fix j assume "j < length (map ((!) (map F [0..<?n])) idx)"
    then show "map ((!) (map F [0..<?n])) idx ! j = nodes1 ! j" using F [of j] sel nth_mem [of j idx] by simp
  qed (simp add: l)
  ultimately show ?thesis using msgs by (intro exI [of _ "map F [0..<?n]"]) (simp add: mixed_round_def)
qed

lemma mixed_run_correct:
  assumes "idx = correct faulty (length nodes)"
    and "network_run (\<lambda>j. rts (idx ! j)) (\<lambda>j. arrival (idx ! j)) k sent (map ((!) nodes) idx) = Inr (nodes1, sent1)"
  shows "\<exists>nodes'. mixed_run rts arrival faulty k sent nodes = Inr (nodes', sent1) \<and> length nodes' = length nodes \<and> map ((!) nodes') idx = nodes1"
  using assms
proof (induction k arbitrary: sent nodes)
  case (Suc k)
  then obtain n1 s1 where r: "network_round (\<lambda>j. rts (idx ! j)) (\<lambda>j. arrival (idx ! j)) sent (map ((!) nodes) idx) = Inr (n1, s1)"
    "network_run (\<lambda>j. rts (idx ! j)) (\<lambda>j. arrival (idx ! j)) k s1 n1 = Inr (nodes1, sent1)" by auto
  obtain nodes' where m: "mixed_round rts arrival faulty sent nodes = Inr (nodes', s1)" "length nodes' = length nodes" "map ((!) nodes') idx = n1"
    using mixed_round_correct [OF Suc.prems(1) r(1)] by blast
  then show ?case using Suc.IH [of nodes' s1] Suc.prems(1) r(2) by auto
qed auto

lemma network_never_delivers:
  assumes "network_ok SEND b [] nodes" and "l < length nodes" and "\<not> block_mutable b" and "block_writable b"
    and "\<And>i. runtime_ok (rts i)" and "shuffles arrival" and "length nodes < 2 ^ 64"
    and "\<And>nd. nd \<in> set nodes \<Longrightarrow> echo_quorum (num_nodes nd) (num_faulty nd) (length nodes) \<and> \<not> delivery_quorum (num_faulty nd) (length nodes)"
  shows "\<exists>ld nodes'. Propose (rts l) b (nodes ! l) = Inr ld
    \<and> network_run rts arrival (3 + k) (drop (length (outbox (nodes ! l))) (outbox ld)) (nodes[l := ld]) = Inr (nodes', [])
    \<and> length nodes' = length nodes
    \<and> (\<forall>i < length nodes. stuck b (nodes' ! i) \<and> accepted_blocks (nodes' ! i) = accepted_blocks (nodes ! i))"
proof -
  let ?n = "length nodes"
  obtain ld n2 b2 where r: "Propose (rts l) b (nodes ! l) = Inr ld"
    "network_run rts arrival 2 (drop (length (outbox (nodes ! l))) (outbox ld)) (nodes[l := ld]) = Inr (n2, b2)"
    "network_ok READY b b2 n2" "length b2 = ?n" "length n2 = ?n" "\<forall>i < ?n. same_setup (nodes ! i) (n2 ! i)"
    using network_two_rounds [where rts = rts and nodes = nodes, OF assms(1-7)] assms(8) by blast
  have "\<not> delivery_quorum (num_faulty nd) (length b2)" if nd: "nd \<in> set n2" for nd
  proof -
    obtain i where i: "i < ?n" "nd = n2 ! i" using nd r(5) by (auto simp: in_set_conv_nth)
    then show ?thesis using r(4,6) assms(8) [OF nth_mem [OF i(1)]] by (simp add: same_setup_def)
  qed
  moreover have "b2 \<noteq> []" using r(4) assms(2) by auto
  ultimately obtain n3 where n3: "network_round rts arrival b2 n2 = Inr (n3, [])" "length n3 = ?n"
    "\<forall>i < ?n. stuck b (n3 ! i) \<and> accepted_blocks (n3 ! i) = accepted_blocks (n2 ! i)"
    using network_not_enough [where rts = rts, OF r(3) assms(6,5,4)] r(4,5) assms(7) by auto
  have "\<forall>nd \<in> set n3. stuck b nd" using n3(2,3) by (auto simp: in_set_conv_nth)
  then have "network_run rts arrival k [] n3 = Inr (n3, [])" by (rule network_stuck [OF _ assms(6,5)])
  then have "network_run rts arrival (2 + Suc k) (drop (length (outbox (nodes ! l))) (outbox ld)) (nodes[l := ld]) = Inr (n3, [])"
    unfolding network_run_append r(2) using n3(1) by simp
  moreover have "3 + k = 2 + Suc k" by simp
  ultimately have "network_run rts arrival (3 + k) (drop (length (outbox (nodes ! l))) (outbox ld)) (nodes[l := ld]) = Inr (n3, [])"
    by (simp only:)
  then show ?thesis using r(1,6) n3(2,3) by (intro exI [of _ ld] exI [of _ n3]) (simp add: same_setup_def)
qed

lemma update_correct:
  assumes "idx = correct faulty (length nodes)" and "j < length idx"
  shows "map ((!) (nodes[idx ! j := x])) idx = (map ((!) nodes) idx)[j := x]"
proof (rule nth_equalityI)
  fix i assume "i < length (map ((!) (nodes[idx ! j := x])) idx)"
  then have i: "i < length idx" by simp
  have "distinct idx" "idx ! j < length nodes" using assms nth_mem [OF assms(2)] by (auto simp: correct_def)
  then have "idx ! i = idx ! j \<longleftrightarrow> i = j" using i assms(2) nth_eq_iff_index_eq by blast
  then show "map ((!) (nodes[idx ! j := x])) idx ! i = (map ((!) nodes) idx)[j := x] ! i"
    using i \<open>idx ! j < length nodes\<close> by (auto simp: nth_list_update)
qed simp

lemma correct_run:
  assumes "idx = correct faulty (length nodes)" and "j < length idx"
    and "network_run (\<lambda>j. rts (idx ! j)) (\<lambda>j. arrival (idx ! j)) k sent ((map ((!) nodes) idx)[j := ld]) = Inr (n1, [])"
  shows "\<exists>nodes'. mixed_run rts arrival faulty k sent (nodes[idx ! j := ld]) = Inr (nodes', []) \<and> (\<forall>i < length idx. nodes' ! (idx ! i) = n1 ! i)"
proof -
  have i: "idx = correct faulty (length (nodes[idx ! j := ld]))" using assms(1) by simp
  obtain nodes' where "mixed_run rts arrival faulty k sent (nodes[idx ! j := ld]) = Inr (nodes', [])" "map ((!) nodes') idx = n1"
    using mixed_run_correct [OF i] assms(3) unfolding update_correct [OF assms(1,2)] by blast
  then show ?thesis by auto
qed

lemma correct_length:
  assumes "idx = correct faulty (length nodes)" and "unat (num_nodes (nodes ! l)) = length nodes"
  shows "length idx < 2 ^ 64"
proof -
  have "length idx \<le> length nodes" unfolding assms(1) correct_def by (metis length_filter_le length_upt diff_zero)
  moreover have "unat (num_nodes (nodes ! l)) < 65536" using unsigned_less [of "num_nodes (nodes ! l)"] by simp
  ultimately show ?thesis using assms(2) by simp
qed

definition fault_node :: "u16 \<Rightarrow> Node" where
  "fault_node i = (fresh_node i)\<lparr>num_nodes := 4, num_faulty := 1\<rparr>"

section \<open>Properties of networks with silent nodes\<close>


end
