(* ===== verification/Client_Threads.thy ===== *)
theory Client_Threads
  imports Client Interfaces
begin

text \<open>
  The threads of \<^verbatim>\<open>ValidatorClientImpl\<close> (\<^verbatim>\<open>lib/comms/client.cc\<close>) with the two mutexes and the condition variable
  they share: the sending threads of \<^verbatim>\<open>RunThread_\<close>, the thread that broadcasts, and the destructor. A step is what
  one thread does between two synchronisation points, so the steps of the relation below interleave
  the way the threads can. The theory \<open>Client\<close> keeps the queues only; the last section relates the two.
\<close>

section \<open>The threads\<close>

datatype Agent = Worker nat | Caller

text \<open>
  The places of \<^verbatim>\<open>RunThread_\<close>: before the first \<^verbatim>\<open>st_mtx_.lock()\<close>, at the loop condition (with \<^verbatim>\<open>st_mtx_\<close>), before the construction of
  \<^verbatim>\<open>cv_lock\<close>, at the predicate of \<^verbatim>\<open>wait\<close>, after it was false, asleep, after \<^verbatim>\<open>wait\<close>, before \<^verbatim>\<open>SendMessage_\<close>, before the
  second \<^verbatim>\<open>st_mtx_.lock()\<close>, at the end of the body, where the destructor of \<^verbatim>\<open>cv_lock\<close> runs, and after the loop.
\<close>

datatype WorkerPC = W_start | W_test | W_lock | W_check | W_park | W_blocked | W_take | W_send Message | W_relock | W_unlock | W_done

text \<open>The thread that uses the client: between calls, before a \<^verbatim>\<open>notify_all\<close>, and in the destructor.\<close>

datatype CallerPC = C_ready | C_notify | C_stopping | C_join nat | C_ended

text \<open>
  \<open>ct_queue\<close> holds the queue objects, one for each thread, and \<open>ct_map\<close> the pointers of \<^verbatim>\<open>message_queues_\<close> to them.
  \<open>ct_pushed\<close> and \<open>ct_sent\<close> list what was put into each queue and what each thread has sent.
\<close>

record ClientSystem =
  ct_servers :: "string list"
  ct_leader :: string
  ct_threads :: nat
  ct_map :: "string \<rightharpoonup> nat"
  ct_queue :: "nat \<Rightarrow> Message list"
  ct_pc :: "nat \<Rightarrow> WorkerPC"
  ct_caller :: CallerPC
  ct_stop :: bool
  st_mtx :: "Agent option"
  mq_mtx :: "Agent option"
  ct_pushed :: "nat \<Rightarrow> Message list"
  ct_sent :: "nat \<Rightarrow> Message list"
  ct_out :: "(string \<times> chat_Message) list"

definition empty_ClientSystem :: "string list \<Rightarrow> string \<Rightarrow> ClientSystem" where
  "empty_ClientSystem servers leader = \<lparr>ct_servers = servers, ct_leader = leader, ct_threads = 0, ct_map = Map.empty, ct_queue = (\<lambda>_. []),
     ct_pc = (\<lambda>_. W_done), ct_caller = C_ready, ct_stop = False, st_mtx = None, mq_mtx = None,
     ct_pushed = (\<lambda>_. []), ct_sent = (\<lambda>_. []), ct_out = []\<rparr>"

definition start_thread :: "ClientSystem \<Rightarrow> nat \<Rightarrow> ClientSystem" where
  "start_thread s i = s\<lparr>ct_map := (ct_map s)(ct_servers s ! i \<mapsto> ct_threads s), ct_queue := (ct_queue s)(ct_threads s := []),
     ct_pc := (ct_pc s)(ct_threads s := W_start), ct_threads := ct_threads s + 1\<rparr>"

definition system_startThreads :: "ClientSystem \<Rightarrow> ClientSystem" where
  "system_startThreads s = (let num_servers = (of_nat (length (ct_servers s)) :: u8) in
     foldl start_thread (s\<lparr>ct_stop := False\<rparr>) [0..<unat num_servers])"

definition new_ClientSystem :: "Settings \<Rightarrow> ClientSystem" where
  "new_ClientSystem settings = system_startThreads (empty_ClientSystem (getValidatorAdresses settings) (fst (getLeaderAddress settings)))"

text \<open>The copy and the move constructor start threads and queues of their own; messages in the other's queues stay there.\<close>

definition copy_ClientSystem :: "ClientSystem \<Rightarrow> ClientSystem" where
  "copy_ClientSystem other = system_startThreads (empty_ClientSystem (ct_servers other) (ct_leader other))"

definition move_ClientSystem :: "ClientSystem \<Rightarrow> ClientSystem \<times> ClientSystem" where
  "move_ClientSystem other = (system_startThreads (empty_ClientSystem (ct_servers other) (ct_leader other)), other\<lparr>ct_servers := [], ct_leader := []\<rparr>)"

section \<open>Steps of a sending thread\<close>

definition goto :: "nat \<Rightarrow> WorkerPC \<Rightarrow> ClientSystem \<Rightarrow> ClientSystem" where
  "goto i pc s = s\<lparr>ct_pc := (ct_pc s)(i := pc)\<rparr>"

text \<open>\<^verbatim>\<open>ChatClient::Talk\<close> and \<^verbatim>\<open>SendMessage_\<close>: the message is converted and handed to gRPC; the status is not looked at.\<close>

definition Talk_request :: "Message \<Rightarrow> chat_Message res" where
  "Talk_request message = toProtoMessage message"

definition SendMessage :: "nat \<Rightarrow> Message \<Rightarrow> ClientSystem \<Rightarrow> ClientSystem res" where
  "SendMessage i msg s = rbind (Talk_request msg) (\<lambda>p.
     Inr (s\<lparr>ct_sent := (ct_sent s)(i := ct_sent s i @ [msg]), ct_out := ct_out s @ [(ct_servers s ! i, p)]\<rparr>))"

text \<open>
  \<^verbatim>\<open>None\<close> when the thread has to wait. Unlocking a mutex the thread does not hold is undefined behaviour; \<^verbatim>\<open>cv_lock\<close>
  unlocks \<^verbatim>\<open>mq_mtx_\<close> at the end of the body, whether or not the body has unlocked it already.
\<close>

definition RunThread_step :: "nat \<Rightarrow> ClientSystem \<Rightarrow> ClientSystem res option" where
  "RunThread_step i s = (case ct_pc s i of
       W_start \<Rightarrow> if st_mtx s = None then Some (Inr (goto i W_test (s\<lparr>st_mtx := Some (Worker i)\<rparr>))) else None
     | W_test \<Rightarrow> Some (Inr (goto i (if ct_stop s then W_done else W_lock) (s\<lparr>st_mtx := None\<rparr>)))
     | W_lock \<Rightarrow> if mq_mtx s = None then Some (Inr (goto i W_check (s\<lparr>mq_mtx := Some (Worker i)\<rparr>))) else None
     | W_check \<Rightarrow> Some (Inr (goto i (if ct_queue s i \<noteq> [] \<or> ct_stop s then W_take else W_park) s))
     | W_park \<Rightarrow> Some (Inr (goto i W_blocked (s\<lparr>mq_mtx := None\<rparr>)))
     | W_blocked \<Rightarrow> None
     | W_take \<Rightarrow> (case ct_queue s i of
           [] \<Rightarrow> Some (Inr (goto i W_relock s))
         | msg # q \<Rightarrow> Some (Inr (goto i (W_send msg) (s\<lparr>ct_queue := (ct_queue s)(i := q), mq_mtx := None\<rparr>))))
     | W_send msg \<Rightarrow> Some (rbind (SendMessage i msg s) (\<lambda>s. Inr (goto i W_relock s)))
     | W_relock \<Rightarrow> if st_mtx s = None then Some (Inr (goto i W_unlock (s\<lparr>st_mtx := Some (Worker i)\<rparr>))) else None
     | W_unlock \<Rightarrow> if mq_mtx s = Some (Worker i) then Some (Inr (goto i W_test (s\<lparr>mq_mtx := None\<rparr>)))
         else Some (Inl (Undefined_behaviour ''unlock of a mutex that is not held''))
     | W_done \<Rightarrow> None)"

section \<open>Steps of the caller\<close>

definition push_object :: "Message \<Rightarrow> string \<Rightarrow> ClientSystem \<Rightarrow> ClientSystem res" where
  "push_object msg addr s = (case ct_map s addr of
       None \<Rightarrow> Inl (Undefined_behaviour ''null queue'')
     | Some q \<Rightarrow> Inr (s\<lparr>ct_queue := (ct_queue s)(q := ct_queue s q @ [msg]), ct_pushed := (ct_pushed s)(q := ct_pushed s q @ [msg])\<rparr>))"

text \<open>The critical sections of \<^verbatim>\<open>Broadcast\<close> and \<^verbatim>\<open>SendToLeader\<close>, which hold \<^verbatim>\<open>mq_mtx_\<close> from beginning to end, one step each.\<close>

definition system_Broadcast :: "Message \<Rightarrow> ClientSystem \<Rightarrow> ClientSystem res option" where
  "system_Broadcast msg s = (if ct_caller s = C_ready \<and> mq_mtx s = None
     then Some (rbind (rfold (push_object msg) (ct_servers s) s) (\<lambda>s. Inr (s\<lparr>ct_caller := C_notify\<rparr>))) else None)"

definition system_SendToLeader :: "Message \<Rightarrow> ClientSystem \<Rightarrow> ClientSystem res option" where
  "system_SendToLeader msg s = (if ct_caller s = C_ready \<and> mq_mtx s = None
     then Some (rbind (push_object msg (ct_leader s) s) (\<lambda>s. Inr (s\<lparr>ct_caller := C_notify\<rparr>))) else None)"

definition notify_all :: "ClientSystem \<Rightarrow> ClientSystem" where
  "notify_all s = s\<lparr>ct_pc := (\<lambda>i. if ct_pc s i = W_blocked then W_lock else ct_pc s i)\<rparr>"

text \<open>The destructor: the flag is set under \<^verbatim>\<open>st_mtx_\<close>, not under the mutex of the condition variable.\<close>

definition destructor_stop :: "ClientSystem \<Rightarrow> ClientSystem option" where
  "destructor_stop s = (if ct_caller s = C_ready \<and> st_mtx s = None then Some (s\<lparr>ct_stop := True, ct_caller := C_stopping\<rparr>) else None)"

definition caller_turn :: "ClientSystem \<Rightarrow> ClientSystem option" where
  "caller_turn s = (case ct_caller s of
       C_ready \<Rightarrow> None
     | C_notify \<Rightarrow> Some ((notify_all s)\<lparr>ct_caller := C_ready\<rparr>)
     | C_stopping \<Rightarrow> Some ((notify_all s)\<lparr>ct_caller := C_join 0\<rparr>)
     | C_join k \<Rightarrow> if k < ct_threads s then if ct_pc s k = W_done then Some (s\<lparr>ct_caller := C_join (k + 1)\<rparr>) else None
         else Some (s\<lparr>ct_caller := C_ended\<rparr>)
     | C_ended \<Rightarrow> None)"

inductive client_moves :: "ClientSystem \<Rightarrow> ClientSystem \<Rightarrow> bool" where
  worker: "i < ct_threads s \<Longrightarrow> RunThread_step i s = Some (Inr s') \<Longrightarrow> client_moves s s'"
| broadcast: "system_Broadcast msg s = Some (Inr s') \<Longrightarrow> client_moves s s'"
| leader: "system_SendToLeader msg s = Some (Inr s') \<Longrightarrow> client_moves s s'"
| stop: "destructor_stop s = Some s' \<Longrightarrow> client_moves s s'"
| caller: "caller_turn s = Some s' \<Longrightarrow> client_moves s s'"

text \<open>A thread that waits on a condition variable may also wake up for no reason.\<close>

inductive client_step :: "ClientSystem \<Rightarrow> ClientSystem \<Rightarrow> bool" where
  moves: "client_moves s s' \<Longrightarrow> client_step s s'"
| spurious: "ct_pc s i = W_blocked \<Longrightarrow> client_step s (goto i W_lock s)"

section \<open>The invariant\<close>

definition in_flight :: "WorkerPC \<Rightarrow> Message list" where
  "in_flight pc = (case pc of W_send msg \<Rightarrow> [msg] | _ \<Rightarrow> [])"

definition worker_ok :: "ClientSystem \<Rightarrow> nat \<Rightarrow> bool" where
  "worker_ok s i \<longleftrightarrow> (ct_pc s i \<in> {W_check, W_park, W_take} \<longrightarrow> mq_mtx s = Some (Worker i))
     \<and> (ct_pc s i \<in> {W_test, W_unlock} \<longrightarrow> st_mtx s = Some (Worker i))
     \<and> (ct_pc s i \<notin> {W_check, W_park, W_take, W_relock, W_unlock} \<longrightarrow> mq_mtx s \<noteq> Some (Worker i))
     \<and> (ct_pc s i \<notin> {W_test, W_unlock} \<longrightarrow> st_mtx s \<noteq> Some (Worker i))
     \<and> ct_pushed s i = ct_sent s i @ in_flight (ct_pc s i) @ ct_queue s i
     \<and> (ct_sent s i \<noteq> [] \<longrightarrow> length (ct_sent s i) = 1 \<and> ct_pc s i \<in> {W_relock, W_unlock} \<and> mq_mtx s \<noteq> Some (Worker i))
     \<and> (ct_threads s \<le> i \<longrightarrow> ct_pc s i = W_done)"

definition client_inv :: "ClientSystem \<Rightarrow> bool" where
  "client_inv s \<longleftrightarrow> (\<forall>i. worker_ok s i) \<and> mq_mtx s \<noteq> Some Caller \<and> st_mtx s \<noteq> Some Caller
     \<and> (ct_stop s \<longleftrightarrow> ct_caller s \<in> {C_stopping, C_ended} \<union> range C_join)
     \<and> (\<forall>k. ct_caller s = C_join k \<longrightarrow> k \<le> ct_threads s)"

lemma worker_step_self:
  assumes "RunThread_step i s = Some (Inr s')" and "worker_ok s i" and "i < ct_threads s"
  shows "worker_ok s' i"
  using assms
  by (cases "ct_pc s i"; cases "ct_queue s i")
    (simp_all add: RunThread_step_def goto_def in_flight_def SendMessage_def Talk_request_def worker_ok_def split: if_splits, auto)

lemma worker_step_frame:
  assumes "RunThread_step i s = Some (Inr s')" and "worker_ok s i" and "j \<noteq> i"
  shows "ct_pc s' j = ct_pc s j \<and> ct_queue s' j = ct_queue s j \<and> ct_pushed s' j = ct_pushed s j \<and> ct_sent s' j = ct_sent s j
    \<and> (mq_mtx s' = Some (Worker j) \<longleftrightarrow> mq_mtx s = Some (Worker j)) \<and> (st_mtx s' = Some (Worker j) \<longleftrightarrow> st_mtx s = Some (Worker j))"
  using assms
  by (cases "ct_pc s i"; cases "ct_queue s i")
    (simp_all add: RunThread_step_def goto_def SendMessage_def Talk_request_def worker_ok_def split: if_splits, auto)

lemma worker_step_rest:
  assumes "RunThread_step i s = Some (Inr s')"
  shows "ct_stop s' = ct_stop s \<and> ct_caller s' = ct_caller s \<and> ct_threads s' = ct_threads s \<and> ct_servers s' = ct_servers s \<and> ct_map s' = ct_map s
    \<and> (mq_mtx s' = Some Caller \<longrightarrow> mq_mtx s = Some Caller) \<and> (st_mtx s' = Some Caller \<longrightarrow> st_mtx s = Some Caller)"
  using assms
  by (cases "ct_pc s i"; cases "ct_queue s i")
    (simp_all add: RunThread_step_def goto_def SendMessage_def Talk_request_def split: if_splits, auto)

lemma worker_ok_frame:
  assumes "worker_ok s j" and "ct_pc s' j = ct_pc s j" and "ct_queue s' j = ct_queue s j" and "ct_pushed s' j = ct_pushed s j" and "ct_sent s' j = ct_sent s j"
    and "mq_mtx s' = Some (Worker j) \<longleftrightarrow> mq_mtx s = Some (Worker j)" and "st_mtx s' = Some (Worker j) \<longleftrightarrow> st_mtx s = Some (Worker j)"
    and "ct_threads s' = ct_threads s"
  shows "worker_ok s' j"
  using assms(1) unfolding worker_ok_def assms(2-8) .

lemma worker_step_inv:
  assumes "RunThread_step i s = Some (Inr s')" and "client_inv s" and "i < ct_threads s"
  shows "client_inv s'"
proof -
  have ok: "worker_ok s j" for j using assms(2) by (simp add: client_inv_def)
  note r = worker_step_rest [OF assms(1)]
  have "worker_ok s' j" for j
  proof (cases "j = i")
    case False
    show ?thesis using worker_step_frame [OF assms(1) ok False] r by (intro worker_ok_frame [OF ok]) blast+
  qed (use worker_step_self [OF assms(1) ok assms(3)] in simp)
  then show ?thesis using r assms(2) by (simp add: client_inv_def)
qed

lemma push_object_inv:
  assumes "push_object msg addr s = Inr s'" and "client_inv s"
  shows "client_inv s' \<and> ct_map s' = ct_map s \<and> ct_threads s' = ct_threads s \<and> mq_mtx s' = mq_mtx s \<and> ct_caller s' = ct_caller s"
proof -
  obtain q where "ct_map s addr = Some q" and s': "s' = s\<lparr>ct_queue := (ct_queue s)(q := ct_queue s q @ [msg]), ct_pushed := (ct_pushed s)(q := ct_pushed s q @ [msg])\<rparr>"
    using assms(1) by (auto simp: push_object_def split: option.splits)
  have "worker_ok s' i" for i using assms(2) by (simp add: s' client_inv_def worker_ok_def)
  then show ?thesis using assms(2) by (simp add: s' client_inv_def)
qed

lemma push_all_inv:
  assumes "rfold (push_object msg) addrs s = Inr s'" and "client_inv s"
  shows "client_inv s' \<and> mq_mtx s' = mq_mtx s \<and> ct_caller s' = ct_caller s"
  using assms(1)
  by (rule rfold_Inr_induct [where P = "\<lambda>s'. client_inv s' \<and> mq_mtx s' = mq_mtx s \<and> ct_caller s' = ct_caller s"])
    (use assms(2) push_object_inv in \<open>auto\<close>)

definition caller_ok :: "bool \<Rightarrow> CallerPC \<Rightarrow> nat \<Rightarrow> bool" where
  "caller_ok stop c n \<longleftrightarrow> (stop \<longleftrightarrow> c \<in> {C_stopping, C_ended} \<union> range C_join) \<and> (\<forall>k. c = C_join k \<longrightarrow> k \<le> n)"

lemma caller_inv: "client_inv s \<Longrightarrow> caller_ok b c (ct_threads s) \<Longrightarrow> client_inv (s\<lparr>ct_stop := b, ct_caller := c\<rparr>)"
  by (simp add: client_inv_def worker_ok_def caller_ok_def)

lemma caller_inv': "client_inv s \<Longrightarrow> caller_ok (ct_stop s) c (ct_threads s) \<Longrightarrow> client_inv (s\<lparr>ct_caller := c\<rparr>)"
  using caller_inv [of s "ct_stop s" c] by simp

lemma notify_inv: "client_inv s \<Longrightarrow> client_inv (notify_all s)"
proof -
  have "worker_ok s i \<Longrightarrow> worker_ok (notify_all s) i" for i
    by (cases "ct_pc s i") (auto simp: notify_all_def worker_ok_def in_flight_def)
  then show "client_inv s \<Longrightarrow> client_inv (notify_all s)" by (simp add: client_inv_def) (simp add: notify_all_def)
qed

lemma caller_turn_inv:
  assumes "caller_turn s = Some t" and "client_inv s"
  shows "client_inv t"
proof (cases "ct_caller s")
  case C_notify
  then have "\<not> ct_stop s" using assms(2) by (auto simp: client_inv_def)
  then show ?thesis using assms C_notify by (auto simp: caller_turn_def notify_all_def caller_ok_def intro!: caller_inv' notify_inv [unfolded notify_all_def])
next
  case C_stopping
  then have "ct_stop s" using assms(2) by (simp add: client_inv_def)
  then show ?thesis using assms C_stopping by (auto simp: caller_turn_def notify_all_def caller_ok_def intro!: caller_inv' notify_inv [unfolded notify_all_def])
next
  case (C_join k)
  then have "ct_stop s" using assms(2) by (simp add: client_inv_def)
  then show ?thesis using assms C_join by (auto simp: caller_turn_def caller_ok_def intro!: caller_inv' split: if_splits)
qed (use assms in \<open>simp_all add: caller_turn_def\<close>)

lemma caller_call_inv:
  assumes "client_inv s" and "ct_caller s = C_ready"
  shows "client_inv (s\<lparr>ct_caller := C_notify\<rparr>)" and "client_inv (s\<lparr>ct_stop := True, ct_caller := C_stopping\<rparr>)"
proof -
  have "\<not> ct_stop s" using assms by (auto simp: client_inv_def)
  then show "client_inv (s\<lparr>ct_caller := C_notify\<rparr>)" using assms(1) by (auto simp: caller_ok_def intro!: caller_inv')
  show "client_inv (s\<lparr>ct_stop := True, ct_caller := C_stopping\<rparr>)" using assms(1) by (simp add: caller_ok_def caller_inv)
qed

lemma startThreads_run:
  assumes "\<And>i. ct_queue s i = []"
  shows "\<exists>m. foldl start_thread s is = s\<lparr>ct_map := m, ct_threads := ct_threads s + length is,
     ct_pc := (\<lambda>i. if ct_threads s \<le> i \<and> i < ct_threads s + length is then W_start else ct_pc s i)\<rparr>
     \<and> (\<forall>a q. m a = Some q \<longrightarrow> ct_map s a = Some q \<or> (ct_threads s \<le> q \<and> q < ct_threads s + length is \<and> a = ct_servers s ! (is ! (q - ct_threads s))))"
  using assms
proof (induction "is" arbitrary: s)
  case (Cons i "is")
  let ?s = "start_thread s i"
  have "ct_queue ?s j = []" for j using Cons.prems by (simp add: start_thread_def)
  from Cons.IH [OF this] obtain m where m: "foldl start_thread ?s is = ?s\<lparr>ct_map := m, ct_threads := ct_threads ?s + length is,
     ct_pc := (\<lambda>i. if ct_threads ?s \<le> i \<and> i < ct_threads ?s + length is then W_start else ct_pc ?s i)\<rparr>"
    "\<forall>a q. m a = Some q \<longrightarrow> ct_map ?s a = Some q \<or> (ct_threads ?s \<le> q \<and> q < ct_threads ?s + length is \<and> a = ct_servers ?s ! (is ! (q - ct_threads ?s)))"
    by blast
  have "ct_queue s = (ct_queue s)(ct_threads s := [])" using Cons.prems by auto
  then have "foldl start_thread s (i # is) = s\<lparr>ct_map := m, ct_threads := ct_threads s + length (i # is),
     ct_pc := (\<lambda>j. if ct_threads s \<le> j \<and> j < ct_threads s + length (i # is) then W_start else ct_pc s j)\<rparr>"
    using m(1) by (cases s) (auto simp: start_thread_def fun_eq_iff)
  moreover have "\<forall>a q. m a = Some q \<longrightarrow> ct_map s a = Some q \<or>
     (ct_threads s \<le> q \<and> q < ct_threads s + length (i # is) \<and> a = ct_servers s ! ((i # is) ! (q - ct_threads s)))"
    using m(2) by (auto simp: start_thread_def nth_Cons' Suc_le_eq diff_Suc split: if_splits nat.splits)
  ultimately show ?case by blast
next
  case Nil
  have "(\<lambda>i. if ct_threads s \<le> i \<and> i < ct_threads s then W_start else ct_pc s i) = ct_pc s" by (auto simp: fun_eq_iff)
  then show ?case by (intro exI [of _ "ct_map s"]) simp
qed

lemma startThreads_system:
  fixes servers :: "string list"
  defines "n \<equiv> unat (of_nat (length servers) :: u8)"
  shows "\<exists>m. system_startThreads (empty_ClientSystem servers leader) =
     (empty_ClientSystem servers leader)\<lparr>ct_map := m, ct_threads := n, ct_pc := (\<lambda>i. if i < n then W_start else W_done)\<rparr>
     \<and> (\<forall>a q. m a = Some q \<longrightarrow> q < n \<and> a = servers ! q)"
proof -
  let ?e = "empty_ClientSystem servers leader"
  have e: "ct_queue ?e i = []" "ct_stop ?e = False" "ct_threads ?e = 0" "ct_pc ?e i = W_done" "ct_map ?e a = None" "ct_servers ?e = servers" for i a
    by (simp_all add: empty_ClientSystem_def)
  have "system_startThreads ?e = foldl start_thread ?e [0..<n]"
    by (simp add: system_startThreads_def Let_def n_def e(6)) (simp add: empty_ClientSystem_def)
  then obtain m where "system_startThreads ?e = ?e\<lparr>ct_map := m, ct_threads := n, ct_pc := (\<lambda>i. if i < n then W_start else W_done)\<rparr>"
    "\<forall>a q. m a = Some q \<longrightarrow> q < n \<and> a = servers ! ([0..<n] ! q)"
    using startThreads_run [OF e(1), of "[0..<n]"] unfolding e by auto
  then show ?thesis by (intro exI [of _ m]) fastforce
qed

definition started_client :: "ClientSystem \<Rightarrow> bool" where
  "started_client s \<longleftrightarrow> (\<exists>servers leader. s = system_startThreads (empty_ClientSystem servers leader))"

lemma started_inv: "started_client s \<Longrightarrow> client_inv s"
proof -
  assume "started_client s"
  then obtain servers leader m n where "s = (empty_ClientSystem servers leader)\<lparr>ct_map := m, ct_threads := n, ct_pc := (\<lambda>i. if i < n then W_start else W_done)\<rparr>"
    unfolding started_client_def using startThreads_system by metis
  then show ?thesis by (auto simp: empty_ClientSystem_def client_inv_def worker_ok_def in_flight_def)
qed

interpretation sender: invariant_system started_client client_step client_inv
proof
  fix s t assume "client_step s t" and inv: "client_inv s"
  then show "client_inv t"
  proof (cases rule: client_step.cases)
    case moves
    then show ?thesis
    proof (cases rule: client_moves.cases)
      case (worker i)
      then show ?thesis using worker_step_inv inv by blast
    next
      case (broadcast msg)
      then obtain s1 where "rfold (push_object msg) (ct_servers s) s = Inr s1" "t = s1\<lparr>ct_caller := C_notify\<rparr>" "ct_caller s = C_ready"
        by (auto simp: system_Broadcast_def split: if_splits)
      then show ?thesis using push_all_inv [OF _ inv, of msg "ct_servers s" s1] caller_call_inv(1) by simp
    next
      case (leader msg)
      then obtain s1 where "push_object msg (ct_leader s) s = Inr s1" "t = s1\<lparr>ct_caller := C_notify\<rparr>" "ct_caller s = C_ready"
        by (auto simp: system_SendToLeader_def split: if_splits)
      then show ?thesis using push_object_inv [OF _ inv, of msg "ct_leader s" s1] caller_call_inv(1) by simp
    next
      case stop
      then show ?thesis using caller_call_inv(2) [OF inv] by (auto simp: destructor_stop_def split: if_splits)
    next
      case caller
      then show ?thesis using caller_turn_inv inv by blast
    qed
  next
    case (spurious i)
    then show ?thesis using inv by (auto simp: goto_def client_inv_def worker_ok_def in_flight_def)
  qed
qed (rule started_inv)

section \<open>Stopping\<close>

primrec worker_rank :: "WorkerPC \<Rightarrow> nat" where
  "worker_rank W_start = 2"
| "worker_rank W_test = 1"
| "worker_rank W_lock = 7"
| "worker_rank W_check = 6"
| "worker_rank W_park = 9"
| "worker_rank W_blocked = 8"
| "worker_rank W_take = 5"
| "worker_rank (W_send m) = 4"
| "worker_rank W_relock = 3"
| "worker_rank W_unlock = 2"
| "worker_rank W_done = 0"

primrec caller_rank :: "nat \<Rightarrow> CallerPC \<Rightarrow> nat" where
  "caller_rank n C_ready = 0"
| "caller_rank n C_notify = 0"
| "caller_rank n C_stopping = n + 2"
| "caller_rank n (C_join k) = n + 1 - k"
| "caller_rank n C_ended = 0"

definition client_rank :: "ClientSystem \<Rightarrow> nat" where
  "client_rank s = (\<Sum>i < ct_threads s. worker_rank (ct_pc s i)) + caller_rank (ct_threads s) (ct_caller s)"

lemma rank_update:
  fixes i n :: nat
  assumes "i < n" and "worker_rank x < worker_rank (pc i)"
  shows "(\<Sum>j < n. worker_rank ((pc(i := x)) j)) < (\<Sum>j < n. worker_rank (pc j))"
  using assms by (intro sum_strict_mono_ex1) auto

lemma stopped_worker_step:
  assumes "RunThread_step i s = Some (Inr s')" and "ct_stop s"
  shows "\<exists>pc. ct_pc s' = (ct_pc s)(i := pc) \<and> worker_rank pc < worker_rank (ct_pc s i)"
  using assms
  by (cases "ct_pc s i"; cases "ct_queue s i") (auto simp: RunThread_step_def goto_def SendMessage_def Talk_request_def split: if_splits)

lemma caller_turn_rank:
  assumes "caller_turn s = Some s'" and "client_inv s" and "ct_stop s"
  shows "client_rank s' < client_rank s"
proof -
  have n: "(\<Sum>i < ct_threads s. worker_rank (ct_pc (notify_all s) i)) \<le> (\<Sum>i < ct_threads s. worker_rank (ct_pc s i))"
    by (intro sum_mono) (simp add: notify_all_def)
  show ?thesis
  proof (cases "ct_caller s")
    case C_stopping
    then have s': "s' = (notify_all s)\<lparr>ct_caller := C_join 0\<rparr>" using assms(1) by (simp add: caller_turn_def)
    have "ct_threads (notify_all s) = ct_threads s" by (simp add: notify_all_def)
    then show ?thesis using n C_stopping by (simp add: s' client_rank_def)
  next
    case (C_join k)
    then have "k \<le> ct_threads s" using assms(2) by (simp add: client_inv_def)
    then show ?thesis using assms(1) C_join by (auto simp: caller_turn_def client_rank_def split: if_splits)
  qed (use assms in \<open>auto simp: caller_turn_def client_inv_def\<close>)
qed

lemma stopped_step_rank:
  assumes "client_step s s'" and "client_inv s" and "ct_stop s"
  shows "client_rank s' < client_rank s \<and> ct_stop s'"
  using assms(1)
proof (cases rule: client_step.cases)
  case (spurious i)
  have "ct_threads s \<le> i \<longrightarrow> ct_pc s i = W_done" using assms(2) unfolding client_inv_def worker_ok_def by blast
  then have "i < ct_threads s" using spurious(2) by (cases "i < ct_threads s") simp_all
  then show ?thesis using spurious rank_update [of i "ct_threads s" W_lock "ct_pc s"] assms(3) by (simp add: client_rank_def goto_def)
next
  case moves
  have c: "ct_caller s \<noteq> C_ready" using assms(2,3) by (auto simp: client_inv_def)
  from moves show ?thesis
  proof (cases rule: client_moves.cases)
    case (worker i)
    then show ?thesis
      using stopped_worker_step [OF worker(2) assms(3)] worker_step_rest [OF worker(2)] rank_update [OF worker(1)] assms(3)
      by (auto simp: client_rank_def)
  next
    case caller
    then show ?thesis using caller_turn_rank [OF caller assms(2,3)] assms(3)
      by (auto simp: caller_turn_def notify_all_def split: CallerPC.splits if_splits)
  qed (use c in \<open>auto simp: system_Broadcast_def system_SendToLeader_def destructor_stop_def\<close>)
qed

lemma stopped_steps_rank:
  assumes "(client_step ^^ k) s t" and "client_inv s" and "ct_stop s"
  shows "client_rank t + k \<le> client_rank s \<and> ct_stop t"
  using assms
proof (induction k arbitrary: t)
  case (Suc k)
  then obtain u where u: "(client_step ^^ k) s u" "client_step u t" by auto
  have "client_inv u" using sender.steps_inv [OF _ Suc.prems(2)] u(1) by (meson rtranclp_power)
  then show ?case using Suc.IH [OF u(1) Suc.prems(2,3)] stopped_step_rank [OF u(2)] by fastforce
qed simp

text \<open>A thread that neither ends nor sleeps can move, or another can.\<close>

lemma stuck_client:
  assumes "client_inv s" and "\<And>t. \<not> client_moves s t" and "\<And>i e. RunThread_step i s \<noteq> Some (Inl e)" and "ct_stop s"
  shows "(\<forall>i. ct_pc s i \<in> {W_done, W_blocked}) \<and> (ct_caller s = C_ended \<or> (\<exists>i < ct_threads s. ct_pc s i = W_blocked))"
proof -
  have ok: "worker_ok s i" for i using assms(1) by (simp add: client_inv_def)
  have none: "RunThread_step i s = None" for i
  proof (cases "i < ct_threads s")
    case True
    then show ?thesis using client_moves.worker [OF True] assms(2,3) by (metis option.exhaust sum.exhaust)
  next
    case False
    then show ?thesis using ok [of i] by (simp add: worker_ok_def RunThread_step_def)
  qed
  have st: "st_mtx s = None"
  proof (rule ccontr)
    assume "st_mtx s \<noteq> None"
    then obtain i where "st_mtx s = Some (Worker i)" using assms(1) by (metis Agent.exhaust client_inv_def option.exhaust)
    then have "ct_pc s i \<in> {W_test, W_unlock}" using ok [of i] by (auto simp: worker_ok_def)
    then show False using none [of i] by (auto simp: RunThread_step_def split: if_splits)
  qed
  have mq: "mq_mtx s = None"
  proof (rule ccontr)
    assume "mq_mtx s \<noteq> None"
    then obtain i where "mq_mtx s = Some (Worker i)" using assms(1) by (metis Agent.exhaust client_inv_def option.exhaust)
    then have "ct_pc s i \<in> {W_check, W_park, W_take, W_relock, W_unlock}" using ok [of i] by (auto simp: worker_ok_def)
    then show False using none [of i] st by (auto simp: RunThread_step_def split: if_splits list.splits)
  qed
  have w: "ct_pc s i \<in> {W_done, W_blocked}" for i
    using none [of i] st mq by (cases "ct_pc s i") (auto simp: RunThread_step_def split: if_splits list.splits)
  have "caller_turn s = None" using client_moves.caller [of s] assms(2) by (metis option.exhaust)
  moreover have "ct_caller s \<in> {C_stopping, C_ended} \<union> range C_join" using assms(1,4) by (simp add: client_inv_def)
  ultimately have "ct_caller s = C_ended \<or> (\<exists>k < ct_threads s. ct_pc s k \<noteq> W_done)"
    by (auto simp: caller_turn_def split: if_splits)
  then show ?thesis using w by blast
qed

section \<open>The queues behind the pointers\<close>

definition map_ok :: "ClientSystem \<Rightarrow> bool" where
  "map_ok s \<longleftrightarrow> (\<forall>a q. ct_map s a = Some q \<longrightarrow> ct_servers s ! q = a) \<and> (\<forall>i. ct_pushed s i \<noteq> [] \<longrightarrow> ct_map s (ct_servers s ! i) = Some i)"

lemma map_okD:
  assumes "map_ok s"
  shows "ct_map s a = Some q \<Longrightarrow> ct_servers s ! q = a" and "ct_pushed s i \<noteq> [] \<Longrightarrow> ct_map s (ct_servers s ! i) = Some i"
  using assms unfolding map_ok_def by blast+

lemma map_ok_frame: "map_ok s \<Longrightarrow> ct_map t = ct_map s \<Longrightarrow> ct_servers t = ct_servers s \<Longrightarrow> ct_pushed t = ct_pushed s \<Longrightarrow> map_ok t"
  by (simp add: map_ok_def)

lemma push_object_map:
  assumes "push_object msg addr s = Inr t" and "map_ok s"
  shows "map_ok t \<and> ct_servers t = ct_servers s \<and> ct_leader t = ct_leader s"
proof -
  obtain q where q: "ct_map s addr = Some q"
    and t: "t = s\<lparr>ct_queue := (ct_queue s)(q := ct_queue s q @ [msg]), ct_pushed := (ct_pushed s)(q := ct_pushed s q @ [msg])\<rparr>"
    using assms(1) by (auto simp: push_object_def split: option.splits)
  have "ct_servers s ! q = addr" using map_okD(1) [OF assms(2) q] .
  moreover have "map_ok t"
    unfolding map_ok_def
  proof (intro conjI allI impI)
    show "ct_servers t ! r = a" if "ct_map t a = Some r" for a r using that map_okD(1) [OF assms(2), of a r] by (simp add: t)
    show "ct_map t (ct_servers t ! i) = Some i" if "ct_pushed t i \<noteq> []" for i
      using that q calculation map_okD(2) [OF assms(2), of i] by (cases "i = q") (simp_all add: t)
  qed
  ultimately show ?thesis by (simp add: t)
qed

lemma worker_step_map:
  assumes "RunThread_step i s = Some (Inr t)" and "map_ok s"
  shows "map_ok t"
proof -
  have "ct_pushed t = ct_pushed s"
    using assms(1) by (cases "ct_pc s i"; cases "ct_queue s i") (auto simp: RunThread_step_def goto_def SendMessage_def Talk_request_def split: if_splits)
  then show ?thesis using worker_step_rest [OF assms(1)] assms(2) by (auto intro: map_ok_frame)
qed

lemma client_moves_map:
  assumes "client_moves s t" and "map_ok s"
  shows "map_ok t"
  using assms(1)
proof (cases rule: client_moves.cases)
  case (worker i)
  then show ?thesis using worker_step_map assms(2) by blast
next
  case (broadcast msg)
  then obtain u where u: "rfold (push_object msg) (ct_servers s) s = Inr u" and t: "t = u\<lparr>ct_caller := C_notify\<rparr>"
    by (auto simp: system_Broadcast_def split: if_splits)
  have "map_ok u" using u by (rule rfold_Inr_induct) (use assms(2) push_object_map in auto)
  then show ?thesis by (rule map_ok_frame) (simp_all add: t)
next
  case (leader msg)
  then obtain u where "push_object msg (ct_leader s) s = Inr u" and t: "t = u\<lparr>ct_caller := C_notify\<rparr>"
    by (auto simp: system_SendToLeader_def split: if_splits)
  then have "map_ok u" using push_object_map assms(2) by blast
  then show ?thesis by (rule map_ok_frame) (simp_all add: t)
next
  case stop
  then show ?thesis using assms(2) by (auto simp: destructor_stop_def map_ok_def split: if_splits)
next
  case caller
  then show ?thesis using assms(2) by (auto simp: caller_turn_def notify_all_def map_ok_def split: CallerPC.splits if_splits)
qed

interpretation pointers: invariant_system started_client client_step map_ok
proof
  show "map_ok s" if started: "started_client s" for s
  proof -
    obtain servers leader where s: "s = system_startThreads (empty_ClientSystem servers leader)" using started by (auto simp: started_client_def)
    show ?thesis using startThreads_system [of servers leader] unfolding s by (auto simp: map_ok_def empty_ClientSystem_def)
  qed
  show "map_ok t" if "client_step s t" "map_ok s" for s t
    using that by (cases rule: client_step.cases) (auto simp: goto_def intro: client_moves_map map_ok_frame)
qed

text \<open>What the client of the theory \<open>Client\<close> sees: the message a thread is about to send is still in the queue.\<close>

definition abs_client :: "ClientSystem \<Rightarrow> ValidatorClient" where
  "abs_client s = \<lparr>cl_servers = ct_servers s, cl_leader = ct_leader s,
     message_queues = (\<lambda>a. map_option (\<lambda>q. in_flight (ct_pc s q) @ ct_queue s q) (ct_map s a)), cl_sent = ct_out s\<rparr>"

lemma map_option_point:
  assumes "m k = Some q" and "\<And>a. m a = Some q \<Longrightarrow> a = k" and "\<And>r. r \<noteq> q \<Longrightarrow> f r = g r"
  shows "(\<lambda>a. map_option f (m a)) = (\<lambda>a. map_option g (m a))(k \<mapsto> f q)"
proof
  fix a
  show "map_option f (m a) = ((\<lambda>a. map_option g (m a))(k \<mapsto> f q)) a"
  proof (cases "a = k")
    case False
    then have "m a \<noteq> Some q" using assms(2) by blast
    then show ?thesis using False assms(3) by (cases "m a") auto
  qed (simp add: assms(1))
qed

lemma abs_push_object:
  assumes "push_object msg addr s = Inr t" and "map_ok s"
  shows "push_queue addr msg (abs_client s) = Inr (abs_client t)"
proof -
  obtain q where q: "ct_map s addr = Some q"
    and t: "t = s\<lparr>ct_queue := (ct_queue s)(q := ct_queue s q @ [msg]), ct_pushed := (ct_pushed s)(q := ct_pushed s q @ [msg])\<rparr>"
    using assms(1) by (auto simp: push_object_def split: option.splits)
  have inj: "ct_map s a = Some q \<Longrightarrow> a = addr" for a using map_okD(1) [OF assms(2)] q by metis
  have "(\<lambda>a. map_option (\<lambda>i. in_flight (ct_pc s i) @ ((ct_queue s)(q := ct_queue s q @ [msg])) i) (ct_map s a))
     = (\<lambda>a. map_option (\<lambda>q. in_flight (ct_pc s q) @ ct_queue s q) (ct_map s a))(addr \<mapsto> (in_flight (ct_pc s q) @ ct_queue s q) @ [msg])"
    by (subst map_option_point [where m = "ct_map s", OF q inj, where g = "\<lambda>q. in_flight (ct_pc s q) @ ct_queue s q"]) simp_all
  then show ?thesis using q by (simp add: t push_queue_def abs_client_def)
qed

lemma abs_broadcast:
  assumes "rfold (push_object msg) addrs s = Inr t" and "map_ok s"
  shows "rfold (\<lambda>addr c. push_queue addr msg c) addrs (abs_client s) = Inr (abs_client t)"
  using assms
proof (induction addrs arbitrary: s)
  case (Cons a addrs)
  then obtain u where "push_object msg a s = Inr u" "rfold (push_object msg) addrs u = Inr t" by auto
  then show ?case using Cons.IH [of u] abs_push_object [of msg a s u] push_object_map [of msg a s u] Cons.prems(2) by simp
qed simp

lemma abs_worker_step:
  assumes "RunThread_step i s = Some (Inr t)" and "map_ok s" and "client_inv s"
  shows "abs_client t = abs_client s \<or> RunThread_turn (ct_servers s ! i) (abs_client s) = Inr (abs_client t)"
proof (cases "\<exists>msg. ct_pc s i = W_send msg")
  case True
  then obtain msg where pc: "ct_pc s i = W_send msg" ..
  then obtain p where p: "toProtoMessage msg = Inr p"
    and t: "t = goto i W_relock (s\<lparr>ct_sent := (ct_sent s)(i := ct_sent s i @ [msg]), ct_out := ct_out s @ [(ct_servers s ! i, p)]\<rparr>)"
    using assms(1) by (auto simp: RunThread_step_def SendMessage_def Talk_request_def)
  have "worker_ok s i" using assms(3) by (simp add: client_inv_def)
  then have "ct_pushed s i \<noteq> []" using pc by (simp add: worker_ok_def in_flight_def)
  then have m: "ct_map s (ct_servers s ! i) = Some i" by (rule map_okD(2) [OF assms(2)])
  have inj: "ct_map s a = Some i \<Longrightarrow> a = ct_servers s ! i" for a using map_okD(1) [OF assms(2)] by metis
  have "(\<lambda>a. map_option (\<lambda>q. in_flight (((ct_pc s)(i := W_relock)) q) @ ct_queue s q) (ct_map s a))
     = (\<lambda>a. map_option (\<lambda>q. in_flight (ct_pc s q) @ ct_queue s q) (ct_map s a))(ct_servers s ! i \<mapsto> ct_queue s i)"
    by (subst map_option_point [where m = "ct_map s", OF m inj, where g = "\<lambda>q. in_flight (ct_pc s q) @ ct_queue s q"]) (simp_all add: in_flight_def)
  then show ?thesis using m pc p by (simp add: t goto_def RunThread_turn_def abs_client_def in_flight_def)
next
  case False
  then have "in_flight (ct_pc t q) @ ct_queue t q = in_flight (ct_pc s q) @ ct_queue s q" for q
    using assms(1) by (cases "ct_pc s i"; cases "ct_queue s i") (auto simp: RunThread_step_def goto_def in_flight_def split: if_splits)
  moreover have "ct_servers t = ct_servers s \<and> ct_leader t = ct_leader s \<and> ct_map t = ct_map s \<and> ct_out t = ct_out s"
    using assms(1) False by (cases "ct_pc s i"; cases "ct_queue s i") (auto simp: RunThread_step_def goto_def split: if_splits)
  ultimately show ?thesis by (simp add: abs_client_def)
qed

section \<open>A missed notification\<close>

text \<open>The first thread has found its queue empty and the flag unset, and is about to sleep.\<close>

definition about_to_sleep :: "ClientSystem \<Rightarrow> ClientSystem" where
  "about_to_sleep s = goto 0 W_park (s\<lparr>mq_mtx := Some (Worker 0)\<rparr>)"

definition missed_notification :: "ClientSystem \<Rightarrow> ClientSystem" where
  "missed_notification s = goto 0 W_blocked ((notify_all ((about_to_sleep s)\<lparr>ct_stop := True, ct_caller := C_stopping\<rparr>))\<lparr>ct_caller := C_join 0, mq_mtx := None\<rparr>)"

lemma reach_sleep:
  assumes "ct_pc s 0 = W_start" and "st_mtx s = None" and "mq_mtx s = None" and "\<not> ct_stop s" and "ct_queue s 0 = []" and "0 < ct_threads s"
  shows "client_moves\<^sup>*\<^sup>* s (about_to_sleep s)"
proof -
  let ?s1 = "goto 0 W_test (s\<lparr>st_mtx := Some (Worker 0)\<rparr>)" let ?s2 = "goto 0 W_lock s"
  let ?s3 = "goto 0 W_check (s\<lparr>mq_mtx := Some (Worker 0)\<rparr>)"
  have m: "client_moves u v" if "RunThread_step 0 u = Some (Inr v)" "ct_threads u = ct_threads s" for u v
    using client_moves.worker [OF _ that(1)] that(2) assms(6) by simp
  have "client_moves s ?s1" by (rule m) (simp_all add: RunThread_step_def assms(1,2))
  moreover have "client_moves ?s1 ?s2" by (rule m) (use assms(2,4) in \<open>simp_all add: RunThread_step_def goto_def\<close>)
  moreover have "client_moves ?s2 ?s3" by (rule m) (use assms(3) in \<open>simp_all add: RunThread_step_def goto_def\<close>)
  moreover have "client_moves ?s3 (about_to_sleep s)"
    by (rule m) (use assms(4,5) in \<open>simp_all add: RunThread_step_def goto_def about_to_sleep_def\<close>)
  ultimately show ?thesis by (meson converse_rtranclp_into_rtranclp rtranclp.rtrancl_refl)
qed

lemma reach_missed:
  assumes "st_mtx s = None" and "ct_caller s = C_ready" and "0 < ct_threads s"
  shows "client_moves\<^sup>*\<^sup>* (about_to_sleep s) (missed_notification s)"
proof -
  let ?s1 = "(about_to_sleep s)\<lparr>ct_stop := True, ct_caller := C_stopping\<rparr>" let ?s2 = "(notify_all ?s1)\<lparr>ct_caller := C_join 0\<rparr>"
  have "client_moves (about_to_sleep s) ?s1"
    using assms(1,2) by (intro client_moves.stop) (simp add: destructor_stop_def about_to_sleep_def goto_def)
  moreover have "client_moves ?s1 ?s2" by (intro client_moves.caller) (simp add: caller_turn_def)
  moreover have "client_moves ?s2 (missed_notification s)"
    using assms(3) by (intro client_moves.worker [of 0])
      (simp_all add: RunThread_step_def missed_notification_def notify_all_def about_to_sleep_def goto_def)
  ultimately show ?thesis by (meson converse_rtranclp_into_rtranclp rtranclp.rtrancl_refl)
qed

lemma asleep_for_good:
  assumes "client_moves\<^sup>*\<^sup>* s t" and "ct_caller s = C_join 0" and "ct_pc s 0 = W_blocked" and "0 < ct_threads s" and "client_inv s"
  shows "ct_caller t = C_join 0 \<and> ct_pc t 0 = W_blocked \<and> 0 < ct_threads t \<and> client_inv t"
  using assms
proof (induction rule: rtranclp_induct)
  case (step t u)
  then have t: "ct_caller t = C_join 0" "ct_pc t 0 = W_blocked" "0 < ct_threads t" "client_inv t" by blast+
  have i: "client_inv u" using sender.step_inv [OF client_step.moves [OF step(2)] t(4)] .
  from step(2) show ?case
  proof (cases rule: client_moves.cases)
    case (worker j)
    have "j \<noteq> 0"
    proof
      assume "j = 0"
      then show False using worker(2) t(2) by (simp add: RunThread_step_def)
    qed
    moreover have "worker_ok t j" using t(4) by (simp add: client_inv_def)
    ultimately show ?thesis using worker_step_frame [OF worker(2), of 0] worker_step_rest [OF worker(2)] t i by simp
  qed (use t in \<open>auto simp: system_Broadcast_def system_SendToLeader_def destructor_stop_def caller_turn_def\<close>)
qed simp

section \<open>Examples\<close>

definition demo_client :: ClientSystem where
  "demo_client = system_startThreads (empty_ClientSystem [''a:1''] ''a:1'')"

lemma demo_client_started: "started_client demo_client"
  by (auto simp: demo_client_def started_client_def)

lemma demo_client_eq: "demo_client = (empty_ClientSystem [''a:1''] ''a:1'')\<lparr>ct_map := [''a:1'' \<mapsto> 0], ct_threads := 1,
    ct_pc := (\<lambda>_. W_done)(0 := W_start)\<rparr>"
  by (simp add: demo_client_def system_startThreads_def start_thread_def empty_ClientSystem_def Let_def fun_eq_iff)

definition demo_message :: Message where
  "demo_message = new_Message READY demo_block 2 3"

lemma demo_message_sent: "\<exists>p. toProtoMessage demo_message = Inr p"
proof -
  have "sendable demo_block"
    using demo_public_storable by (simp add: sendable_def demo_block_def new_Block_def example_spend_def key_writable_def)
  then show ?thesis using toProtoMessage_round_trip [of demo_message READY] by (auto simp: new_Message_def demo_message_def)
qed

text \<open>The message is in the queue and the threads have been notified.\<close>

definition demo_queued :: ClientSystem where
  "demo_queued = demo_client\<lparr>ct_queue := (\<lambda>_. [])(0 := [demo_message]), ct_pushed := (\<lambda>_. [])(0 := [demo_message]), ct_caller := C_notify\<rparr>"

lemma demo_broadcast: "client_step demo_client demo_queued"
  by (rule client_step.moves, rule client_moves.broadcast [of demo_message])
    (simp add: demo_client_eq demo_queued_def system_Broadcast_def push_object_def empty_ClientSystem_def)

fun worker_run :: "nat \<Rightarrow> nat \<Rightarrow> ClientSystem \<Rightarrow> ClientSystem res option" where
  "worker_run i 0 s = Some (Inr s)"
| "worker_run i (Suc k) s = (case RunThread_step i s of Some (Inr t) \<Rightarrow> worker_run i k t | r \<Rightarrow> r)"

lemma worker_run_steps: "worker_run i k s = Some (Inr t) \<Longrightarrow> i < ct_threads s \<Longrightarrow> client_step\<^sup>*\<^sup>* s t"
proof (induction k arbitrary: s)
  case (Suc k)
  then obtain u where u: "RunThread_step i s = Some (Inr u)" "worker_run i k u = Some (Inr t)" by (auto split: option.splits sum.splits)
  have "ct_threads u = ct_threads s" using worker_step_rest [OF u(1)] by blast
  moreover have "client_step s u" using u(1) Suc.prems(2) by (intro client_step.moves client_moves.worker)
  ultimately show ?case using Suc.IH [OF u(2)] Suc.prems(2) by (simp add: converse_rtranclp_into_rtranclp)
qed simp

section \<open>Properties of the threads\<close>

text \<open>
  C18. The threads implement the queues: every step of the threads is a step of the client without threads, that
  is a broadcast, a message to the leader or the sending of the first message of a queue, or it changes nothing a caller
  can observe. So each server gets the messages in the order they were queued, up to the point where the behaviour is undefined.
\<close>

theorem client_threads_refine:
  assumes "started_client s0" and "client_step\<^sup>*\<^sup>* s0 s" and "client_step s t"
  shows "abs_client t = abs_client s \<or> (\<exists>addr. RunThread_turn addr (abs_client s) = Inr (abs_client t))
    \<or> (\<exists>msg. Broadcast msg (abs_client s) = Inr (abs_client t)) \<or> (\<exists>msg. Client_SendToLeader msg (abs_client s) = Inr (abs_client t))"
proof -
  have m: "map_ok s" and i: "client_inv s" using assms(1,2) by (auto intro: pointers.reachable_inv sender.reachable_inv)
  have asleep: "in_flight (if ct_pc s q = W_blocked then W_lock else ct_pc s q) = in_flight (ct_pc s q)" for q by (simp add: in_flight_def)
  from assms(3) show ?thesis
  proof (cases rule: client_step.cases)
    case (spurious j)
    have "in_flight (((ct_pc s)(j := W_lock)) q) = in_flight (ct_pc s q)" for q using spurious(2) by (simp add: in_flight_def)
    then show ?thesis unfolding spurious(1) by (simp add: goto_def abs_client_def)
  next
    case moves
    then show ?thesis
    proof (cases rule: client_moves.cases)
      case (worker j)
      then show ?thesis using abs_worker_step [OF worker(2) m i] by blast
    next
      case (broadcast msg)
      then obtain u where u: "rfold (push_object msg) (ct_servers s) s = Inr u" "t = u\<lparr>ct_caller := C_notify\<rparr>"
        by (auto simp: system_Broadcast_def split: if_splits)
      have "Broadcast msg (abs_client s) = Inr (abs_client t)"
        using abs_broadcast [OF u(1) m] u(2) by (simp add: Broadcast_def abs_client_def)
      then show ?thesis by blast
    next
      case (leader msg)
      then obtain u where u: "push_object msg (ct_leader s) s = Inr u" "t = u\<lparr>ct_caller := C_notify\<rparr>"
        by (auto simp: system_SendToLeader_def split: if_splits)
      have "Client_SendToLeader msg (abs_client s) = Inr (abs_client t)"
        using abs_push_object [OF u(1) m] u(2) by (simp add: Client_SendToLeader_def abs_client_def)
      then show ?thesis by blast
    next
      case stop
      then show ?thesis by (auto simp: destructor_stop_def abs_client_def split: if_splits)
    next
      case caller
      then show ?thesis by (auto simp: caller_turn_def notify_all_def abs_client_def asleep split: CallerPC.splits if_splits)
    qed
  qed
qed

theorem client_threads_refine_witness:
  "client_step demo_client demo_queued \<and> message_queues (abs_client demo_queued) ''a:1'' = Some [demo_message]
   \<and> (abs_client demo_queued = abs_client demo_client \<or> (\<exists>addr. RunThread_turn addr (abs_client demo_client) = Inr (abs_client demo_queued))
    \<or> (\<exists>msg. Broadcast msg (abs_client demo_client) = Inr (abs_client demo_queued))
    \<or> (\<exists>msg. Client_SendToLeader msg (abs_client demo_client) = Inr (abs_client demo_queued)))"
  using client_threads_refine [OF demo_client_started rtranclp.rtrancl_refl demo_broadcast] demo_broadcast
  by (simp add: demo_queued_def demo_client_eq abs_client_def empty_ClientSystem_def in_flight_def)

text \<open>
  C32. A thread unlocks the mutex of the queues twice: whatever the interleaving, a thread that has sent a message, which is then the
  first one of its queue, is on its way to the end of the loop body, where the destructor of \<^verbatim>\<open>cv_lock\<close> unlocks a mutex the
  thread has given back already. So no thread gets to a second message with defined behaviour.
\<close>

theorem sender_unlocks_twice:
  assumes "started_client s0" and "client_step\<^sup>*\<^sup>* s0 s" and "ct_sent s i \<noteq> []"
  shows "ct_sent s i = [hd (ct_pushed s i)] \<and> (ct_pc s i = W_relock \<or>
     ct_pc s i = W_unlock \<and> RunThread_step i s = Some (Inl (Undefined_behaviour ''unlock of a mutex that is not held'')))"
proof -
  have "client_inv s" using sender.reachable_inv [OF assms(1,2)] .
  then have ok: "worker_ok s i" by (simp add: client_inv_def)
  then have n: "length (ct_sent s i) = 1" and pc: "ct_pc s i \<in> {W_relock, W_unlock}" and mq: "mq_mtx s \<noteq> Some (Worker i)"
    and p: "ct_pushed s i = ct_sent s i @ in_flight (ct_pc s i) @ ct_queue s i" using assms(3) by (auto simp: worker_ok_def)
  obtain msg where "ct_sent s i = [msg]" using n by (cases "ct_sent s i") auto
  then show ?thesis using p pc mq by (auto simp: RunThread_step_def)
qed

theorem sender_unlocks_twice_witness:
  "\<exists>s. client_step\<^sup>*\<^sup>* demo_client s \<and> ct_sent s 0 = [demo_message]
     \<and> RunThread_step 0 s = Some (Inl (Undefined_behaviour ''unlock of a mutex that is not held''))"
proof -
  obtain p where "toProtoMessage demo_message = Inr p" using demo_message_sent ..
  then obtain s where s: "worker_run 0 7 demo_queued = Some (Inr s)" "ct_sent s 0 = [demo_message]" "ct_pc s 0 = W_unlock"
    by (simp add: numeral_eq_Suc demo_queued_def demo_client_eq empty_ClientSystem_def RunThread_step_def goto_def SendMessage_def Talk_request_def)
  have "client_step\<^sup>*\<^sup>* demo_queued s" using worker_run_steps [OF s(1)] by (simp add: demo_queued_def demo_client_eq)
  then have r: "client_step\<^sup>*\<^sup>* demo_client s" using demo_broadcast by (rule converse_rtranclp_into_rtranclp [rotated])
  show ?thesis using sender_unlocks_twice [OF demo_client_started r, of 0] r s(2,3) by auto
qed

text \<open>
  C20. A client that is being destroyed comes to rest: once the flag is set, the number of steps all threads can still take,
  spurious wake-ups included, is bounded by \<open>client_rank\<close>; and when no thread can move and none has failed, every thread has ended
  or sleeps, and the destructor has returned unless a thread sleeps.
\<close>

theorem stopped_client_ends:
  assumes "started_client s0" and "client_step\<^sup>*\<^sup>* s0 s" and "ct_stop s" and "(client_step ^^ k) s t"
  shows "k \<le> client_rank s
    \<and> ((\<forall>u. \<not> client_moves t u) \<longrightarrow> (\<forall>i e. RunThread_step i t \<noteq> Some (Inl e)) \<longrightarrow>
        (\<forall>i. ct_pc t i \<in> {W_done, W_blocked}) \<and> (ct_caller t = C_ended \<or> (\<exists>i < ct_threads t. ct_pc t i = W_blocked)))"
proof -
  have s: "client_inv s" using sender.reachable_inv [OF assms(1,2)] .
  have t: "client_inv t" using sender.steps_inv [OF _ s] assms(4) by (meson rtranclp_power)
  note r = stopped_steps_rank [OF assms(4) s assms(3)]
  then have stop: "ct_stop t" by blast
  have "(\<forall>i. ct_pc t i \<in> {W_done, W_blocked}) \<and> (ct_caller t = C_ended \<or> (\<exists>i < ct_threads t. ct_pc t i = W_blocked))"
    if "\<forall>u. \<not> client_moves t u" "\<forall>i e. RunThread_step i t \<noteq> Some (Inl e)" using stuck_client [OF t _ _ stop] that by blast
  then show ?thesis using r by simp
qed

theorem stopped_client_ends_witness:
  "\<exists>s t. client_step\<^sup>*\<^sup>* demo_client s \<and> ct_stop s \<and> (client_step ^^ 5) s t \<and> 5 \<le> client_rank s \<and> client_rank s = 5 \<and> ct_caller t = C_ended"
proof -
  let ?s = "demo_client\<lparr>ct_stop := True, ct_caller := C_stopping\<rparr>"
  let ?t1 = "demo_client\<lparr>ct_stop := True, ct_caller := C_join 0\<rparr>"
  let ?t2 = "goto 0 W_test (?t1\<lparr>st_mtx := Some (Worker 0)\<rparr>)" let ?t3 = "goto 0 W_done ?t1"
  let ?t4 = "?t3\<lparr>ct_caller := C_join 1\<rparr>" let ?t5 = "?t3\<lparr>ct_caller := C_ended\<rparr>"
  note d = demo_client_eq empty_ClientSystem_def goto_def RunThread_step_def caller_turn_def notify_all_def destructor_stop_def
  have s: "client_step demo_client ?s" by (intro client_step.moves client_moves.stop) (simp add: d)
  have "client_step ?s ?t1" by (intro client_step.moves client_moves.caller) (simp add: d fun_eq_iff)
  moreover have "client_step ?t1 ?t2" "client_step ?t2 ?t3" by (intro client_step.moves client_moves.worker [of 0]; simp add: d)+
  moreover have "client_step ?t3 ?t4" "client_step ?t4 ?t5" by (intro client_step.moves client_moves.caller; simp add: d)+
  ultimately have "(client_step ^^ Suc (Suc (Suc (Suc (Suc 0))))) ?s ?t5" by (meson relpowp_Suc_I relpowp_0_I)
  moreover have "Suc (Suc (Suc (Suc (Suc 0)))) = 5" by simp
  ultimately have r: "(client_step ^^ 5) ?s ?t5" by (simp only:)
  have "client_rank ?s = 5" by (simp add: d client_rank_def)
  moreover have c: "client_step\<^sup>*\<^sup>* demo_client ?s" using s by (rule r_into_rtranclp)
  ultimately show ?thesis using stopped_client_ends [OF demo_client_started c _ r] r
    by (intro exI [of _ ?s] exI [of _ ?t5]) auto
qed

text \<open>
  C36. The destructor may wait forever: for every client with at least one server there is an interleaving in which
  the flag is set and the notification is sent after a thread has looked at the flag and before it sleeps, and then, unless
  that thread wakes up spuriously, the destructor waits for it whatever the other threads do.
\<close>

theorem destructor_may_hang:
  assumes "started_client s0" and "0 < ct_threads s0"
  shows "\<exists>s. client_moves\<^sup>*\<^sup>* s0 s \<and> ct_stop s \<and> (\<forall>t. client_moves\<^sup>*\<^sup>* s t \<longrightarrow> ct_caller t = C_join 0 \<and> ct_pc t 0 = W_blocked)"
proof -
  obtain servers leader m n where "s0 = (empty_ClientSystem servers leader)\<lparr>ct_map := m, ct_threads := n, ct_pc := (\<lambda>i. if i < n then W_start else W_done)\<rparr>"
    using assms(1) startThreads_system unfolding started_client_def by metis
  then have "ct_pc s0 0 = W_start" "st_mtx s0 = None" "mq_mtx s0 = None" "\<not> ct_stop s0" "ct_queue s0 0 = []" "ct_caller s0 = C_ready"
    using assms(2) by (simp_all add: empty_ClientSystem_def)
  then have r: "client_moves\<^sup>*\<^sup>* s0 (missed_notification s0)"
    using rtranclp_trans [OF reach_sleep reach_missed] assms(2) by simp
  have f: "ct_caller (missed_notification s0) = C_join 0" "ct_pc (missed_notification s0) 0 = W_blocked" "0 < ct_threads (missed_notification s0)"
    "ct_stop (missed_notification s0)"
    using assms(2) by (simp_all add: missed_notification_def about_to_sleep_def notify_all_def goto_def)
  have "client_step\<^sup>*\<^sup>* s0 (missed_notification s0)" using r by (rule rtranclp_mono [THEN predicate2D, rotated]) (auto intro: client_step.moves)
  then have "client_inv (missed_notification s0)" by (rule sender.reachable_inv [OF assms(1)])
  then show ?thesis using asleep_for_good [OF _ f(1-3)] r f(4) by blast
qed

theorem destructor_may_hang_witness:
  "\<exists>s. client_moves\<^sup>*\<^sup>* demo_client s \<and> ct_stop s \<and> (\<forall>t. client_moves\<^sup>*\<^sup>* s t \<longrightarrow> ct_caller t = C_join 0)"
  using destructor_may_hang [OF demo_client_started] by (auto simp: demo_client_eq)

end
