(* ===== verification/Server_Process.thy ===== *)
theory Server_Process
  imports Server
begin

text \<open>
  The life of a \<^verbatim>\<open>ChatServiceImpl\<close> (\<^verbatim>\<open>lib/comms/server.cc\<close>): \<^verbatim>\<open>Run\<close>, which binds the port and serves in the loop of \<^verbatim>\<open>HandleRpcs\<close>,
  and the destructor, which runs in another thread. The completions the queue of gRPC hands out are the input of the loop.
\<close>

section \<open>Running and stopping\<close>

record ServerProcess =
  sp_server :: Server
  sp_address :: string
  is_running :: bool
  sp_shutdown :: bool

definition server_address :: "u16 \<Rightarrow> string" where
  "server_address port = ''0.0.0.0:'' @ show_nat (unat port)"

definition ChatService_Run :: "u16 \<Rightarrow> Server \<Rightarrow> ServerProcess" where
  "ChatService_Run port s = \<lparr>sp_server = HandleRpcs_start s, sp_address = server_address port, is_running = True, sp_shutdown = False\<rparr>"

definition ChatService_destroy :: "ServerProcess \<Rightarrow> ServerProcess" where
  "ChatService_destroy p = p\<lparr>is_running := False, sp_shutdown := True\<rparr>"

text \<open>
  What \<^verbatim>\<open>cq_->Next\<close> returns: an object with its request and the flag \<^verbatim>\<open>ok\<close>, or that the queue was shut down and is empty. After a
  shutdown gRPC returns the objects that still wait for a request with the flag unset.
\<close>

datatype completion = Completion nat request bool | Drained

definition HandleRpcs_iteration :: "completion \<Rightarrow> ServerProcess \<Rightarrow> ServerProcess res" where
  "HandleRpcs_iteration c p = (case c of
       Drained \<Rightarrow> Inl (Assertion_failed ''cq_->Next'')
     | Completion tag req ok \<Rightarrow> if \<not> ok then Inl (Assertion_failed ''ok'')
         else rbind (HandleRpcs_turn tag req (sp_server p)) (\<lambda>s. Inr (p\<lparr>sp_server := s\<rparr>)))"

text \<open>
  The loop, on the completions in their order; before each the destructor may have run. The result says whether the loop has ended.
\<close>

fun HandleRpcs :: "(bool \<times> completion) list \<Rightarrow> ServerProcess \<Rightarrow> (bool \<times> ServerProcess) res" where
  "HandleRpcs [] p = Inr (\<not> is_running p, p)"
| "HandleRpcs ((destroyed, c) # cs) p = (if \<not> is_running p then Inr (True, p)
     else let q = (if destroyed then ChatService_destroy p else p) in rbind (HandleRpcs_iteration c q) (HandleRpcs cs))"

section \<open>Lemmas\<close>

lemma iteration_ok: "HandleRpcs_iteration c p = Inr q \<Longrightarrow> server_ok (sp_server p) \<Longrightarrow> server_ok (sp_server q) \<and> is_running q = is_running p"
  by (auto simp: HandleRpcs_iteration_def split: completion.splits if_splits dest: turn_ok)

lemma HandleRpcs_ok: "HandleRpcs cs p = Inr (ended, q) \<Longrightarrow> server_ok (sp_server p) \<Longrightarrow> server_ok (sp_server q)"
proof (induction cs p rule: HandleRpcs.induct)
  case (2 destroyed c cs p)
  show ?case
  proof (cases "is_running p")
    case True
    then obtain r where r: "HandleRpcs_iteration c (if destroyed then ChatService_destroy p else p) = Inr r" "HandleRpcs cs r = Inr (ended, q)"
      using 2(2) by (auto simp: Let_def)
    have "server_ok (sp_server r)" using iteration_ok [OF r(1)] 2(3) by (simp add: ChatService_destroy_def)
    then show ?thesis using 2(1) [OF _ refl r(1) r(2)] True by simp
  qed (use 2 in auto)
qed auto

text \<open>
  The server is destroyed while its thread waits for a request. Then either the last completion is one of before the shutdown, or the
  process is aborted: gRPC reports the waiting objects with \<^verbatim>\<open>ok\<close> unset.
\<close>

lemma destroyed_while_waiting:
  assumes "is_running p"
  shows "HandleRpcs ((True, c) # cs) p = (case c of
       Completion tag req True \<Rightarrow> rbind (HandleRpcs_turn tag req (sp_server p)) (\<lambda>s. Inr (True, (ChatService_destroy p)\<lparr>sp_server := s\<rparr>))
     | Completion tag req False \<Rightarrow> Inl (Assertion_failed ''ok'')
     | Drained \<Rightarrow> Inl (Assertion_failed ''cq_->Next''))"
proof -
  have "HandleRpcs cs q = Inr (True, q)" if "\<not> is_running q" for q using that by (cases cs) auto
  then show ?thesis
    using assms by (auto simp: HandleRpcs_iteration_def ChatService_destroy_def Let_def rbind_def split: completion.splits bool.splits sum.splits)
qed

section \<open>Properties of the running server\<close>

text \<open>
  The server is left as it should be by every run of its loop, however it ends: one object listens for each kind of request.
\<close>

theorem run_keeps_listening:
  assumes "HandleRpcs cs (ChatService_Run port new_Server) = Inr (ended, p)"
  shows "\<exists>!tag. calls (sp_server p) tag = Some (k, START_PROCESS)"
proof -
  have "server_ok (sp_server p)" using HandleRpcs_ok [OF assms] start_ok by (simp add: ChatService_Run_def)
  then have "card (listening k (sp_server p)) = 1" by (simp add: server_ok_def)
  then obtain tag where "listening k (sp_server p) = {tag}" by (rule card_1_singletonE)
  then have "calls (sp_server p) t = Some (k, START_PROCESS) \<longleftrightarrow> t = tag" for t unfolding listening_def by blast
  then show ?thesis by simp
qed

theorem run_keeps_listening_witness:
  "\<exists>!tag. calls (sp_server (ChatService_Run 50051 new_Server)) tag = Some (CallDataTalk, START_PROCESS)"
  by (rule run_keeps_listening [of "[]" 50051 False]) (simp add: ChatService_Run_def)

end
