(* ===== verification/Logging.thy ===== *)
theory Logging
  imports Node
begin

text \<open>
  The class \<^verbatim>\<open>Logger\<close> of \<^verbatim>\<open>include/bracha/logging.h\<close> and \<^verbatim>\<open>lib/bracha/logging.cc\<close>, and the text of a node that
  \<^verbatim>\<open>operator<<\<close> of \<^verbatim>\<open>include/bracha/node.h\<close> writes. The stream is the text written so far.
\<close>

record Logger =
  log_output :: string
  log_enabled :: bool

definition new_Logger :: "string \<Rightarrow> Logger" where
  "new_Logger output = \<lparr>log_output = output, log_enabled = True\<rparr>"

definition logger_enable :: "bool \<Rightarrow> Logger \<Rightarrow> Logger" where
  "logger_enable b l = l\<lparr>log_enabled := b\<rparr>"

definition logger_put :: "string \<Rightarrow> Logger \<Rightarrow> Logger" where
  "logger_put v l = (if log_enabled l then l\<lparr>log_output := log_output l @ v\<rparr> else l)"

text \<open>The global logger.\<close>

definition logger_out :: Logger where
  "logger_out = new_Logger []"

definition Node_text :: "string \<Rightarrow> Node \<Rightarrow> string" where
  "Node_text name nd = ''Node's ID is: '' @ show_nat (unat (node_id nd)) @ '';'' @ ''name is: '' @ name @ '';'' @ [CHR 0x0A]
     @ (if isConsensus nd then ''Node has accepted the node '' @ getVotedHash nd @ [CHR 0x0A]
        else ''Node has not accepted any nodes yet!'' @ [CHR 0x0A])"

text \<open>A sequence of calls writes the texts that come while the logger is enabled, and nothing else.\<close>

datatype log_call = Put string | Enable bool

primrec log_calls :: "log_call list \<Rightarrow> Logger \<Rightarrow> Logger" where
  "log_calls [] l = l"
| "log_calls (c # cs) l = log_calls cs (case c of Put v \<Rightarrow> logger_put v l | Enable b \<Rightarrow> logger_enable b l)"

fun logged :: "bool \<Rightarrow> log_call list \<Rightarrow> string" where
  "logged b [] = []"
| "logged b (Put v # cs) = (if b then v else []) @ logged b cs"
| "logged b (Enable b' # cs) = logged b' cs"

theorem log_calls_output: "log_output (log_calls cs l) = log_output l @ logged (log_enabled l) cs"
  by (induction "log_enabled l" cs arbitrary: l rule: logged.induct) (auto simp: logger_put_def logger_enable_def)

end
