(* ===== verification/Json_Wellformed.thy ===== *)
theory Json_Wellformed
  imports Json_Parse
begin

text \<open>
  What the parser of the JSON library returns: every string it builds, from raw bytes, escapes and
  surrogate pairs, is valid UTF-8, and objects have sorted keys. Valid UTF-8 is what the automaton
  of the serializer accepts, so whatever was parsed can be serialized again.
\<close>

unbundle bit_operations_syntax

section \<open>Valid UTF-8\<close>

text \<open>The state of the decoder after a string, and the strings that end in the accepting state.\<close>

fun utf8_state :: "nat \<Rightarrow> string \<Rightarrow> nat" where
  "utf8_state st [] = st"
| "utf8_state st (c # s) = utf8_state (fst (decode st 0 (of_char c))) s"

lemma utf8_state_append [simp]: "utf8_state st (s @ t) = utf8_state (utf8_state st s) t"
  by (induction s arbitrary: st) simp_all

lemma decode_state: "fst (decode st cp b) = fst (decode st 0 b)"
  by (simp add: decode_def Let_def)

lemma reject_stays: "b < 256 \<Longrightarrow> fst (decode 1 cp b) = 1"
  unfolding decode_def Let_def fst_conv add.assoc utf8d_state
  by (simp add: utf8d_class utf8d_states_def byte_class_def)

lemma utf8_reject [simp]: "utf8_state (Suc 0) s = Suc 0"
  by (induction s) (simp_all add: reject_stays [of _ 0, simplified])

lemma dump_bytes_state: "(\<exists>out. dump_bytes ea st cp s = Inr out) \<longleftrightarrow> utf8_state st s = 0"
proof (induction s arbitrary: st cp)
  case (Cons c s)
  obtain st' cp' where d: "decode st cp (of_char c) = (st', cp')" by force
  then have "fst (decode st 0 (of_char c)) = st'" using decode_state [of st cp] by (metis fst_conv)
  then show ?case using Cons [of st' cp'] d by (auto simp: rbind_eq_Inr)
qed simp

definition utf8 :: "string \<Rightarrow> bool" where
  "utf8 s \<longleftrightarrow> utf8_state 0 s = 0"

lemma dump_escaped_utf8: "(\<exists>out. dump_escaped s ea = Inr out) \<longleftrightarrow> utf8 s"
  by (simp add: dump_escaped_def dump_bytes_state utf8_def)

lemma utf8_append: "utf8 s \<Longrightarrow> utf8 t \<Longrightarrow> utf8 (s @ t)"
  by (simp add: utf8_def)

lemma utf8_ascii: "of_char c < (128 :: nat) \<Longrightarrow> utf8 [c]"
  by (simp add: utf8_def lead_states lead_state_def)

lemma continuation_utf8:
  "st \<in> {2..8} \<Longrightarrow> next_byte_in_range (pending_ranges st) s = Some (out, r) \<Longrightarrow> utf8_state st out = 0"
proof (induction s arbitrary: st out)
  case Nil
  then show ?case by (auto simp: pending_ranges_def split: if_splits)
next
  case (Cons c s)
  let ?h = "hd (pending_ranges st)"
  have ne: "pending_ranges st = ?h # tl (pending_ranges st)" using Cons.prems(1) by (auto simp: pending_ranges_def)
  obtain out' where o: "fst ?h \<le> of_char c" "of_char c \<le> snd ?h" "out = c # out'"
    "next_byte_in_range (tl (pending_ranges st)) s = Some (out', r)"
    using Cons.prems(2) by (subst (asm) ne) (cases ?h, auto split: if_splits)
  have st: "fst (decode st 0 (of_char c)) = next_state st"
    using continuation_states [of "of_char c" st 0] Cons.prems(1) o(1,2) by simp
  show ?case
  proof (cases "st = 2")
    case True
    then have "out' = []" using o(4) by (simp add: pending_ranges_def)
    then show ?thesis using o(3) st True by (simp add: next_state_def)
  next
    case False
    then have "st \<in> {3..8}" using Cons.prems(1) by auto
    then show ?thesis using Cons.IH [of "next_state st" out'] pending_next [of st] o(3,4) st by simp
  qed
qed

lemma lead_ranges_iff: "lead_ranges b = Some ranges \<Longrightarrow> lead_state b \<in> {2..8} \<and> ranges = pending_ranges (lead_state b)"
  by (auto simp: lead_ranges_def lead_state_def pending_ranges_def split: if_splits)

lemma sequence_utf8:
  assumes "lead_ranges (of_char c) = Some ranges" and "next_byte_in_range ranges s = Some (out, r)"
  shows "utf8 (c # out)"
  using lead_ranges_iff [OF assms(1)] assms(2) continuation_utf8 [of "lead_state (of_char c)" s out r]
  by (simp add: utf8_def lead_states)

section \<open>Encoded code points\<close>

lemma or_as_plus: "x < 2 ^ n \<Longrightarrow> push_bit n k OR x = push_bit n k + (x :: nat)"
proof -
  assume "x < 2 ^ n"
  then have "take_bit n x = x" by (simp add: take_bit_nat_eq_self)
  moreover have "push_bit n k AND take_bit n x = 0" by (auto simp: bit_eq_iff bit_simps)
  ultimately show ?thesis by (metis disjunctive_add_eq_or)
qed

lemma encode_utf8_bytes:
  assumes "cp < 2 ^ 21"
  shows "encode_utf8 cp = map char_of
    (if cp < 0x80 then [cp] else if cp < 0x800 then [0xC0 + cp div 64, 0x80 + cp mod 64]
     else if cp < 0x10000 then [0xE0 + cp div 4096, 0x80 + cp div 64 mod 64, 0x80 + cp mod 64]
     else [0xF0 + cp div 262144, 0x80 + cp div 4096 mod 64, 0x80 + cp div 64 mod 64, 0x80 + cp mod 64])"
proof -
  have c: "0x80 OR x = 0x80 + x" if "x < 64" for x :: nat using or_as_plus [of x 6 2] that by (simp add: push_bit_eq_mult)
  have l: "0xC0 OR x = 0xC0 + x" if "x < 32" for x :: nat using or_as_plus [of x 5 6] that by (simp add: push_bit_eq_mult)
  have m: "0xE0 OR x = 0xE0 + x" if "x < 16" for x :: nat using or_as_plus [of x 4 14] that by (simp add: push_bit_eq_mult)
  have h: "0xF0 OR x = 0xF0 + x" if "x < 8" for x :: nat using or_as_plus [of x 3 30] that by (simp add: push_bit_eq_mult)
  have a: "x AND 0x3F = x mod 64" for x :: nat
    using take_bit_eq_mask [of 6 x] by (simp add: take_bit_eq_mod mask_eq_exp_minus_1)
  have d: "cp < 0x800 \<Longrightarrow> cp div 64 < 32" "cp < 0x10000 \<Longrightarrow> cp div 4096 < 16" "cp div 262144 < 8"
    using assms by (simp_all add: less_mult_imp_div_less)
  show ?thesis
    using d by (simp add: encode_utf8_def drop_bit_eq_div a c l m h)
qed

lemma bytes_utf8:
  assumes "b0 < 256" and "lead_ranges b0 \<noteq> None" and "next_byte_in_range (the (lead_ranges b0)) out = Some (out, [])"
  shows "utf8 (char_of b0 # out)"
  using sequence_utf8 [of "char_of b0" "the (lead_ranges b0)" out out "[]"] assms by auto

lemma encoded_utf8_2: "2 \<le> a \<Longrightarrow> a < 32 \<Longrightarrow> l < 64 \<Longrightarrow> utf8 (map char_of [0xC0 + a :: nat, 0x80 + l])"
  unfolding list.map by (rule bytes_utf8) (simp_all add: lead_ranges_def)

lemma encoded_utf8_3:
  assumes "m < 64" and "l < 64" and "a < 16" and "a \<noteq> 0 \<or> 0x20 \<le> m" and "a \<noteq> 13 \<or> m < 0x20"
  shows "utf8 (map char_of [0xE0 + a :: nat, 0x80 + m, 0x80 + l])"
  unfolding list.map by (rule bytes_utf8) (use assms in \<open>auto simp: lead_ranges_def\<close>)

lemma encoded_utf8_4:
  assumes "m < 64" and "k < 64" and "l < 64" and "a \<le> 4" and "a \<noteq> 0 \<or> 0x10 \<le> m" and "a \<noteq> 4 \<or> m < 0x10"
  shows "utf8 (map char_of [0xF0 + a :: nat, 0x80 + m, 0x80 + k, 0x80 + l])"
  unfolding list.map by (rule bytes_utf8) (use assms in \<open>auto simp: lead_ranges_def\<close>)

lemma encode_utf8_valid:
  assumes "cp < 0xD800 \<or> 0xE000 \<le> cp \<and> cp \<le> 0x10FFFF"
  shows "utf8 (encode_utf8 cp)"
proof -
  have q: "x mod 64 < 64" for x :: nat by simp
  have b: "cp < 2 ^ 21" using assms by auto
  consider "cp < 0x80" | "0x80 \<le> cp" "cp < 0x800" | "0x800 \<le> cp" "cp < 0x10000" | "0x10000 \<le> cp" using not_less by blast
  then show ?thesis
  proof cases
    case 1
    then show ?thesis using utf8_ascii [of "char_of cp"] by (simp add: encode_utf8_bytes [OF b])
  next
    case 2
    have "2 \<le> cp div 64" "cp div 64 < 32" using 2 by (simp_all add: less_mult_imp_div_less)
    then show ?thesis
      using 2 encoded_utf8_2 [OF _ _ q [of cp], of "cp div 64"] by (simp add: encode_utf8_bytes [OF b])
  next
    case 3
    let ?a = "cp div 4096" let ?m = "cp div 64 mod 64"
    have "64 * ?m + cp mod 64 = cp mod 4096" using mod_mult2_eq [of cp 64 64] by simp
    then have "cp = 4096 * ?a + (64 * ?m + cp mod 64)" by simp
    then have "?a < 16" "?a \<noteq> 0 \<or> 0x20 \<le> ?m" "?a \<noteq> 13 \<or> ?m < 0x20"
      using 3 assms q [of "cp div 64"] q [of cp] by linarith+
    from encoded_utf8_3 [OF q q [of cp] this] show ?thesis using 3 by (simp add: encode_utf8_bytes [OF b])
  next
    case 4
    let ?a = "cp div 262144" let ?m = "cp div 4096 mod 64"
    have "4096 * ?m + cp mod 4096 = cp mod 262144" using mod_mult2_eq [of cp 4096 64] by simp
    then have "cp = 262144 * ?a + (4096 * ?m + cp mod 4096)" by simp
    moreover have "cp mod 4096 < 4096" by simp
    ultimately have "?a \<le> 4" "?a \<noteq> 0 \<or> 0x10 \<le> ?m" "?a \<noteq> 4 \<or> ?m < 0x10"
      using 4 assms q [of "cp div 4096"] by linarith+
    from encoded_utf8_4 [OF q q [of "cp div 64"] q [of cp] this] show ?thesis using 4 by (simp add: encode_utf8_bytes [OF b])
  qed
qed

lemma surrogates_valid:
  "0xD800 \<le> hi \<Longrightarrow> hi \<le> 0xDBFF \<Longrightarrow> 0xDC00 \<le> lo \<Longrightarrow> lo \<le> 0xDFFF \<Longrightarrow> utf8 (encode_utf8 (hi * 1024 + lo - 0x35FDC00))"
  by (rule encode_utf8_valid) linarith

section \<open>What the scanner returns\<close>

lemma hex_value_less: "hex_value c = Some d \<Longrightarrow> d < 16"
  by (auto simp: hex_value_def Let_def split: if_splits)

lemma get_codepoint_less: "get_codepoint s = Some (cp, r) \<Longrightarrow> cp < 65536"
  by (cases s rule: get_codepoint.cases) (auto split: option.splits dest!: hex_value_less)

lemma scan_unicode_utf8:
  assumes "scan_unicode s = Some (out, r)"
  shows "utf8 out"
proof -
  obtain cp1 s1 where c: "get_codepoint s = Some (cp1, s1)" using assms by (auto simp: scan_unicode_def split: option.splits)
  show ?thesis
  proof (cases "0xD800 \<le> cp1 \<and> cp1 \<le> 0xDBFF")
    case True
    then show ?thesis using assms c by (auto simp: scan_unicode_def split: option.splits if_splits list.splits intro: surrogates_valid)
  next
    case False
    then have "out = encode_utf8 cp1" "\<not> (0xDC00 \<le> cp1 \<and> cp1 \<le> 0xDFFF)" using assms c by (auto simp: scan_unicode_def split: if_splits)
    then show ?thesis using False get_codepoint_less [OF c] encode_utf8_valid [of cp1] by auto
  qed
qed

lemma scan_escape_utf8: "scan_escape s = Some (out, r) \<Longrightarrow> utf8 out"
  by (cases s) (auto split: if_splits dest: scan_unicode_utf8 intro!: utf8_ascii)

lemma scan_string_utf8: "scan_string buf s = Some (v, r) \<Longrightarrow> utf8 buf \<Longrightarrow> utf8 v"
proof (induction buf s rule: scan_string.induct)
  case (2 buf c s)
  let ?b = "of_char c :: nat"
  consider "?b = 0x22" | "?b = 0x5C" | "?b \<noteq> 0x22" "?b \<noteq> 0x5C" "?b < 0x80" | "0x80 \<le> ?b" by linarith
  then show ?case
  proof cases
    case 1
    then show ?thesis using "2.prems" by simp
  next
    case 2
    then obtain out r' where e: "scan_escape s = Some (out, r')" "scan_string (buf @ out) r' = Some (v, r)"
      using "2.prems"(1) by (auto split: option.splits)
    have n: "?b \<noteq> 0x22" using 2 by simp
    show ?thesis
      by (rule "2.IH"(1) [OF refl n 2 e(1) refl e(2)]) (rule utf8_append [OF "2.prems"(2) scan_escape_utf8 [OF e(1)]])
  next
    case 3
    then have "\<not> ?b < 0x20" "scan_string (buf @ [c]) s = Some (v, r)" using "2.prems"(1) by (auto simp: Let_def split: if_splits)
    then show ?thesis using "2.IH"(2) [OF refl 3(1,2) _ 3(3)] utf8_append [OF "2.prems"(2) utf8_ascii] 3(3) by simp
  next
    case 4
    then obtain ranges out r' where e: "lead_ranges ?b = Some ranges" "next_byte_in_range ranges s = Some (out, r')"
      "scan_string (buf @ c # out) r' = Some (v, r)"
      using "2.prems"(1) by (auto simp: Let_def split: if_splits option.splits)
    have "?b \<noteq> 0x22" "?b \<noteq> 0x5C" "\<not> ?b < 0x20" "\<not> ?b < 0x80" using 4 by auto
    then show ?thesis
      using "2.IH"(3) [OF refl _ _ _ _ e(1,2) refl e(3)] utf8_append [OF "2.prems"(2) sequence_utf8 [OF e(1,2)]] by simp
  qed
qed simp

fun json_utf8 :: "json \<Rightarrow> bool" where
  "json_utf8 (JString s) \<longleftrightarrow> utf8 s"
| "json_utf8 (JArray vs) \<longleftrightarrow> list_all json_utf8 vs"
| "json_utf8 (JObject kvs) \<longleftrightarrow> list_all (\<lambda>(k, v). utf8 k \<and> json_utf8 v) kvs"
| "json_utf8 _ \<longleftrightarrow> True"

definition well_formed :: "json \<Rightarrow> bool" where
  "well_formed j \<longleftrightarrow> json_ok j \<and> json_utf8 j"

definition token_ok :: "token \<Rightarrow> bool" where
  "token_ok t \<longleftrightarrow> (case t of Value_string v \<Rightarrow> utf8 v | _ \<Rightarrow> True)"

lemma scan_token_utf8: "scan s = (t, r) \<Longrightarrow> token_ok t"
proof -
  have "utf8 []" by (simp add: utf8_def)
  moreover have "token_ok (convert_number ty buf)" for ty buf
    by (simp add: convert_number_def token_ok_def split: number_type.splits)
  ultimately have "scan_token s = (t, r) \<Longrightarrow> token_ok t" for s
    by (cases s) (auto simp: scan_literal_def scan_number_def token_ok_def Let_def split: if_splits option.splits dest: scan_string_utf8)
  then show "scan s = (t, r) \<Longrightarrow> token_ok t" by (simp add: scan_def)
qed

fun frame_ok :: "frame \<Rightarrow> bool" where
  "frame_ok (Frame_array vs) \<longleftrightarrow> list_all well_formed vs"
| "frame_ok (Frame_object kvs k) \<longleftrightarrow> well_formed (JObject kvs) \<and> utf8 k"

lemma well_formed_put: "well_formed (JObject kvs) \<Longrightarrow> utf8 k \<Longrightarrow> well_formed v \<Longrightarrow> well_formed (JObject (obj_put k v kvs))"
  by (simp add: well_formed_def list_all_obj_put)


definition goal_ok :: "token + json \<Rightarrow> bool" where
  "goal_ok g \<longleftrightarrow> (case g of Inl t \<Rightarrow> token_ok t | Inr v \<Rightarrow> well_formed v)"

lemma goal_ok_simps [simp]: "goal_ok (Inl t) = token_ok t" "goal_ok (Inr v) = well_formed v"
  by (simp_all add: goal_ok_def)

lemma well_formed_simps [simp]:
  "well_formed (JBool b)" "well_formed JNull" "well_formed (JInteger i)" "well_formed (JUnsigned n)" "well_formed (JObject [])"
  "well_formed (JString str) = utf8 str" "well_formed (JArray vs) = list_all well_formed vs"
  by (auto simp: well_formed_def list_all_iff)

text \<open>The successors of a state of the parser, and that they are smaller and well-formed.\<close>

inductive loop_next :: "frame list \<Rightarrow> token + json \<Rightarrow> string \<Rightarrow> frame list \<Rightarrow> token + json \<Rightarrow> string \<Rightarrow> bool" where
  atom: "(token_ok t \<Longrightarrow> well_formed v) \<Longrightarrow> t \<noteq> End_of_input \<Longrightarrow> loop_next fs (Inl t) s fs (Inr v) s"
| empty_object: "scan s = (End_object, s1) \<Longrightarrow> loop_next fs (Inl Begin_object) s fs (Inr (JObject [])) s1"
| open_object: "scan s = (Value_string k, s1) \<Longrightarrow> scan s1 = (Name_separator, s2) \<Longrightarrow> scan s2 = (t, s3) \<Longrightarrow>
     loop_next fs (Inl Begin_object) s (Frame_object [] k # fs) (Inl t) s3"
| empty_array: "scan s = (End_array, s1) \<Longrightarrow> loop_next fs (Inl Begin_array) s fs (Inr (JArray [])) s1"
| open_array: "scan s = (t, s1) \<Longrightarrow> loop_next fs (Inl Begin_array) s (Frame_array [] # fs) (Inl t) s1"
| next_element: "scan s = (Value_separator, s1) \<Longrightarrow> scan s1 = (t, s2) \<Longrightarrow>
     loop_next (Frame_array vs # fs) (Inr v) s (Frame_array (vs @ [v]) # fs) (Inl t) s2"
| close_array: "scan s = (End_array, s1) \<Longrightarrow> loop_next (Frame_array vs # fs) (Inr v) s fs (Inr (JArray (vs @ [v]))) s1"
| next_member: "scan s = (Value_separator, s1) \<Longrightarrow> scan s1 = (Value_string k', s2) \<Longrightarrow> scan s2 = (Name_separator, s3) \<Longrightarrow> scan s3 = (t, s4) \<Longrightarrow>
     loop_next (Frame_object kvs k # fs) (Inr v) s (Frame_object (obj_put k v kvs) k' # fs) (Inl t) s4"
| close_object: "scan s = (End_object, s1) \<Longrightarrow> loop_next (Frame_object kvs k # fs) (Inr v) s fs (Inr (JObject (obj_put k v kvs))) s1"

lemma loop_next_ok:
  assumes "loop_next fs g s fs' g' s'" and "list_all frame_ok fs" and "goal_ok g"
  shows "list_all frame_ok fs' \<and> goal_ok g'"
  using assms by cases (auto simp: well_formed_put dest!: scan_token_utf8 simp: token_ok_def)

lemma loop_next_smaller: "loop_next fs g s fs' g' s' \<Longrightarrow> loop_measure (fs', g', s') < loop_measure (fs, g, s)"
  by (cases rule: loop_next.cases, assumption) (auto dest!: scan_shorter)

lemma parse_loop_next:
  assumes "parse_loop fs g s = Inr (j, r)"
  shows "fs = [] \<and> g = Inr j \<or> (\<exists>fs' g' s'. loop_next fs g s fs' g' s' \<and> parse_loop fs' g' s' = Inr (j, r))"
proof (cases "(fs, g, s)" rule: parse_loop.cases)
  case (1 fs' t s')
  have atom: "\<exists>fs' g' s'. loop_next fs (Inl t) s fs' g' s' \<and> parse_loop fs' g' s' = Inr (j, r)"
    if "parse_loop fs (Inr v) s = Inr (j, r)" "token_ok t \<Longrightarrow> well_formed v" "t \<noteq> End_of_input" for t v
    using that loop_next.atom [of t v fs s] by blast
  have g: "g = Inl t" "fs' = fs" "s' = s" using 1 by auto
  show ?thesis
  proof (cases t)
    case Begin_object
    then consider s1 where "scan s = (End_object, s1)" "parse_loop fs (Inr (JObject [])) s1 = Inr (j, r)"
      | k s1 s2 t' s3 where "scan s = (Value_string k, s1)" "scan s1 = (Name_separator, s2)" "scan s2 = (t', s3)"
          "parse_loop (Frame_object [] k # fs) (Inl t') s3 = Inr (j, r)"
      using assms [unfolded g Begin_object parse_loop.simps(1) [of fs Begin_object s] token.case]
      by (auto simp del: parse_value_fold split: token.splits prod.splits)
    then show ?thesis using g Begin_object by cases (blast intro: loop_next.intros)+
  next
    case Begin_array
    obtain t1 s1 where sc: "scan s = (t1, s1)" by force
    then show ?thesis
      using assms [unfolded g Begin_array parse_loop.simps(1) [of fs Begin_array s] token.case] g Begin_array
        loop_next.empty_array [of s s1 fs] loop_next.open_array [OF sc, of fs]
      by (cases "t1 = End_array") (auto simp del: parse_value_fold)
  qed (use assms [unfolded g parse_loop.simps(1) [of fs t s]] g in \<open>auto simp: token_ok_def intro: atom\<close>)
next
  case (2 v s')
  then show ?thesis using assms by simp
next
  case (3 vs fs' v s')
  then consider s1 t s2 where "scan s = (Value_separator, s1)" "scan s1 = (t, s2)" "parse_loop (Frame_array (vs @ [v]) # fs') (Inl t) s2 = Inr (j, r)"
    | s1 where "scan s = (End_array, s1)" "parse_loop fs' (Inr (JArray (vs @ [v]))) s1 = Inr (j, r)"
    using assms by (auto simp del: parse_value_fold simp: parse_loop.simps(3) split: token.splits prod.splits)
  then show ?thesis using 3 by cases (blast intro: loop_next.intros)+
next
  case (4 kvs k fs' v s')
  then consider s1 k' s2 s3 t s4 where "scan s = (Value_separator, s1)" "scan s1 = (Value_string k', s2)" "scan s2 = (Name_separator, s3)"
      "scan s3 = (t, s4)" "parse_loop (Frame_object (obj_put k v kvs) k' # fs') (Inl t) s4 = Inr (j, r)"
    | s1 where "scan s = (End_object, s1)" "parse_loop fs' (Inr (JObject (obj_put k v kvs))) s1 = Inr (j, r)"
    using assms by (auto simp del: parse_value_fold simp: parse_loop.simps(4) split: token.splits prod.splits)
  then show ?thesis using 4 by cases (blast intro: loop_next.intros)+
qed

lemma parse_loop_well_formed:
  "parse_loop fs g s = Inr (j, r) \<Longrightarrow> list_all frame_ok fs \<Longrightarrow> goal_ok g \<Longrightarrow> well_formed j"
proof (induction "loop_measure (fs, g, s)" arbitrary: fs g s rule: less_induct)
  case less
  from parse_loop_next [OF less.prems(1)] show ?case
  proof
    assume "\<exists>fs' g' s'. loop_next fs g s fs' g' s' \<and> parse_loop fs' g' s' = Inr (j, r)"
    then obtain fs' g' s' where n: "loop_next fs g s fs' g' s'" "parse_loop fs' g' s' = Inr (j, r)" by blast
    show ?thesis using less.hyps [OF loop_next_smaller [OF n(1)] n(2)] loop_next_ok [OF n(1) less.prems(2,3)] by blast
  qed (use less.prems in simp)
qed

lemma json_parse_well_formed: "json_parse s = Inr j \<Longrightarrow> well_formed j"
  by (auto simp: json_parse_def json_read_def split: option.splits prod.splits if_splits
      dest!: scan_token_utf8 parse_loop_well_formed simp del: parse_value_fold)

lemma dump_total: "json_utf8 j \<Longrightarrow> \<exists>out. dump pp False step ind j = Inr out"
proof (induction pp "False" step ind j rule: dump.induct)
  case (1 pp step ind kvs)
  let ?ni = "if pp then ind + step else ind"
  have "\<exists>e. (\<lambda>(k, v). rbind (dump_escaped k False) (\<lambda>key. rbind (dump pp False step ?ni v)
                (\<lambda>val. Inr (quoted key @ (if pp then '': '' else '':'') @ val)))) kv = Inr e" if kv: "kv \<in> set kvs" for kv
  proof -
    obtain k v where e: "kv = (k, v)" by (cases kv)
    have u: "utf8 k" "json_utf8 v" using 1(2) kv e by (auto simp: list_all_iff)
    have "kvs \<noteq> []" using kv by auto
    from 1(1) [OF this refl kv e [symmetric]] u dump_escaped_utf8 [of k False] obtain val where "dump pp False step ?ni v = Inr val" by blast
    moreover obtain key where "dump_escaped k False = Inr key" using u(1) dump_escaped_utf8 by blast
    ultimately show ?thesis using e by simp
  qed
  then have "\<exists>es. rmap (\<lambda>(k, v). rbind (dump_escaped k False) (\<lambda>key. rbind (dump pp False step ?ni v)
                (\<lambda>val. Inr (quoted key @ (if pp then '': '' else '':'') @ val)))) kvs = Inr es"
    by (rule rmap_Inr_exists)
  then show ?case by (auto simp: Let_def)
next
  case (2 pp step ind vs)
  have "\<exists>e. dump pp False step (if pp then ind + step else ind) v = Inr e" if "v \<in> set vs" for v
    using 2 that by (force simp: list_all_iff)
  then have "\<exists>es. rmap (dump pp False step (if pp then ind + step else ind)) vs = Inr es" by (rule rmap_Inr_exists)
  then show ?case by (auto simp: Let_def)
next
  case (3 pp step ind s)
  then show ?case using dump_escaped_utf8 [of s False] by auto
qed simp_all

section \<open>Properties of the parser\<close>

text \<open>
  C31. Parsed values are well formed: whatever text \<^verbatim>\<open>json::parse\<close> accepts, every object of the result has
  its keys strictly sorted and every string in it is valid UTF-8, escapes and surrogate pairs
  included; so the value can always be serialized again, with any layout, and is read back as the
  same value.
\<close>

theorem parsed_json_well_formed:
  assumes "json_parse s = Inr j"
  shows "json_ok j \<and> (\<exists>out. dump pretty_print False indent_step current_indent j = Inr out \<and> json_parse out = Inr (json_norm j))"
proof -
  have "json_ok j" "json_utf8 j" using json_parse_well_formed [OF assms] by (simp_all add: well_formed_def)
  then show ?thesis using dump_total json_parse_dump by blast
qed


theorem parsed_json_well_formed_witness:
  "\<exists>out. json_parse (''{'' @ quoted ''a'' @ '':5,'' @ quoted ''b'' @ '':['' @ quoted ''x'' @ '']}'')
         = Inr (JObject [(''a'', JUnsigned 5), (''b'', JArray [JString ''x''])])
     \<and> dump True False 2 0 (JObject [(''a'', JUnsigned 5), (''b'', JArray [JString ''x''])]) = Inr out
     \<and> json_parse out = Inr (JObject [(''a'', JUnsigned 5), (''b'', JArray [JString ''x''])])"
proof -
  let ?j = "JObject [(''a'', JUnsigned 5), (''b'', JArray [JString ''x''])]"
  have "dump False False 0 0 ?j = Inr (''{'' @ quoted ''a'' @ '':5,'' @ quoted ''b'' @ '':['' @ quoted ''x'' @ '']}'')"
    by (simp add: dump_integer_unsigned plain_def dump_container_def digit_def char_of_def bit_0 quoted_def)
  then have p: "json_parse (''{'' @ quoted ''a'' @ '':5,'' @ quoted ''b'' @ '':['' @ quoted ''x'' @ '']}'') = Inr ?j"
    using json_parse_dump [of False 0 0 ?j] by simp
  show ?thesis using parsed_json_well_formed [OF p, of True 2 0] p by simp
qed

end
