(* ===== verification/Wrapper.thy ===== *)
theory Wrapper
  imports Cosi_Prelude
begin

text \<open>
  The hash accelerator: the class \<^verbatim>\<open>Wrapper\<close> of \<^verbatim>\<open>lib/interf/wrapper.cc\<close>, which pads a message as a
  string of binary digits, and the C functions of \<^verbatim>\<open>lib/interf/wrapper.c\<close> and \<^verbatim>\<open>lib/interf/interface.c\<close>,
  which pack it into words and exchange them with the registers of an FPGA. The device is a
  parameter that answers register writes and reads; the failures of \<^verbatim>\<open>open\<close> and \<^verbatim>\<open>mmap\<close>, which are
  only printed, are left out. Only the timing programs use the accelerator.
\<close>

unbundle bit_operations_syntax

section \<open>Bit strings\<close>

definition bits_of_char :: "char \<Rightarrow> string" where
  "bits_of_char c = map (\<lambda>i. if bit (of_char c :: nat) i then CHR ''1'' else CHR ''0'') (rev [0..<8])"

definition charToBinaryString :: "string \<Rightarrow> string" where
  "charToBinaryString input = concat (map bits_of_char input)"

definition padding :: "string \<Rightarrow> string" where
  "padding input_string = (let bin_string = charToBinaryString input_string; len = length bin_string;
     str_len = charToBinaryString (show_nat len); len_str_len = length str_len in
     if len < 448
     then bin_string @ ''1'' @ replicate (512 - len - len_str_len - 1) (CHR ''0'') @ str_len
     else bin_string @ ''1'' @ replicate (512 + 512 - len - len_str_len - 1) (CHR ''0'') @ str_len)"

text \<open>The size is an unsigned 32-bit number.\<close>

definition number_of_blocks :: "string \<Rightarrow> u32" where
  "number_of_blocks input_hash = (let size = (of_nat (length input_hash * 8) :: u32) in if size < 448 then 0 else 1)"

section \<open>Arrays of words\<close>

definition ARRAY_SIZE :: nat where
  "ARRAY_SIZE = 32"

text \<open>\<^verbatim>\<open>strtoul\<close> in base ten on a string of digits.\<close>

definition strtoul10 :: "string \<Rightarrow> u32" where
  "strtoul10 s = of_nat (read_digits (takeWhile is_digit s))"

text \<open>
  The loop over the array, which is filled from its end; padded messages contain no null character,
  so \<^verbatim>\<open>strlen\<close> is the length.
\<close>

function word_loop :: "nat \<Rightarrow> string \<Rightarrow> u32 list \<Rightarrow> u32 list" where
  "word_loop i inputString outputArray =
     (if i < ARRAY_SIZE then
        let start = i * 8 in
        if start \<ge> length inputString then outputArray
        else word_loop (i + 1) inputString
               (outputArray[ARRAY_SIZE - 1 - i := strtoul10 (take 8 (drop start inputString))])
      else outputArray)"
  by pat_completeness auto
termination by (relation "measure (\<lambda>(i, _, _). ARRAY_SIZE - i)") auto

declare word_loop.simps [simp del]

definition stringToUint32Array :: "string \<Rightarrow> u32 list" where
  "stringToUint32Array inputString = word_loop 0 inputString (replicate ARRAY_SIZE 0)"

text \<open>The bytes of the words, the last word first, each from its lowest byte.\<close>

definition uint32ArrayToString :: "u32 list \<Rightarrow> string" where
  "uint32ArrayToString inputArray = concat (map (\<lambda>element.
     map (\<lambda>k. char_of (unat (drop_bit (8 * k) element AND 0xFF))) [0..<4]) (rev inputArray))"

section \<open>The device\<close>

text \<open>Mapped memory: reading a register may change the state of the device.\<close>

record 'd fpga =
  fpga_write :: "nat \<Rightarrow> u32 \<Rightarrow> 'd \<Rightarrow> 'd"
  fpga_read :: "nat \<Rightarrow> 'd \<Rightarrow> u32 \<times> 'd"

definition write_registers :: "'d fpga \<Rightarrow> (nat \<times> u32) list \<Rightarrow> 'd \<Rightarrow> 'd" where
  "write_registers f ws d = foldl (\<lambda>d (r, v). fpga_write f r v d) d ws"

text \<open>Words of the block, written to the registers from 1 on.\<close>

definition registers :: "u32 list \<Rightarrow> nat list \<Rightarrow> (nat \<times> u32) list" where
  "registers block is = zip [1..<8] (map (\<lambda>i. block ! i) is)"

text \<open>Everything that is written before the result is awaited.\<close>

definition input_writes :: "u32 list \<Rightarrow> u32 \<Rightarrow> (nat \<times> u32) list" where
  "input_writes block number_blocks = (let two = (number_blocks \<noteq> 0) in
     registers block [16..<23] @ [(0, 0), (0, if two then 0x3 else 0x1), (0, if two then 0x7 else 0x5)]
     @ registers block [23..<30] @ [(0, if two then 0xb else 0x9)]
     @ registers block [30, 31, 0, 1, 2, 3, 4] @ [(0, if two then 0x13 else 0x11)]
     @ (if two then registers block [5..<12] @ [(0, 0x23)] @ registers block [12, 13, 14, 15] @ [(0, 0x43)] else []))"

text \<open>The loop that polls register 0; a device that never answers leaves no value.\<close>

partial_function (option) wait_for_result :: "'d fpga \<Rightarrow> 'd \<Rightarrow> 'd option" where
  "wait_for_result f d = (case fpga_read f 0 d of (v, d) \<Rightarrow> if v = 0 then wait_for_result f d else Some d)"

fun read_registers :: "'d fpga \<Rightarrow> nat list \<Rightarrow> 'd \<Rightarrow> u32 list \<times> 'd" where
  "read_registers f [] d = ([], d)"
| "read_registers f (r # rs) d = (let (v, d) = fpga_read f r d; (vs, d) = read_registers f rs d in (v # vs, d))"

definition interface_c :: "'d fpga \<Rightarrow> u32 list \<Rightarrow> u32 \<Rightarrow> 'd \<Rightarrow> (u32 list \<times> 'd) option" where
  "interface_c f block number_blocks d = (let two = (number_blocks \<noteq> 0) in
     case wait_for_result f (write_registers f (input_writes block number_blocks) d) of
       None \<Rightarrow> None
     | Some d \<Rightarrow>
        (let d = fpga_write f 0 (if two then 0x83 else 0x81) d;
             (out1_7, d) = read_registers f [1..<8] d;
             d = fpga_write f 0 (if two then 0x103 else 0x101) d;
             (out8, d) = read_registers f [1] d;
             d = fpga_write f 0 (if two then 0x203 else 0x201) d;
             d = fpga_write f 0 0 d
         in Some (rev (out1_7 @ out8), d)))"

text \<open>
  The time is stored through \<open>elapsed_time\<close>; \<open>None\<close> stands for an uninitialised pointer, and
  writing through it is undefined.
\<close>

definition calculate_hash_c :: "nat option \<Rightarrow> 'd fpga \<Rightarrow> string \<Rightarrow> u32 \<Rightarrow> 'd \<Rightarrow> (string \<times> 'd) res option" where
  "calculate_hash_c elapsed_time f inputString number_blocks d =
     (case interface_c f (stringToUint32Array inputString) number_blocks d of
        None \<Rightarrow> None
      | Some (resultArray, d) \<Rightarrow> Some (case elapsed_time of
            None \<Rightarrow> Inl (Undefined_behaviour ''uninitialised pointer'')
          | Some _ \<Rightarrow> Inr (uint32ArrayToString resultArray, d)))"

text \<open>
  \<^verbatim>\<open>Wrapper::calculate_hash\<close>, whose local pointer is never set. The result is read as a C string: it ends
  at the first null byte.
\<close>

definition calculate_hash :: "'d fpga \<Rightarrow> string \<Rightarrow> 'd \<Rightarrow> (string \<times> 'd) res option" where
  "calculate_hash f input_hash d =
     map_option (\<lambda>r. rbind r (\<lambda>(outputString, d). Inr (takeWhile (\<lambda>c. c \<noteq> CHR 0x00) outputString, d)))
       (calculate_hash_c None f (padding input_hash) (number_of_blocks input_hash) d)"

text \<open>\<^verbatim>\<open>Wrapper::time_hw_hash\<close> does the same and returns the pointer.\<close>

definition time_hw_hash :: "'d fpga \<Rightarrow> string \<Rightarrow> 'd \<Rightarrow> 'd res option" where
  "time_hw_hash f input_hash d =
     map_option (\<lambda>r. rbind r (\<lambda>(outputString, d). Inr d))
       (calculate_hash_c None f (padding input_hash) (number_of_blocks input_hash) d)"

section \<open>Lemmas\<close>

lemma length_bits [simp]: "length (bits_of_char c) = 8"
  by (simp add: bits_of_char_def)

lemma length_binary [simp]: "length (charToBinaryString s) = 8 * length s"
  by (induction s) (simp_all add: charToBinaryString_def)

lemma binary_take: "take (8 * n) (charToBinaryString s) = charToBinaryString (take n s)"
proof (induction s arbitrary: n)
  case (Cons c s)
  then show ?case by (cases n) (simp_all add: charToBinaryString_def)
qed (simp add: charToBinaryString_def)

lemma word_loop_prefix:
  assumes "take 256 s = take 256 t" and "256 \<le> length s" and "256 \<le> length t"
  shows "word_loop i s a = word_loop i t a"
proof (induction "ARRAY_SIZE - i" arbitrary: i a)
  case 0
  then show ?case by (simp add: word_loop.simps)
next
  case (Suc n)
  then have i: "i < 32" by (simp add: ARRAY_SIZE_def)
  have "take 8 (drop (i * 8) u) = take 8 (drop (i * 8) (take 256 u))" for u :: string using i by (simp add: drop_take min_def)
  then have "take 8 (drop (i * 8) s) = take 8 (drop (i * 8) t)" using assms(1) by metis
  moreover have "n = ARRAY_SIZE - (i + 1)" using Suc.hyps(2) by simp
  ultimately show ?case
    using Suc.hyps(1) [of "i + 1"] i assms(2,3)
    by (subst (1 2) word_loop.simps) (simp add: ARRAY_SIZE_def Let_def)
qed

lemma padding_prefix:
  assumes "32 \<le> length s"
  shows "take 256 (padding s) = charToBinaryString (take 32 s)" and "256 \<le> length (padding s)"
proof -
  obtain rest where r: "padding s = charToBinaryString s @ rest" by (cases "8 * length s < 448") (auto simp: padding_def Let_def)
  show "256 \<le> length (padding s)" using assms r by simp
  show "take 256 (padding s) = charToBinaryString (take 32 s)" using binary_take [of 32 s] assms r by simp
qed

lemma length_padding:
  "length (padding s) = (let n = 8 * length s; k = 8 * length (show_nat n) in
     if n < 448 then max 512 (n + k + 1) else max 1024 (n + k + 1))"
  by (simp add: padding_def Let_def max_def)

lemma length_show_nat_small: "n < 1000 \<Longrightarrow> length (show_nat n) \<le> 3"
  by (simp add: show_nat.simps)

lemma calculate_hash_c_undefined: "calculate_hash_c None f s n d = Some r \<Longrightarrow> r = Inl (Undefined_behaviour ''uninitialised pointer'')"
  by (auto simp: calculate_hash_c_def split: option.splits)

lemma show_nat_length_step: "10 \<le> n \<Longrightarrow> length (show_nat n) = Suc (length (show_nat (n div 10)))"
  by (simp add: show_nat_step)

section \<open>Properties of the accelerator\<close>

text \<open>
  The accelerator sees the first 32 characters only: the array holds 32 words and takes eight binary
  digits each, so of a longer message nothing after the first 256 bits reaches the device. Two
  messages of the same number of blocks that agree in their first 32 characters get the same
  result, whatever the device computes.
\<close>

theorem accelerator_hashes_prefix_only:
  assumes "take 32 s = take 32 t" and "32 \<le> length s" and "32 \<le> length t" and "number_of_blocks s = number_of_blocks t"
  shows "calculate_hash_c p f (padding s) (number_of_blocks s) d = calculate_hash_c p f (padding t) (number_of_blocks t) d"
proof -
  have "stringToUint32Array (padding s) = stringToUint32Array (padding t)"
    unfolding stringToUint32Array_def
    by (rule word_loop_prefix) (use assms(1) padding_prefix [OF assms(2)] padding_prefix [OF assms(3)] in simp_all)
  then show ?thesis by (simp add: calculate_hash_c_def assms(4))
qed

theorem accelerator_hashes_prefix_only_witness:
  "let f = \<lparr>fpga_write = (\<lambda>_ v d. d + v), fpga_read = (\<lambda>_ d. (d + 1, d))\<rparr>; s = replicate 32 CHR ''a'' @ ''x''; t = replicate 32 CHR ''a'' @ ''yz''
   in s \<noteq> t \<and> calculate_hash_c (Some 0) f (padding s) (number_of_blocks s) 5 = calculate_hash_c (Some 0) f (padding t) (number_of_blocks t) 5"
  using accelerator_hashes_prefix_only [of "replicate 32 CHR ''a'' @ ''x''" "replicate 32 CHR ''a'' @ ''yz''"]
  by (simp add: number_of_blocks_def Let_def)

text \<open>
  The padded message has whole blocks up to 124 characters: 512 digits below 56 characters and 1024
  below 125; a longer message is neither refused nor padded to a block.
\<close>

theorem accelerator_padding_blocks:
  "length (padding s) = (if length s < 56 then 512 else if length s < 125 then 1024
     else 8 * (length s + length (show_nat (8 * length s))) + 1)"
proof -
  consider "length s < 56" | "56 \<le> length s" "length s < 125" | "125 \<le> length s" by linarith
  then show ?thesis
  proof cases
    case 3
    then have "1000 \<le> 8 * length s" "100 \<le> 8 * length s div 10" "10 \<le> 8 * length s div 10 div 10" by linarith+
    then have "4 \<le> length (show_nat (8 * length s))"
      by (simp add: show_nat_length_step Suc_le_eq)
    then show ?thesis using 3 by (simp add: length_padding Let_def max_def)
  qed (use length_show_nat_small [of "8 * length s"] in \<open>simp_all add: length_padding Let_def max_def\<close>)
qed

text \<open>\<^verbatim>\<open>calculate_hash\<close> never gives a result: the time is written through the uninitialised pointer.\<close>

lemma calculate_hash_undefined: "calculate_hash f s d \<in> {None, Some (Inl (Undefined_behaviour ''uninitialised pointer''))}"
  using calculate_hash_c_undefined [of f "padding s" "number_of_blocks s" d]
  by (cases "calculate_hash_c None f (padding s) (number_of_blocks s) d") (auto simp: calculate_hash_def)

end
