(* ===== verification/Driver.thy ===== *)
theory Driver
  imports Sha256 Wrapper
begin

text \<open>
  The program \<^verbatim>\<open>verilog_code/main.c\<close> that tries the accelerator on one message: it writes the same registers as
  \<^verbatim>\<open>interface_c\<close>, for a constant block, and prints the eight words it reads.
\<close>

section \<open>The program\<close>

definition driver_block :: "u32 list" where
  "driver_block = [0x000001c0, 0x00000000, 0x00000000, 0x00000000, 0x00000000, 0x00000000, 0x00000000, 0x00000000,
     0x00000000, 0x00000000, 0x00000000, 0x00000000, 0x00000000, 0x00000000, 0x00000000, 0x00000000,
     0x00000000, 0x80000000, 0x6e6f7071, 0x6d6e6f70, 0x6c6d6e6f, 0x6b6c6d6e, 0x6a6b6c6d, 0x696a6b6c,
     0x68696a6b, 0x6768696a, 0x66676869, 0x65666768, 0x64656667, 0x63646566, 0x62636465, 0x61626364]"

text \<open>The result of \<^verbatim>\<open>main\<close>, the printed words \<^verbatim>\<open>out1\<close> to \<^verbatim>\<open>out8\<close> and the device; unlike \<^verbatim>\<open>interface_c\<close> it ends when the memory cannot be mapped.\<close>

definition driver_main :: "bool \<Rightarrow> bool \<Rightarrow> 'd fpga \<Rightarrow> 'd \<Rightarrow> (int \<times> u32 list \<times> 'd) option" where
  "driver_main open_ok mmap_ok f d = (if \<not> open_ok then Some (1, [], d) else if \<not> mmap_ok then Some (1, [], d)
     else case wait_for_result f (write_registers f (input_writes driver_block 1) d) of
       None \<Rightarrow> None
     | Some d \<Rightarrow>
        (let d = fpga_write f 0 0x83 d;
             (out1_7, d) = read_registers f [1..<8] d;
             d = fpga_write f 0 0x103 d;
             (out8, d) = read_registers f [1] d;
             d = fpga_write f 0 0x203 d;
             d = fpga_write f 0 0 d
         in Some (0, out1_7 @ out8, d)))"

section \<open>The message\<close>

definition driver_message :: string where
  "driver_message = ''abcdbcdecdefdefgefghfghighijhijkijkljklmklmnlmnomnopnopq''"

text \<open>
  The block is the padded 448-bit test message of the SHA-256 standard, its words in reverse order.
\<close>

theorem driver_block_is_message:
  "rev driver_block = concat (map (\<lambda>M. map (schedule M) [0..<16]) (blocks64 (pad (bytes_of_string driver_message))))"
  by code_simp

text \<open>The program drives the device the way \<^verbatim>\<open>interface_c\<close> does, and prints the words in the other order.\<close>

theorem driver_main_interface:
  "driver_main True True f d = map_option (\<lambda>(out, d). (0, rev out, d)) (interface_c f driver_block 1 d)"
  by (auto simp: driver_main_def interface_c_def Let_def split: option.splits prod.splits)

end
