(* ===== verification/Spec2Isabelle.thy ===== *)
theory Spec2Isabelle
  imports Network_Async Comms_Test Demo_Files Wallet_Interactive Network_Silent Client_Threads Server_Process Logging Json_Wellformed Driver
begin

text \<open>
  COSICoin is a small cryptocurrency in C++. Wallets create transactions that spend unspent outputs and
  sign them with Lamport one-time keys; validators collect them, the leader packs them into blocks, and
  the validators agree on the blocks with Bracha's reliable broadcast over gRPC. This development
  models the program function by function and proves what its parts guarantee, from the hash function to a
  network of nodes. Where the code does not do what it means to, the theorem says what it does.

  \<^bold>\<open>How the program is modelled.\<close> Classes are records, enumerations and tagged unions are datatypes, and every
  function is one definition under the name it has in the source, with a class prefix where names
  clash. Integers keep their width (\<^typ>\<open>u16\<close>, \<^typ>\<open>u32\<close>, \<^typ>\<open>u64\<close>), so wrap-around is part of the model;
  strings are lists of characters. A computation that can throw returns a sum (\<open>'a res\<close>): the left
  side is a C++ exception, a failed assertion, or \<open>Undefined_behaviour\<close> where the C++ standard gives an
  execution no meaning (an index out of range, a read of freed or uninitialised memory). \<^verbatim>\<open>std::map\<close> is a
  sorted association list where its order is visible and a map otherwise; \<^verbatim>\<open>unordered_map\<close> is
  traversed in an order the runtime chooses.

  \<^bold>\<open>The environment\<close> is made of parameters: the random device (\<open>urandom\<close>, each \<^verbatim>\<open>open\<close> and \<^verbatim>\<open>read\<close> answered by
  a function), the runtime of a node (\<open>runtime\<close>: the random device, the order of hash maps, and what a
  reference to an erased map entry reads), the files (\<open>disk\<close>), the completion queue of gRPC (which call
  object it returns next), and the FPGA of the hash accelerator. Properties that need something of the
  environment say so as a hypothesis (\<open>device_works\<close>, \<open>runtime_ok\<close>), and their witnesses give a
  concrete one.

  \<^bold>\<open>Theories, in the order of the code.\<close>

  \<^item> \<open>Cosi_Prelude\<close>, \<open>Interfaces\<close>: results and errors, loops that may throw, decimal numerals; the
    locales \<open>text_codec\<close> (JSON texts), \<open>one_time_signature\<close>, \<open>invariant_system\<close> (a step relation with an
    invariant) and \<open>fifo\<close>, whose consequences are proved once and interpreted on the program's types.
  \<^item> \<open>Sha256\<close> (\<^verbatim>\<open>lib/signature/sha256.cc\<close>): the unrolled, streaming class, equal to a rolled reference
    definition for any cut of the input.
  \<^item> \<open>Json_Value\<close>, \<open>Json_Dump\<close>, \<open>Json_Parse\<close>, \<open>Json_Wellformed\<close> (\<^verbatim>\<open>include/json/json.hpp\<close>): values and their
    accessors, the serializer with its UTF-8 automaton and its number buffer, the lexer and the iterative
    parser; what is dumped is parsed back, what is parsed is well formed and can be dumped.
  \<^item> \<open>Signature\<close> (\<^verbatim>\<open>lib/signature/hash.cc\<close>): key generation, signing, verification and the texts of keys;
    signatures verify, a second signature needs a second preimage, only 32 characters are signed.
  \<^item> \<open>Utxo\<close>, \<open>Transaction\<close>, \<open>Header\<close>, \<open>Block\<close>, \<open>Message\<close> (\<^verbatim>\<open>lib/blockchain/\<close>, \<^verbatim>\<open>include/blockchain/\<close>): the data of the
    chain with its checks, digests, comparison operators, JSON and protocol-buffer forms. Accepted
    transactions and blocks conserve value up to the stated bounds, the Merkle loop computes the
    root of the balanced tree, a block is frozen once it is finalized, and all texts are read back.
  \<^item> \<open>Database\<close> (\<^verbatim>\<open>lib/database/\<close>) refines a list of linked blocks and survives saving and loading;
    \<open>Settings\<close> (\<^verbatim>\<open>lib/config/\<close>) is read back from its JSON form.
  \<^item> \<open>Server\<close>, \<open>Server_Process\<close> (\<^verbatim>\<open>lib/comms/server.cc\<close>): the call objects as a state machine over an explicit heap, the
    queues, and the loop that serves the completions of gRPC until the server is destroyed.
  \<^item> \<open>Client\<close>, \<open>Client_Threads\<close> (\<^verbatim>\<open>lib/comms/client.cc\<close>): the fan-out of broadcasts, and the sending threads with their two
    mutexes and the condition variable. The threads refine the queues, a client that is being destroyed comes to rest;
    a thread unlocks a mutex twice after each message, and the destructor can miss a sleeping thread.
  \<^item> \<open>Node\<close>, \<open>Consensus\<close>, \<open>Network\<close>, \<open>Network_Silent\<close>, \<open>Network_Runs\<close> (\<^verbatim>\<open>lib/bracha/node.cc\<close>): one node with its counters, keys and
    thresholds, its invariant over all interleavings of its operations, its progress and its end, several nodes that
    exchange encoded messages in rounds, how many nodes of the class \<^verbatim>\<open>FaultNode\<close> they tolerate, what one node that repeats its
    messages can do, and several blocks agreed on one after the other. \<open>Network_Async\<close> drops the rounds: messages are delayed, reordered and lost, faulty
    nodes send what they like, and what is delivered is still backed by correct nodes; the rounds are schedules of this network.
  \<^item> \<open>Validator\<close> (\<^verbatim>\<open>lib/cryptowallet/validator.cc\<close>, the event handler of \<^verbatim>\<open>validator.h\<close>), \<open>Wallet\<close>
    (\<^verbatim>\<open>lib/cryptowallet/wallet.cc\<close>, \<^verbatim>\<open>lib/json/jsonparser.cc\<close>): the memory pool, block creation, the update
    of the coins, the turns of the threads; creation and sending of payments.
  \<^item> \<open>Validator_Process\<close>: a validator as a process, from its constructor on, with the threads of \<^verbatim>\<open>Run\<close> in any interleaving: what
    remains true of its coins, its chain and its deliveries, and what happens to the second batch of transactions.
  \<^item> \<open>Genesis\<close>, \<open>Payments\<close>, \<open>Demo_Files\<close> (\<^verbatim>\<open>src/demo.cc\<close>): the setup of a network of four validators and its first coins, blocks made
    from them, payments on their way from the wallet to the memory pool, and the run of the program on the
    transaction files of the repository.
  \<^item> \<open>Node_Test\<close> (\<^verbatim>\<open>src/node_test_ex.cc\<close>), \<open>Comms_Test\<close> (\<^verbatim>\<open>src/server_client_test.cc\<close>): two test programs as functions of the model,
    which run to their end with every assertion true.
  \<^item> \<open>Wallet_Interactive\<close> (\<^verbatim>\<open>src/wallet_interactive.cc\<close>): payments built at the console, which balance but spend coins twice.
  \<^item> \<open>Wrapper\<close> (\<^verbatim>\<open>lib/interf/\<close>), \<open>Driver\<close> (\<^verbatim>\<open>verilog_code/main.c\<close>): the hash accelerator up to the registers of the device, and the
    program that tries it on a test message of the standard. \<open>Logging\<close> (\<^verbatim>\<open>lib/bracha/logging.cc\<close>): the logger.
  \<^item> This theory: properties across components, the memory pool of the leader on its way into the network, and on to the
    agreement of all nodes.

  \<^bold>\<open>Loops.\<close> Loops over containers are structural recursions or folds. The Merkle loop, the scanner, the parser, the
  number formatting and the packing loop of the accelerator end by an explicit measure, so no fuel is
  used anywhere. The endless loops of threads are given one turn at a time (\<open>HandleRpcs_turn\<close>,
  \<open>RunThread_step\<close>, \<open>EventProcess_turn\<close>, \<open>DBProcess_turn\<close>) or on the finite list of inputs they have read
  (\<open>protocol_loop\<close>, \<open>HandleRpcs\<close>, \<open>session_loop\<close>); reachability over turns covers their executions. Recursion that need not return
  (\<open>Block_getDigest_const\<close>, the polling of the accelerator) is a partial function whose missing
  value is non-termination.

  \<^bold>\<open>Concurrency.\<close> Each critical section of a mutex is one step; interleavings of steps are covered by the step
  relations of \<open>Server\<close>, \<open>Node\<close>, \<open>Block\<close>, \<open>Validator_Process\<close> and \<open>Network_Async\<close>. \<open>Client_Threads\<close> goes below that level: there the mutexes and
  the condition variable are part of the state, and unlocking a mutex that is not held is undefined. The same double unlock
  of a \<^verbatim>\<open>unique_lock\<close> ends \<^verbatim>\<open>Node::RunTaskInWait\<close> and \<^verbatim>\<open>Validator::Listen\<close>; the step relations of the node and of the validator go on
  behind it, as the common implementations of the standard library do. Data races (reported with the development) are
  outside the model.

  \<^bold>\<open>Not modelled.\<close> gRPC itself and the encoding of protocol buffers to bytes (library code); the times threads sleep, since
  their steps may be taken at any moment; console output, but for the logger and the reports of the interactive wallet; the
  timing programs, unit tests and the other example programs, which only call the classes above, several of them with earlier interfaces that
  no longer exist; of the JSON library, floating-point, binary and discarded values, comments, callbacks, error
  positions, the binary formats, iterators, patches and pointers, none of which the program uses; the hardware design.

  \<^bold>\<open>Limits.\<close> The hash function is executable but its value on a whole block is too long a computation for the kernel, so two blocks of
  a concrete program are different only up to a collision of their hashes (\<open>Node_Test\<close>). That all nodes deliver is shown for the
  rounds of \<open>Network\<close>, in which every message of a round arrives before the next begins; for arbitrary schedules (\<open>Network_Async\<close>) only what deliveries are backed by.
\<close>

section \<open>From the memory pool to the network\<close>

text \<open>
  The leader proposes its memory pool: with a working random device and a valid key pair, the
  proposing task empties a non-empty pool and sends exactly one message, a SEND with an immutable
  block of mutually consistent transactions of the pool, signed so that it verifies with the key the
  leader announced before.
\<close>

theorem leader_proposes_pool:
  assumes "is_lead nd" and "memory_pool v \<noteq> []" and "device_works rt"
    and "key_pair (private_key (my_next_key_pair nd)) (public_key (my_next_key_pair nd))"
  shows "\<exists>v' nd' b. ProposeProcess_task rt (v, nd) = Inr (v', nd') \<and> memory_pool v' = []
    \<and> outbox nd' = outbox nd @ [new_Message SEND b (ucast (node_id nd)) 0]
    \<and> set (txs b) \<subseteq> set (memory_pool v) \<and> inputs_disjoint (txs b)
    \<and> verifySignature b (public_key (my_next_key_pair nd)) = Inr True"
proof -
  obtain bx v' where c: "CreateBlk True empty_Block v = Inr (1, bx, v')" "memory_pool v' = []" "\<not> block_mutable bx"
    "inputs_disjoint (txs bx)" "set (txs bx) \<subseteq> set (memory_pool v)"
    using created_block_facts [OF assms(2)] by blast
  obtain b nd1 where s: "signBlock rt bx nd = Inr (b, nd1)" using signBlock_total [OF assms(3) c(3) assms(4)] by blast
  have "txs b = txs bx" "outbox nd1 = outbox nd" "node_id nd1 = node_id nd"
    using signBlock_Inr [OF s] Block_sign_keeps by auto
  then show ?thesis
    using c s signBlock_chain [OF s assms(4)] assms(1)
    by (simp add: ProposeProcess_task_def Validator_Propose_def Propose_def broadcastMessage_def) (intro exI [of _ b], simp)
qed

theorem leader_proposes_pool_witness:
  "\<exists>v' nd' b. ProposeProcess_task demo_runtime (demo_validator, (demo_node 0)\<lparr>is_lead := True\<rparr>) = Inr (v', nd')
     \<and> outbox nd' = [new_Message SEND b 2 0] \<and> verifySignature b demo_public = Inr True"
  using leader_proposes_pool [of "(demo_node 0)\<lparr>is_lead := True\<rparr>" demo_validator demo_runtime] demo_key_pair
  by (auto simp: demo_node_def demo_validator_def)

section \<open>From the wallet to the agreement of all nodes\<close>

definition demo_payment100 :: json where
  "demo_payment100 = JObject [(''ins'', JArray [JObject [(''outIDX'', JUnsigned 0), (''txID'', JUnsigned 0)]]),
     (''outs'', JArray [JObject [(''outwalletID'', JUnsigned 7), (''value'', JUnsigned 100)]]), (''walletID'', JUnsigned 4)]"

lemma demo_payment100_info:
  "TransInfo_from_json demo_payment100 new_TransInfo = Inr \<lparr>walletid = 4, out_value_list = [100], out_walletID_list = [7],
      in_outIDX_list = [0], in_txID_list = [0]\<rparr>"
  by (simp add: demo_payment100_def TransInfo_from_json_def new_TransInfo_def read_in_def read_out_def get_arith_def get_u64_def)



end
